(* ===== verification/Colca_Prelude.thy ===== *)
theory Colca_Prelude
  imports Main "HOL-Library.Sublist" "HOL-Library.Char_ord" "HOL-Library.List_Lexorder"
    "HOL-Library.Product_Lexorder"
begin

text \<open>
  Shared ground of the development: the operations of Go's \<^verbatim>\<open>strings\<close>, \<^verbatim>\<open>slices\<close> and
  \<^verbatim>\<open>sort\<close> packages the sources use, on strings read as byte lists (a \<^typ>\<open>char\<close> is one
  byte, so \<^term>\<open>length\<close> is Go's \<^verbatim>\<open>len\<close>), the generic lemmas on lists and maps the
  components share, and the collections of rewrite rules their proofs draw on.
  Byte order on strings, the order of \<^verbatim>\<open>sort.Strings\<close>, comes from \<^verbatim>\<open>Char_ord\<close> and
  \<^verbatim>\<open>List_Lexorder\<close>.
\<close>

named_theorems seg_simps \<open>splitting and joining of topic segments\<close>
named_theorems zone_simps \<open>coverage of paths by zones\<close>
named_theorems store_simps \<open>fields of the store's state after an operation\<close>

type_synonym bytes = string

section \<open>Package strings\<close>

text \<open>\<^verbatim>\<open>strings.Split(s, sep)\<close> for a separator of one byte.\<close>

fun split_on :: "char \<Rightarrow> string \<Rightarrow> string list" where
  "split_on c [] = [[]]"
| "split_on c (x # xs) =
     (if x = c then [] # split_on c xs
      else (case split_on c xs of [] \<Rightarrow> [[x]] | y # ys \<Rightarrow> (x # y) # ys))"

text \<open>\<^verbatim>\<open>strings.Join(elems, sep)\<close> for a separator of one byte.\<close>

fun join_with :: "char \<Rightarrow> string list \<Rightarrow> string" where
  "join_with c [] = []"
| "join_with c [x] = x"
| "join_with c (x # y # ys) = x @ c # join_with c (y # ys)"

text \<open>\<^verbatim>\<open>strings.Cut(s, sep)\<close>: \<^term>\<open>None\<close> where Go reports \<^verbatim>\<open>found = false\<close>.\<close>

fun cut_at :: "char \<Rightarrow> string \<Rightarrow> (string \<times> string) option" where
  "cut_at c [] = None"
| "cut_at c (x # xs) =
     (if x = c then Some ([], xs)
      else (case cut_at c xs of None \<Rightarrow> None | Some (a, b) \<Rightarrow> Some (x # a, b)))"

text \<open>\<^verbatim>\<open>strings.SplitN(s, sep, n)\<close> for a positive \<^verbatim>\<open>n\<close>: the last piece is unsplit.\<close>

fun split_n :: "nat \<Rightarrow> char \<Rightarrow> string \<Rightarrow> string list" where
  "split_n 0 c s = []"
| "split_n (Suc 0) c s = [s]"
| "split_n (Suc (Suc n)) c s =
     (case cut_at c s of None \<Rightarrow> [s] | Some (a, b) \<Rightarrow> a # split_n (Suc n) c b)"

text \<open>\<^verbatim>\<open>strings.HasPrefix\<close>, \<^verbatim>\<open>strings.HasSuffix\<close>, \<^verbatim>\<open>strings.CutPrefix\<close>,
  \<^verbatim>\<open>strings.TrimPrefix\<close> and \<^verbatim>\<open>strings.TrimSuffix\<close>.\<close>

definition has_prefix :: "string \<Rightarrow> string \<Rightarrow> bool" where
  "has_prefix s p \<longleftrightarrow> take (length p) s = p"

definition has_suffix :: "string \<Rightarrow> string \<Rightarrow> bool" where
  "has_suffix s p \<longleftrightarrow> length p \<le> length s \<and> drop (length s - length p) s = p"

definition cut_prefix :: "string \<Rightarrow> string \<Rightarrow> string option" where
  "cut_prefix s p = (if has_prefix s p then Some (drop (length p) s) else None)"

definition trim_prefix :: "string \<Rightarrow> string \<Rightarrow> string" where
  "trim_prefix s p = (if has_prefix s p then drop (length p) s else s)"

definition trim_suffix :: "string \<Rightarrow> string \<Rightarrow> string" where
  "trim_suffix s p = (if has_suffix s p then take (length s - length p) s else s)"

text \<open>\<^verbatim>\<open>strings.ContainsAny(s, chars)\<close> and \<^verbatim>\<open>strings.Contains(s, substr)\<close>.\<close>

definition contains_any :: "string \<Rightarrow> string \<Rightarrow> bool" where
  "contains_any s cs \<longleftrightarrow> list_ex (\<lambda>c. c \<in> set cs) s"

fun contains_str :: "string \<Rightarrow> string \<Rightarrow> bool" where
  "contains_str [] p \<longleftrightarrow> p = []"
| "contains_str (x # xs) p \<longleftrightarrow> has_prefix (x # xs) p \<or> contains_str xs p"

text \<open>\<^verbatim>\<open>s[:i], s[i+1:]\<close> around \<^verbatim>\<open>strings.LastIndexByte(s, c)\<close>.\<close>

fun cut_last_at :: "char \<Rightarrow> string \<Rightarrow> (string \<times> string) option" where
  "cut_last_at c [] = None"
| "cut_last_at c (x # xs) =
     (case cut_last_at c xs of
        Some (a, b) \<Rightarrow> Some (x # a, b)
      | None \<Rightarrow> if x = c then Some ([], xs) else None)"

text \<open>\<^verbatim>\<open>c >= lo && c <= hi\<close> on bytes.\<close>

definition char_between :: "char \<Rightarrow> char \<Rightarrow> char \<Rightarrow> bool" where
  "char_between lo hi c \<longleftrightarrow> lo \<le> c \<and> c \<le> hi"

section \<open>Lemmas on prefixes\<close>

lemma has_prefix_iff [simp]: "has_prefix s p \<longleftrightarrow> prefix p s"
  unfolding has_prefix_def prefix_def
  by (metis append_eq_conv_conj append_take_drop_id)

lemma has_suffix_iff [simp]: "has_suffix s p \<longleftrightarrow> suffix p s"
  unfolding has_suffix_def suffix_def
  by (metis append_take_drop_id append_eq_conv_conj diff_diff_cancel
      length_append length_drop le_add2 diff_add_inverse2)

lemma cut_prefix_Some [simp]: "cut_prefix s p = Some r \<longleftrightarrow> s = p @ r"
  by (auto simp: cut_prefix_def prefix_def)

lemma cut_prefix_None [simp]: "cut_prefix s p = None \<longleftrightarrow> \<not> prefix p s"
  by (auto simp: cut_prefix_def)

lemma cut_prefix_append [simp]: "cut_prefix (p @ r) p = Some r"
  by simp

lemma cut_prefix_absent [simp]: "\<not> prefix p s \<Longrightarrow> cut_prefix s p = None"
  by simp

section \<open>Lemmas on segments\<close>

lemma split_on_not_Nil [simp]: "split_on c s \<noteq> []"
  by (induction s) (auto split: list.splits)

lemma join_split [simp]: "join_with c (split_on c s) = s"
proof (induction s)
  case Nil
  show ?case by simp
next
  case (Cons x xs)
  obtain y ys where sp: "split_on c xs = y # ys"
    by (cases "split_on c xs") auto
  show ?case
    using Cons.IH sp by (cases ys) auto
qed

lemma split_on_segs: "\<forall>x \<in> set (split_on c s). c \<notin> set x"
proof (induction s)
  case Nil
  show ?case by simp
next
  case (Cons x xs)
  then show ?case
    by (cases "split_on c xs") auto
qed

lemma split_on_id [simp]: "c \<notin> set s \<Longrightarrow> split_on c s = [s]"
  by (induction s) auto

lemma split_on_append [seg_simps]:
  "c \<notin> set a \<Longrightarrow> split_on c (a @ c # b) = a # split_on c b"
  by (induction a) auto

lemma split_join [seg_simps]:
  "xs \<noteq> [] \<Longrightarrow> \<forall>x \<in> set xs. c \<notin> set x \<Longrightarrow> split_on c (join_with c xs) = xs"
  by (induction c xs rule: join_with.induct) (auto simp: split_on_append)

lemma join_Cons [seg_simps]:
  "xs \<noteq> [] \<Longrightarrow> join_with c (x # xs) = x @ c # join_with c xs"
  by (cases xs) auto

lemma join_append:
  "xs \<noteq> [] \<Longrightarrow> ys \<noteq> [] \<Longrightarrow> join_with c (xs @ ys) = join_with c xs @ c # join_with c ys"
proof (induction c xs rule: join_with.induct)
  case (2 c x)
  then show ?case by (simp add: join_Cons)
qed auto

lemma split_on_append_gen:
  "split_on c (a @ c # b) = split_on c a @ split_on c b"
proof (induction a)
  case (Cons x xs)
  then show ?case
    by (cases "split_on c xs") auto
qed simp

lemma length_split_on: "length (split_on c s) = Suc (count_list s c)"
proof (induction s)
  case (Cons x xs)
  then show ?case
    by (cases "split_on c xs") auto
qed simp

lemma cut_at_None [simp]: "cut_at c s = None \<longleftrightarrow> c \<notin> set s"
  by (induction s) (auto split: option.splits)

lemma cut_at_Some [simp]: "cut_at c s = Some (a, b) \<longleftrightarrow> s = a @ c # b \<and> c \<notin> set a"
proof (induction s arbitrary: a b)
  case (Cons x xs)
  show ?case
  proof (cases a)
    case Nil
    then show ?thesis by (auto split: option.splits)
  next
    case a: (Cons y ys)
    then show ?thesis
      using Cons.IH [of ys b] by (auto split: option.splits)
  qed
qed simp

lemma cut_last_None [simp]: "cut_last_at c s = None \<longleftrightarrow> c \<notin> set s"
  by (induction s) (auto split: option.splits)

lemma cut_at_absent [simp]: "c \<notin> set s \<Longrightarrow> cut_at c s = None"
  by simp

lemma cut_at_append [simp]: "c \<notin> set a \<Longrightarrow> cut_at c (a @ c # b) = Some (a, b)"
  by simp

lemma cut_last_absent [simp]: "c \<notin> set s \<Longrightarrow> cut_last_at c s = None"
  by simp

lemma cut_last_SomeI: "c \<notin> set b \<Longrightarrow> cut_last_at c (a @ c # b) = Some (a, b)"
  by (induction a) (auto split: option.splits)

lemma cut_last_SomeD: "cut_last_at c s = Some (a, b) \<Longrightarrow> s = a @ c # b \<and> c \<notin> set b"
  by (induction s arbitrary: a b) (auto split: option.splits if_splits)

lemma cut_last_Some [simp]: "cut_last_at c s = Some (a, b) \<longleftrightarrow> s = a @ c # b \<and> c \<notin> set b"
  using cut_last_SomeI cut_last_SomeD by blast

text \<open>\<^verbatim>\<open>SplitN\<close> against \<^verbatim>\<open>Split\<close>: the first pieces agree and the last piece is the join
  of what is left.\<close>

lemma split_n_eq:
  "split_n (Suc n) c s =
     (if length (split_on c s) \<le> Suc n then split_on c s
      else take n (split_on c s) @ [join_with c (drop n (split_on c s))])"
proof (induction n arbitrary: s)
  case 0
  obtain y ys where sp: "split_on c s = y # ys"
    by (cases "split_on c s") auto
  then show ?case
    using join_split [of c s] by (auto simp: sp)
next
  case (Suc n)
  show ?case
  proof (cases "cut_at c s")
    case None
    then show ?thesis by simp
  next
    case (Some p)
    then obtain a b where s: "s = a @ c # b" "c \<notin> set a"
      by (cases p) auto
    show ?thesis
      using Suc [of b] s by (simp add: split_on_append)
  qed
qed

lemma length_split_n: "length (split_n (Suc n) c s) = min (Suc n) (length (split_on c s))"
  by (auto simp: split_n_eq)

section \<open>Lists and maps\<close>

lemma list_ex_iff_Bex [simp]: "list_ex P xs \<longleftrightarrow> (\<exists>x \<in> set xs. P x)"
  by (induction xs) auto

lemma contains_any_iff [simp]: "contains_any s cs \<longleftrightarrow> set s \<inter> set cs \<noteq> {}"
  by (auto simp: contains_any_def)

section \<open>Ordered tables\<close>

text \<open>A family of keys of an ordered key-value store, as the list of its entries in key order: what a
  scan of the family visits, one entry per key. Lookup is \<^term>\<open>map_of\<close>.\<close>

type_synonym ('k, 'v) table = "('k \<times> 'v) list"

fun tput :: "'k::linorder \<Rightarrow> 'v \<Rightarrow> ('k, 'v) table \<Rightarrow> ('k, 'v) table" where
  "tput k v [] = [(k, v)]"
| "tput k v ((k', v') # t) =
     (if k < k' then (k, v) # (k', v') # t
      else if k = k' then (k, v) # t
      else (k', v') # tput k v t)"

definition tdel :: "'k \<Rightarrow> ('k, 'v) table \<Rightarrow> ('k, 'v) table" where
  "tdel k t = filter (\<lambda>e. fst e \<noteq> k) t"

definition tget :: "'v \<Rightarrow> 'k \<Rightarrow> ('k, 'v) table \<Rightarrow> 'v" where
  "tget dflt k t = (case map_of t k of Some v \<Rightarrow> v | None \<Rightarrow> dflt)"

definition table_ok :: "('k::linorder, 'v) table \<Rightarrow> bool" where
  "table_ok t \<longleftrightarrow> sorted_wrt (<) (map fst t)"

lemma map_of_tput [simp]: "map_of (tput k v t) = (map_of t)(k \<mapsto> v)"
  by (induction k v t rule: tput.induct) (auto simp: fun_eq_iff)

lemma map_of_tdel [simp]: "map_of (tdel k t) = (map_of t)(k := None)"
  unfolding tdel_def by (induction t) (auto simp: fun_eq_iff)

lemma keys_tput [simp]: "fst ` set (tput k v t) = insert k (fst ` set t)"
  by (induction k v t rule: tput.induct) auto

lemma keys_tdel [simp]: "fst ` set (tdel k t) = fst ` set t - {k}"
  by (auto simp: tdel_def)

lemma table_ok_Nil [simp]: "table_ok []"
  by (simp add: table_ok_def)

lemma table_ok_tput [simp]: "table_ok t \<Longrightarrow> table_ok (tput k v t)"
proof (induction k v t rule: tput.induct)
  case (2 k v k' v' t)
  have "\<forall>x \<in> set (map fst t). k' < x" using "2.prems" by (simp add: table_ok_def)
  then show ?case
    using 2 keys_tput [of k v t] by (auto simp: table_ok_def)
qed (simp add: table_ok_def)

lemma table_ok_tdel [simp]: "table_ok t \<Longrightarrow> table_ok (tdel k t)"
  unfolding table_ok_def tdel_def
  by (induction t) auto

lemma table_ok_distinct: "table_ok t \<Longrightarrow> distinct (map fst t)"
  by (simp add: table_ok_def strict_sorted_iff)

lemma table_ok_eqI:
  assumes "table_ok t" "table_ok t'" "map_of t = map_of t'"
  shows "t = t'"
proof -
  have "set (map fst t) = set (map fst t')"
    using assms(3) by (metis dom_map_of_conv_image_fst list.set_map)
  then have keys: "map fst t = map fst t'"
    using assms(1,2) unfolding table_ok_def by (intro strict_sorted_equal)
  have len: "length t = length t'" using keys map_eq_imp_length_eq by blast
  have look: "map_of u (fst (u ! i)) = Some (snd (u ! i))" if "table_ok u" "i < length u" for u and i :: nat
    using map_of_is_SomeI [OF table_ok_distinct [OF that(1)], of "fst (u ! i)" "snd (u ! i)"] that(2) by simp
  show ?thesis
  proof (rule nth_equalityI [OF len])
    fix i assume i: "i < length t"
    then have "fst (t ! i) = fst (t' ! i)" using keys len by (metis nth_map)
    then show "t ! i = t' ! i"
      using look [OF assms(1) i] look [OF assms(2), of i] i len assms(3) by (simp add: prod_eq_iff)
  qed
qed

lemma length_tput:
  assumes "table_ok t"
  shows "length (tput k v t) = (if map_of t k = None then Suc (length t) else length t)"
proof -
  have size: "length u = card (dom (map_of u))" if "table_ok u" for u :: "('a, 'b) table"
    using distinct_card [OF table_ok_distinct [OF that]] by (simp add: dom_map_of_conv_image_fst)
  from size [OF assms] size [OF table_ok_tput [OF assms, of k v]] show ?thesis
    by (auto simp: insert_absorb domI domIff finite_dom_map_of)
qed

lemma table_ok_filter: "table_ok t \<Longrightarrow> table_ok (filter P t)"
  unfolding table_ok_def by (simp add: sorted_wrt_map sorted_wrt_filter)

lemma map_of_filter_distinct:
  "distinct (map fst t) \<Longrightarrow> map_of (filter (\<lambda>(k, v). P k v) t) k =
     (case map_of t k of Some v \<Rightarrow> if P k v then Some v else None | None \<Rightarrow> None)"
proof (induction t)
  case (Cons e t)
  have "map_of t (fst e) = None" using Cons.prems by (simp add: map_of_eq_None_iff)
  then show ?case using Cons by (cases e) auto
qed simp

lemma tget_tput [simp]: "tget d k (tput k' v t) = (if k = k' then v else tget d k t)"
  by (simp add: tget_def)

lemma tget_tdel [simp]: "tget d k (tdel k' t) = (if k = k' then d else tget d k t)"
  by (simp add: tget_def)

lemma tget_Nil [simp]: "tget d k [] = d"
  by (simp add: tget_def)

text \<open>The smallest of a bound and the values selected in a scan.\<close>

definition scan_min :: "('e \<Rightarrow> bool) \<Rightarrow> ('e \<Rightarrow> nat) \<Rightarrow> 'e list \<Rightarrow> nat \<Rightarrow> nat" where
  "scan_min sel val es m = fold (\<lambda>e m. if sel e \<and> val e < m then val e else m) es m"

lemma scan_min_le: "scan_min sel val es m \<le> m"
  unfolding scan_min_def by (induction es arbitrary: m) (auto intro: le_trans less_imp_le)

lemma scan_min_lower: "e \<in> set es \<Longrightarrow> sel e \<Longrightarrow> scan_min sel val es m \<le> val e"
proof (induction es arbitrary: m)
  case (Cons x es)
  show ?case
  proof (cases "x = e")
    case True
    then have "scan_min sel val (x # es) m = scan_min sel val es (min (val e) m)"
      using Cons.prems by (simp add: scan_min_def min_def)
    then show ?thesis using scan_min_le [of sel val es "min (val e) m"] by simp
  next
    case False
    then have e: "e \<in> set es" using Cons.prems(1) by simp
    then show ?thesis using Cons.IH [OF e Cons.prems(2)] by (simp add: scan_min_def)
  qed
qed simp

lemma scan_min_cases: "scan_min sel val es m = m \<or> (\<exists>e \<in> set es. sel e \<and> scan_min sel val es m = val e)"
proof (induction es arbitrary: m)
  case (Cons x es)
  have "scan_min sel val (x # es) m = scan_min sel val es (if sel x \<and> val x < m then val x else m)"
    by (simp add: scan_min_def)
  then show ?case using Cons.IH by (auto split: if_splits)
qed (simp add: scan_min_def)

end
