(* ===== verification/Uns_Topic.thy ===== *)
theory Uns_Topic
  imports Colca_Prelude
begin

text \<open>
  The topic grammar of \<^verbatim>\<open>plugins/uns\<close>: the topic root (\<^verbatim>\<open>root.go\<close>), the routing classes,
  streams and flow directions of contracts and the mount rewriting of replication
  (\<^verbatim>\<open>uns.go\<close>), retired contracts and finding topics. Functions that read the process-wide
  topic root take it as their first argument.
\<close>

section \<open>Topic root\<close>

definition DefaultRoot :: string where "DefaultRoot = ''colca''"

definition Version :: string where "Version = ''v1''"

text \<open>The process-wide root, \<^term>\<open>None\<close> until it is set.\<close>

definition Root :: "string option \<Rightarrow> string" where
  "Root root = (case root of Some r \<Rightarrow> r | None \<Rightarrow> DefaultRoot)"

definition Prefix :: "string \<Rightarrow> string" where
  "Prefix rt = rt @ ''/'' @ Version @ ''/''"

definition letter_or_digit :: "char \<Rightarrow> bool" where
  "letter_or_digit c \<longleftrightarrow>
     char_between CHR ''a'' CHR ''z'' c \<or> char_between CHR ''A'' CHR ''Z'' c \<or>
     char_between CHR ''0'' CHR ''9'' c"

datatype root_error = RootLength string | RootCharacter string

definition ValidRoot :: "string \<Rightarrow> root_error option" where
  "ValidRoot r =
     (if r = [] \<or> length r > 64 then Some (RootLength r)
      else if letter_or_digit (hd r) \<and>
              list_all (\<lambda>c. letter_or_digit c \<or> c = CHR ''-'' \<or> c = CHR ''_'' \<or> c = CHR ''.'') (tl r)
      then None
      else Some (RootCharacter r))"

definition SetRoot :: "string option \<Rightarrow> string \<Rightarrow> root_error option \<times> string option" where
  "SetRoot root r = (case ValidRoot r of Some e \<Rightarrow> (Some e, root) | None \<Rightarrow> (None, Some r))"

text \<open>\<^verbatim>\<open>env\<close> is the value of \<^verbatim>\<open>COLCA_TOPIC_ROOT\<close>, empty when unset.\<close>

definition SetRootFromEnv :: "string \<Rightarrow> string option \<Rightarrow> root_error option \<times> string option" where
  "SetRootFromEnv env root = SetRoot root (if env = [] then DefaultRoot else env)"

section \<open>Parsing topics\<close>

record Parsed =
  pPrefix :: string
  pVersion :: string
  pContract :: string
  pNodeID :: string
  pPath :: string

definition MaxTopicBytes :: nat where "MaxTopicBytes = 65535"

definition IsUns :: "string \<Rightarrow> string \<Rightarrow> bool" where
  "IsUns rt topic \<longleftrightarrow> has_prefix topic (rt @ ''/'')"

datatype grammar_error = TopicTooLong nat | TooFewSegments nat string | NotAContract string

definition Parse :: "string \<Rightarrow> grammar_error + Parsed" where
  "Parse topic =
     (if length topic > MaxTopicBytes then Inl (TopicTooLong (length topic))
      else let seg = split_on CHR ''/'' topic in
        if length seg < 5 then Inl (TooFewSegments (length seg) topic)
        else if \<not> has_prefix (seg ! 2) ''_'' then Inl (NotAContract (seg ! 2))
        else Inr \<lparr>pPrefix = seg ! 0, pVersion = seg ! 1, pContract = seg ! 2, pNodeID = seg ! 3,
                  pPath = join_with CHR ''/'' (drop 4 seg)\<rparr>)"

section \<open>Contract classes\<close>

datatype Class = ClassNone | ClassData | ClassEntity | ClassDefinition | ClassCmd | ClassAck
  | ClassGap | ClassAudit | ClassAlarm | ClassLog | ClassAnnotation

definition PersonalAccessTokenContract :: string where
  "PersonalAccessTokenContract = ''_PersonalAccessToken''"

definition ClassOf :: "string \<Rightarrow> Class" where
  "ClassOf contract =
     (if contract = ''_Metric'' then ClassData
      else if contract = ''_AlarmStateChange'' \<or> contract = ''_NotificationDispatched'' then ClassAlarm
      else if contract = ''_Annotation'' then ClassAnnotation
      else if contract = ''_Log'' then ClassLog
      else if contract \<in> set [''_EnrolledIdentity'', ''_Node'', ''_ServiceDetails'', ''_SystemElement'',
                ''_Signal'', ''_Constant'', ''_ExternalReference'', ''_Resource'', ''_EditOperation'',
                ''_AlarmNotificationConfig'', ''_NotificationConfigStatus'', ''_Finding'',
                ''_AlarmState'', ''_AlarmSilence'', ''_AlarmSubscription''] then ClassEntity
      else if contract \<in> set [''_Group'', ''_MetadataType'', ''_AnnotationType'', ''_DataModel'',
                ''_ExternalSystem'', ''_SemanticTag'', PersonalAccessTokenContract] then ClassDefinition
      else if contract = ''_Ack'' then ClassAck
      else if contract = ''_StreamGap'' then ClassGap
      else if contract = ''_AuditEvent'' then ClassAudit
      else if has_prefix contract ''_Cmd'' then ClassCmd
      else ClassNone)"

definition IsState :: "Class \<Rightarrow> bool" where
  "IsState c \<longleftrightarrow> c = ClassData \<or> c = ClassEntity \<or> c = ClassDefinition"

definition IsKnown :: "Class \<Rightarrow> bool" where "IsKnown c \<longleftrightarrow> c \<noteq> ClassNone"

definition IsCommand :: "Class \<Rightarrow> bool" where "IsCommand c \<longleftrightarrow> c = ClassCmd"

definition IsAck :: "Class \<Rightarrow> bool" where "IsAck c \<longleftrightarrow> c = ClassAck"

definition IsOwnedState :: "Class \<Rightarrow> bool" where
  "IsOwnedState c \<longleftrightarrow> c = ClassData \<or> c = ClassEntity"

definition IsCommandAuthoredState :: "Class \<Rightarrow> bool" where
  "IsCommandAuthoredState c \<longleftrightarrow> c = ClassEntity \<or> c = ClassDefinition"

definition IsCommandAuthoredEvent :: "Class \<Rightarrow> bool" where
  "IsCommandAuthoredEvent c \<longleftrightarrow> c = ClassAnnotation"

definition IsDefinition :: "Class \<Rightarrow> bool" where "IsDefinition c \<longleftrightarrow> c = ClassDefinition"

definition IsLog :: "Class \<Rightarrow> bool" where "IsLog c \<longleftrightarrow> c = ClassLog"

definition IsAudit :: "Class \<Rightarrow> bool" where "IsAudit c \<longleftrightarrow> c = ClassAudit"

definition NeedsStateRefresh :: "Class \<Rightarrow> bool" where "NeedsStateRefresh c \<longleftrightarrow> c = ClassEntity"

definition KeepsActorWitness :: "string \<Rightarrow> bool" where
  "KeepsActorWitness topic =
     (case Parse topic of Inl _ \<Rightarrow> False | Inr p \<Rightarrow> IsCommand (ClassOf (pContract p)))"

definition ValidActorKind :: "string \<Rightarrow> bool" where
  "ValidActorKind kind \<longleftrightarrow> kind \<in> set [''human'', ''service'', ''node'', ''system'', ''anonymous'']"

section \<open>Streams and flow\<close>

definition FlowsUp :: "Class \<Rightarrow> bool" where
  "FlowsUp c \<longleftrightarrow> c = ClassData \<or> c = ClassEntity \<or> c = ClassAck \<or> c = ClassGap \<or>
     c = ClassAudit \<or> c = ClassAlarm \<or> c = ClassAnnotation \<or> c = ClassLog"

fun StreamFor :: "Class \<Rightarrow> string" where
  "StreamFor ClassData = ''metrics''"
| "StreamFor ClassEntity = ''entities''"
| "StreamFor ClassDefinition = ''definitions''"
| "StreamFor ClassCmd = ''commands''"
| "StreamFor ClassAck = ''commands''"
| "StreamFor ClassAudit = ''audit''"
| "StreamFor ClassAlarm = ''alarms''"
| "StreamFor ClassAnnotation = ''annotations''"
| "StreamFor ClassLog = ''logs''"
| "StreamFor ClassGap = ''''"
| "StreamFor ClassNone = ''''"

definition manifestClasses :: "(string \<times> Class) list" where
  "manifestClasses =
     [(''data'', ClassData), (''entity'', ClassEntity), (''definition'', ClassDefinition),
      (''cmd'', ClassCmd), (''ack'', ClassAck), (''audit'', ClassAudit), (''alarm'', ClassAlarm),
      (''annotation'', ClassAnnotation), (''log'', ClassLog)]"

definition ClassFromManifest :: "string \<Rightarrow> Class option" where
  "ClassFromManifest name = map_of manifestClasses name"

definition ManifestClassNames :: "string list" where
  "ManifestClassNames = sort (map fst manifestClasses)"

definition GapStream :: "Parsed \<Rightarrow> string" where
  "GapStream p = (case cut_last_at CHR ''/'' (pPath p) of Some (_, s) \<Rightarrow> s | None \<Rightarrow> pPath p)"

definition MatchesUplinkStream :: "Class \<Rightarrow> Parsed \<Rightarrow> string \<Rightarrow> bool" where
  "MatchesUplinkStream c p stream =
     (if \<not> FlowsUp c then False
      else if c = ClassGap then GapStream p = stream
      else StreamFor c = stream)"

definition uplinkStreamSet :: "string list" where
  "uplinkStreamSet = remdups
     (filter (\<lambda>s. s \<noteq> '''') (map StreamFor (filter FlowsUp (map snd manifestClasses))))"

definition IsUplinkStream :: "string \<Rightarrow> bool" where
  "IsUplinkStream stream \<longleftrightarrow> stream \<in> set uplinkStreamSet"

definition UplinkStreams :: "string list" where
  "UplinkStreams = sort uplinkStreamSet"

definition nodePrivateContracts :: "string list" where
  "nodePrivateContracts = [''_EditOperation'']"

definition IsNodePrivate :: "string \<Rightarrow> bool" where
  "IsNodePrivate contract \<longleftrightarrow> contract \<in> set nodePrivateContracts"

definition NodePrivateStreams :: "string list" where
  "NodePrivateStreams = sort (remdups
     (filter (\<lambda>s. s \<noteq> '''') (map (\<lambda>c. StreamFor (ClassOf c)) nodePrivateContracts)))"

definition partialUplinkStreams :: "string list" where
  "partialUplinkStreams =
     StreamFor ClassLog
     # filter (\<lambda>s. s \<noteq> '''') (map StreamFor (filter (\<lambda>c. \<not> FlowsUp c) (map snd manifestClasses)))
     @ filter (\<lambda>s. s \<noteq> '''') (map (\<lambda>c. StreamFor (ClassOf c)) nodePrivateContracts)"

definition UplinkCarriesEveryRecord :: "string \<Rightarrow> bool" where
  "UplinkCarriesEveryRecord stream \<longleftrightarrow> stream \<notin> set partialUplinkStreams"

definition IsMetric :: "string \<Rightarrow> bool" where "IsMetric contract \<longleftrightarrow> contract = ''_Metric''"

definition FetchLogsVerb :: string where "FetchLogsVerb = ''fetchLogs''"

definition FetchLogsAckKey :: string where "FetchLogsAckKey = ''_fetchLogsAck''"

definition FetchLogsAck :: "string \<Rightarrow> string option" where
  "FetchLogsAck topic =
     (if \<not> has_suffix topic (''/'' @ FetchLogsVerb) \<or> \<not> contains_str topic ''/_Ack/'' then None
      else case Parse topic of
        Inl _ \<Rightarrow> None
      | Inr p \<Rightarrow> if pContract p \<noteq> ''_Ack'' then None else Some (pPath p))"

definition SignalTopicForMetric :: "string \<Rightarrow> Parsed \<Rightarrow> string" where
  "SignalTopicForMetric rt p = Prefix rt @ ''_Signal/'' @ pNodeID p @ ''/'' @ pPath p"

definition NodeFindingTopic :: "string \<Rightarrow> string \<Rightarrow> string \<Rightarrow> string" where
  "NodeFindingTopic rt node reason = Prefix rt @ ''_Finding/'' @ node @ ''/'' @ reason"

definition retiredContracts :: "string list" where
  "retiredContracts = [''_ClockDefinition'', ''_ClockProgress'']"

definition IsRetired :: "string \<Rightarrow> bool" where
  "IsRetired contract \<longleftrightarrow> contract \<in> set retiredContracts"

definition RetiredTopic :: "string \<Rightarrow> bool" where
  "RetiredTopic topic = (case Parse topic of Inl _ \<Rightarrow> False | Inr p \<Rightarrow> IsRetired (pContract p))"

text \<open>Cursor names of the replication link.\<close>

definition DownlinkCursorPrefix :: string where "DownlinkCursorPrefix = ''downlink:''"

definition DownlinkDefCursorPrefix :: string where "DownlinkDefCursorPrefix = ''downlink-def:''"

definition UplinkCursor :: "string \<Rightarrow> string" where "UplinkCursor parentPubkey = ''up:'' @ parentPubkey"

definition DownlinkCursor :: "string \<Rightarrow> string" where
  "DownlinkCursor parentPubkey = ''down:'' @ parentPubkey"

definition DownlinkDefCursor :: "string \<Rightarrow> string" where
  "DownlinkDefCursor parentPubkey = ''down-def:'' @ parentPubkey"

section \<open>Mount rewriting\<close>

definition MountInsert :: "string \<Rightarrow> string \<Rightarrow> string" where
  "MountInsert topic mount =
     (let seg = split_n 5 CHR ''/'' topic in
      if length seg < 5 then topic
      else join_with CHR ''/'' [seg ! 0, seg ! 1, seg ! 2, seg ! 3, mount @ ''/'' @ (seg ! 4)])"

definition UnderMount :: "string \<Rightarrow> string \<Rightarrow> bool" where
  "UnderMount path mount \<longleftrightarrow> mount \<noteq> '''' \<and> has_prefix path (mount @ ''/'')"

definition MountStrip :: "string \<Rightarrow> string \<Rightarrow> string \<times> bool" where
  "MountStrip topic mount =
     (let seg = split_n 5 CHR ''/'' topic in
      if length seg < 5 then (topic, False)
      else case cut_prefix (seg ! 4) (mount @ ''/'') of
        None \<Rightarrow> (topic, False)
      | Some rest \<Rightarrow> (join_with CHR ''/'' [seg ! 0, seg ! 1, seg ! 2, seg ! 3, rest], True))"

section \<open>The shape of topics\<close>

text \<open>A topic of at least five segments is four header segments and a path; every operation
  above reads it through this decomposition.\<close>

definition topic_of :: "string \<Rightarrow> string \<Rightarrow> string \<Rightarrow> string \<Rightarrow> string \<Rightarrow> string" where
  "topic_of a b c d path = a @ ''/'' @ b @ ''/'' @ c @ ''/'' @ d @ ''/'' @ path"

abbreviation slash_free :: "string \<Rightarrow> bool" where
  "slash_free s \<equiv> CHR ''/'' \<notin> set s"

lemma split_topic_of [seg_simps]:
  "slash_free a \<Longrightarrow> slash_free b \<Longrightarrow> slash_free c \<Longrightarrow> slash_free d \<Longrightarrow>
   split_on CHR ''/'' (topic_of a b c d path) = [a, b, c, d] @ split_on CHR ''/'' path"
  by (simp add: topic_of_def split_on_append)

lemma split_n_topic_of [seg_simps]:
  "slash_free a \<Longrightarrow> slash_free b \<Longrightarrow> slash_free c \<Longrightarrow> slash_free d \<Longrightarrow>
   split_n 5 CHR ''/'' (topic_of a b c d path) = [a, b, c, d, path]"
  by (simp add: topic_of_def numeral_eq_Suc)

lemma topic_cases:
  assumes "5 \<le> length (split_on CHR ''/'' t)"
  obtains a b c d path where "t = topic_of a b c d path"
    "slash_free a" "slash_free b" "slash_free c" "slash_free d"
proof -
  let ?s = "split_on CHR ''/'' t"
  obtain a b c d r where s: "?s = a # b # c # d # r" "r \<noteq> []"
    using assms by (auto simp: Suc_le_length_iff numeral_eq_Suc)
  have "\<forall>x \<in> set ?s. slash_free x" by (rule split_on_segs)
  then have free: "slash_free a" "slash_free b" "slash_free c" "slash_free d"
    using s by auto
  have "t = join_with CHR ''/'' ?s" by simp
  also have "\<dots> = topic_of a b c d (join_with CHR ''/'' r)"
    using s by (simp add: topic_of_def join_Cons)
  finally show thesis using that free by blast
qed

lemma split_n_short: "length (split_on c t) < n \<Longrightarrow> split_n n c t = split_on c t"
  by (cases n) (auto simp: split_n_eq)

lemma split_n5_short_iff:
  "length (split_n 5 CHR ''/'' t) < 5 \<longleftrightarrow> length (split_on CHR ''/'' t) < 5"
  using length_split_n [of 4 "CHR ''/''" t] by (simp add: min_def)

lemma MountInsert_topic_of [simp]:
  "slash_free a \<Longrightarrow> slash_free b \<Longrightarrow> slash_free c \<Longrightarrow> slash_free d \<Longrightarrow>
   MountInsert (topic_of a b c d path) mount = topic_of a b c d (mount @ ''/'' @ path)"
  by (simp add: MountInsert_def split_n_topic_of Let_def) (simp add: topic_of_def)

lemma MountStrip_topic_of [simp]:
  assumes "slash_free a" "slash_free b" "slash_free c" "slash_free d"
  shows "MountStrip (topic_of a b c d path) mount =
     (case cut_prefix path (mount @ ''/'') of
        None \<Rightarrow> (topic_of a b c d path, False)
      | Some rest \<Rightarrow> (topic_of a b c d rest, True))"
  unfolding MountStrip_def Let_def split_n_topic_of [OF assms]
  by (simp add: topic_of_def split: option.split)

lemma MountInsert_short: "length (split_on CHR ''/'' t) < 5 \<Longrightarrow> MountInsert t m = t"
  by (simp add: MountInsert_def split_n5_short_iff Let_def)

lemma MountStrip_short: "length (split_on CHR ''/'' t) < 5 \<Longrightarrow> MountStrip t m = (t, False)"
  by (simp add: MountStrip_def split_n5_short_iff Let_def)

lemma Parse_topic_of:
  "slash_free a \<Longrightarrow> slash_free b \<Longrightarrow> slash_free c \<Longrightarrow> slash_free d \<Longrightarrow>
   Parse (topic_of a b c d path) =
     (if length (topic_of a b c d path) > MaxTopicBytes
      then Inl (TopicTooLong (length (topic_of a b c d path)))
      else if \<not> prefix ''_'' c then Inl (NotAContract c)
      else Inr \<lparr>pPrefix = a, pVersion = b, pContract = c, pNodeID = d, pPath = path\<rparr>)"
  by (simp add: Parse_def split_topic_of Let_def)

text \<open>Evaluation compares the length as an integer, not in unary.\<close>

lemma MaxTopicBytes_less [code_unfold]: "MaxTopicBytes < n \<longleftrightarrow> 65535 < int n"
  by (simp add: MaxTopicBytes_def)

lemma Parse_long: "Parse t = Inr p \<Longrightarrow> 5 \<le> length (split_on CHR ''/'' t)"
  by (auto simp: Parse_def Let_def split: if_splits)

text \<open>What a successful parse says of the topic, in both directions.\<close>

lemma Parse_Inr_iff:
  "Parse t = Inr p \<longleftrightarrow>
     t = topic_of (pPrefix p) (pVersion p) (pContract p) (pNodeID p) (pPath p) \<and>
     slash_free (pPrefix p) \<and> slash_free (pVersion p) \<and> slash_free (pContract p) \<and>
     slash_free (pNodeID p) \<and> prefix ''_'' (pContract p) \<and> length t \<le> MaxTopicBytes"
proof
  assume P: "Parse t = Inr p"
  obtain a b c d path where "t = topic_of a b c d path"
    "slash_free a" "slash_free b" "slash_free c" "slash_free d"
    using topic_cases [OF Parse_long [OF P]] by blast
  then show "t = topic_of (pPrefix p) (pVersion p) (pContract p) (pNodeID p) (pPath p) \<and>
     slash_free (pPrefix p) \<and> slash_free (pVersion p) \<and> slash_free (pContract p) \<and>
     slash_free (pNodeID p) \<and> prefix ''_'' (pContract p) \<and> length t \<le> MaxTopicBytes"
    using P by (auto simp: Parse_topic_of split: if_splits)
next
  assume "t = topic_of (pPrefix p) (pVersion p) (pContract p) (pNodeID p) (pPath p) \<and>
     slash_free (pPrefix p) \<and> slash_free (pVersion p) \<and> slash_free (pContract p) \<and>
     slash_free (pNodeID p) \<and> prefix ''_'' (pContract p) \<and> length t \<le> MaxTopicBytes"
  then show "Parse t = Inr p"
    using Parse_topic_of [of "pPrefix p" "pVersion p" "pContract p" "pNodeID p" "pPath p"] by auto
qed

section \<open>Mounts invert each other, streams follow classes\<close>

text \<open>C18: The mount rewrite of the uplink and of the downlink are inverse. A record's topic that parses
  at a child is rewritten to the same topic with the mount at the head of its path, which parses with
  the same contract and author unless it has become too long, and stripping the mount gives the
  child's topic back. Conversely a topic the strip accepts is the insertion of its result, and the
  strip accepts exactly the paths below the mount.\<close>

theorem mount_round_trip:
  assumes "Parse t = Inr p" "m \<noteq> ''''"
  shows "MountStrip (MountInsert t m) m = (t, True) \<and>
    Parse (MountInsert t m) =
      (if length (MountInsert t m) > MaxTopicBytes then Inl (TopicTooLong (length (MountInsert t m)))
       else Inr (p\<lparr>pPath := m @ ''/'' @ pPath p\<rparr>)) \<and>
    (snd (MountStrip t m) \<longleftrightarrow> UnderMount (pPath p) m) \<and>
    (snd (MountStrip t m) \<longrightarrow> MountInsert (fst (MountStrip t m)) m = t)"
proof -
  have t: "t = topic_of (pPrefix p) (pVersion p) (pContract p) (pNodeID p) (pPath p)"
    and free: "slash_free (pPrefix p)" "slash_free (pVersion p)" "slash_free (pContract p)"
      "slash_free (pNodeID p)" and under: "prefix ''_'' (pContract p)"
    using assms(1) by (auto simp: Parse_Inr_iff)
  let ?T = "topic_of (pPrefix p) (pVersion p) (pContract p) (pNodeID p)"
  have ins: "MountInsert t m = ?T (m @ ''/'' @ pPath p)"
    by (subst t) (simp add: free)
  have "Parse (MountInsert t m) =
      (if length (MountInsert t m) > MaxTopicBytes then Inl (TopicTooLong (length (MountInsert t m)))
       else Inr (p\<lparr>pPath := m @ ''/'' @ pPath p\<rparr>))"
    using under unfolding ins by (subst Parse_topic_of [OF free]) simp
  moreover have "MountStrip (MountInsert t m) m = (t, True)"
    using t unfolding ins by (simp add: free cut_prefix_def)
  moreover have "snd (MountStrip t m) \<longleftrightarrow> UnderMount (pPath p) m"
    using assms(2) by (subst t) (simp add: free UnderMount_def split: option.split)
  moreover have "MountInsert (fst (MountStrip t m)) m = t" if "snd (MountStrip t m)"
  proof -
    have "prefix (m @ ''/'') (pPath p)"
      using that calculation(3) by (simp add: UnderMount_def)
    then obtain rest where r: "pPath p = (m @ ''/'') @ rest" by (auto simp: prefix_def)
    have "MountStrip t m = (?T rest, True)" by (subst t) (simp add: free r cut_prefix_def)
    then show ?thesis using t r by (simp add: free)
  qed
  ultimately show ?thesis by blast
qed

theorem mount_round_trip_witness:
  "MountInsert ''colca/v1/_Signal/n1/line/t'' ''werk1'' = ''colca/v1/_Signal/n1/werk1/line/t'' \<and>
   MountStrip (MountInsert ''colca/v1/_Signal/n1/line/t'' ''werk1'') ''werk1'' =
     (''colca/v1/_Signal/n1/line/t'', True)"
proof -
  have 1: "Parse ''colca/v1/_Signal/n1/line/t'' = Inr \<lparr>pPrefix = ''colca'', pVersion = ''v1'',
      pContract = ''_Signal'', pNodeID = ''n1'', pPath = ''line/t''\<rparr>" by code_simp
  have 2: "''werk1'' \<noteq> ''''" by simp
  have "MountInsert ''colca/v1/_Signal/n1/line/t'' ''werk1'' = ''colca/v1/_Signal/n1/werk1/line/t''"
    by code_simp
  then show ?thesis using mount_round_trip [OF 1 2] by blast
qed

lemma partial_streams: "partialUplinkStreams = [''logs'', ''definitions'', ''commands'', ''entities'']"
  by code_simp

lemma uplink_streams: "set uplinkStreamSet = {''metrics'', ''entities'', ''commands'', ''audit'', ''alarms'',
   ''annotations'', ''logs''}"
  by (auto simp: uplinkStreamSet_def manifestClasses_def FlowsUp_def)

text \<open>C19: Offset gap detection is sound. On a stream whose uplink is said to carry every record, each
  contract stored there flows up, is not private to its node and is not filtered by level, so a
  missing child offset is a lost record. Every class that flows up and has a stream of its own is
  admitted on it, and no class that only flows down is ever matched to an uplink stream.\<close>

theorem uplink_streams_sound:
  "(UplinkCarriesEveryRecord stream \<and> stream \<noteq> '''' \<and> StreamFor (ClassOf contract) = stream \<longrightarrow>
      FlowsUp (ClassOf contract) \<and> \<not> IsNodePrivate contract \<and> \<not> IsLog (ClassOf contract) \<and>
      IsUplinkStream stream) \<and>
   (FlowsUp c \<and> c \<noteq> ClassGap \<longrightarrow> IsUplinkStream (StreamFor c)) \<and>
   (MatchesUplinkStream c p stream \<longrightarrow> c \<noteq> ClassDefinition \<and> c \<noteq> ClassCmd \<and>
      (c = ClassGap \<or> IsUplinkStream stream)) \<and>
   \<not> IsUplinkStream (StreamFor ClassDefinition)"
proof (intro conjI impI; (elim conjE)?)
  assume s: "UplinkCarriesEveryRecord stream" "stream \<noteq> ''''" "StreamFor (ClassOf contract) = stream"
  have "ClassOf contract \<in> {ClassData, ClassAudit, ClassAlarm, ClassAnnotation}"
    using s by (cases "ClassOf contract") (auto simp: UplinkCarriesEveryRecord_def partial_streams)
  then show "FlowsUp (ClassOf contract)" "\<not> IsLog (ClassOf contract)" "IsUplinkStream stream"
    using s(3) by (auto simp: FlowsUp_def IsLog_def IsUplinkStream_def uplink_streams)
  show "\<not> IsNodePrivate contract"
    using \<open>ClassOf contract \<in> _\<close> by (auto simp: IsNodePrivate_def nodePrivateContracts_def ClassOf_def)
qed (auto simp: FlowsUp_def IsUplinkStream_def uplink_streams MatchesUplinkStream_def split: if_splits)

theorem uplink_streams_sound_witness:
  "UplinkCarriesEveryRecord ''metrics'' \<and> FlowsUp (ClassOf ''_Metric'') \<and> \<not> IsNodePrivate ''_Metric''"
proof -
  have "UplinkCarriesEveryRecord ''metrics'' \<and> ''metrics'' \<noteq> '''' \<and>
      StreamFor (ClassOf ''_Metric'') = ''metrics''"
    by (simp add: UplinkCarriesEveryRecord_def partial_streams ClassOf_def)
  then show ?thesis
    using uplink_streams_sound [of "''metrics''" "''_Metric''" ClassData] by blast
qed

end
