(* ===== verification/Uns_Filter.thy ===== *)
theory Uns_Filter
  imports Uns_Topic
begin

text \<open>
  MQTT topic filters (\<^verbatim>\<open>plugins/uns/topicfilter.go\<close>) and what a subscription filter names
  (\<^verbatim>\<open>fixedPathPrefix\<close> and \<^verbatim>\<open>FilterContract\<close> of \<^verbatim>\<open>authz.go\<close>). The loop of
  \<^verbatim>\<open>MatchFilter\<close>, which cuts both strings level by level, is shown equal to the matching
  rule of MQTT stated on lists of levels.
\<close>

section \<open>Filters\<close>

text \<open>\<^verbatim>\<open>strings.Cut(s, "/")\<close> with its three results.\<close>

definition cut_level :: "string \<Rightarrow> string \<times> string \<times> bool" where
  "cut_level s = (case cut_at CHR ''/'' s of Some (a, b) \<Rightarrow> (a, b, True) | None \<Rightarrow> (s, '''', False))"

fun valid_levels :: "string list \<Rightarrow> bool" where
  "valid_levels [] = True"
| "valid_levels (l # ls) =
     (if contains_any l ''+#'' \<and> l \<noteq> ''+'' \<and> l \<noteq> ''#'' then False
      else if l = ''#'' \<and> ls \<noteq> [] then False
      else valid_levels ls)"

definition ValidFilter :: "string \<Rightarrow> bool" where
  "ValidFilter f = (if f = '''' then False else valid_levels (split_on CHR ''/'' f))"

function MatchFilter :: "string \<Rightarrow> string \<Rightarrow> bool" where
  "MatchFilter f topic =
     (let (level, rest, more) = cut_level f in
      if level = ''#'' then True
      else let (tlevel, trest, tmore) = cut_level topic in
        if level \<noteq> ''+'' \<and> level \<noteq> tlevel then False
        else if \<not> more \<or> \<not> tmore then more = tmore \<or> (more \<and> rest = ''#'')
        else MatchFilter rest trest)"
  by pat_completeness auto
termination
  by (relation "measure (\<lambda>(f, topic). length f)") (auto simp: cut_level_def split: option.splits)

declare MatchFilter.simps [simp del]

definition isReservedFilter :: "string \<Rightarrow> bool" where
  "isReservedFilter f \<longleftrightarrow> has_prefix f ''$''"

text \<open>The loop of \<^verbatim>\<open>fixedPathPrefix\<close> over the segments from index \<^verbatim>\<open>i\<close> on.\<close>

fun fixed_segments :: "nat \<Rightarrow> string list \<Rightarrow> string list" where
  "fixed_segments i [] = []"
| "fixed_segments i (s # ss) =
     (if s = ''#'' then []
      else if i < 4 then fixed_segments (Suc i) ss
      else if s = ''+'' then []
      else s # fixed_segments (Suc i) ss)"

definition fixedPathPrefix :: "string \<Rightarrow> string \<Rightarrow> string \<times> bool" where
  "fixedPathPrefix rt f =
     (let seg = split_on CHR ''/'' f in
      if hd seg \<noteq> rt \<and> hd seg \<noteq> ''+'' \<and> hd seg \<noteq> ''#'' then ('''', False)
      else (join_with CHR ''/'' (fixed_segments 0 seg), True))"

definition FilterContract :: "string \<Rightarrow> string \<Rightarrow> string \<times> bool" where
  "FilterContract rt f =
     (let seg = split_on CHR ''/'' f in
      if length seg < 3 \<or> (seg ! 0 \<noteq> rt \<and> seg ! 0 \<noteq> ''+'') then ('''', False)
      else if seg ! 1 = ''#'' \<or> seg ! 2 = ''+'' \<or> seg ! 2 = ''#'' then ('''', False)
      else (seg ! 2, True))"

definition SubscriptionPath :: "string \<Rightarrow> string \<Rightarrow> string \<times> bool" where
  "SubscriptionPath rt f = fixedPathPrefix rt f"

section \<open>Matching level by level\<close>

fun mqtt_match :: "string list \<Rightarrow> string list \<Rightarrow> bool" where
  "mqtt_match [] ts \<longleftrightarrow> ts = []"
| "mqtt_match (f # fs) ts \<longleftrightarrow>
     (if f = ''#'' \<and> fs = [] then True
      else case ts of [] \<Rightarrow> False | t # ts' \<Rightarrow> (f = ''+'' \<or> f = t) \<and> mqtt_match fs ts')"

lemma cut_level_split:
  "cut_level s = (a, b, True) \<Longrightarrow> split_on CHR ''/'' s = a # split_on CHR ''/'' b"
  "cut_level s = (a, b, False) \<Longrightarrow> split_on CHR ''/'' s = [a] \<and> b = ''''"
  by (auto simp: cut_level_def split_on_append split: option.splits)

lemma split_hash: "split_on CHR ''/'' s = [''#''] \<longleftrightarrow> s = ''#''"
proof
  assume "split_on CHR ''/'' s = [''#'']"
  then have "join_with CHR ''/'' (split_on CHR ''/'' s) = ''#''" by simp
  then show "s = ''#''" by simp
qed simp

lemma MatchFilter_levels:
  "valid_levels (split_on CHR ''/'' f) \<Longrightarrow>
   MatchFilter f topic = mqtt_match (split_on CHR ''/'' f) (split_on CHR ''/'' topic)"
proof (induction f topic rule: MatchFilter.induct)
  case (1 f topic)
  obtain level rest more where cf: "cut_level f = (level, rest, more)"
    by (cases "cut_level f") auto
  obtain tlevel trest tmore where ct: "cut_level topic = (tlevel, trest, tmore)"
    by (cases "cut_level topic") auto
  have IH: "\<not> (level = ''#'') \<Longrightarrow> \<not> (level \<noteq> ''+'' \<and> level \<noteq> tlevel) \<Longrightarrow> more \<Longrightarrow> tmore \<Longrightarrow>
      valid_levels (split_on CHR ''/'' rest) \<Longrightarrow>
      MatchFilter rest trest = mqtt_match (split_on CHR ''/'' rest) (split_on CHR ''/'' trest)"
    using 1(1) cf ct by auto
  note split_f = cut_level_split [of f level rest] and split_t = cut_level_split [of topic tlevel trest]
  show ?case
  proof (cases more)
    case True
    then have sf: "split_on CHR ''/'' f = level # split_on CHR ''/'' rest"
      using split_f(1) cf by simp
    then have valid: "level \<noteq> ''#''" "valid_levels (split_on CHR ''/'' rest)"
      using 1(2) by (auto split: if_splits)
    show ?thesis
    proof (cases tmore)
      case True
      then have st: "split_on CHR ''/'' topic = tlevel # split_on CHR ''/'' trest"
        using split_t(1) ct by simp
      show ?thesis
        using IH valid \<open>more\<close> True sf st
        by (subst MatchFilter.simps) (auto simp: cf ct)
    next
      case False
      then have st: "split_on CHR ''/'' topic = [tlevel]"
        using split_t(2) ct by simp
      have "mqtt_match (split_on CHR ''/'' rest) [] \<longleftrightarrow> rest = ''#''"
        using split_hash [of rest] by (cases "split_on CHR ''/'' rest") auto
      then show ?thesis
        using valid \<open>more\<close> False sf st
        by (subst MatchFilter.simps) (auto simp: cf ct)
    qed
  next
    case False
    then have sf: "split_on CHR ''/'' f = [level]"
      using split_f(2) cf by simp
    obtain t ts where st: "split_on CHR ''/'' topic = t # ts"
      by (cases "split_on CHR ''/'' topic") auto
    have "t = tlevel \<and> (ts = [] \<longleftrightarrow> \<not> tmore)"
      using split_t ct st by (cases tmore) auto
    then show ?thesis
      using False sf st by (subst MatchFilter.simps) (auto simp: cf ct)
  qed
qed

text \<open>What a matched topic says about the fixed part of the filter.\<close>

lemma match_fixed_segments:
  "mqtt_match fs ts \<Longrightarrow> 4 \<le> i \<Longrightarrow> prefix (fixed_segments i fs) ts"
proof (induction i fs arbitrary: ts rule: fixed_segments.induct)
  case (2 i s ss)
  then show ?case
    by (cases ts) (auto split: if_splits)
qed simp

lemma match_drop_header:
  "mqtt_match fs ts \<Longrightarrow> i \<le> 4 \<Longrightarrow> length ts + i \<ge> 4 \<Longrightarrow>
   prefix (fixed_segments i fs) (drop (4 - i) ts)"
proof (induction i fs arbitrary: ts rule: fixed_segments.induct)
  case (2 i s ss)
  show ?case
  proof (cases "s = ''#''")
    case True
    then show ?thesis by simp
  next
    case hash: False
    with "2.prems"(1) obtain t ts' where ts: "ts = t # ts'" and m: "mqtt_match ss ts'"
      by (cases ts) (auto split: if_splits)
    show ?thesis
    proof (cases "i < 4")
      case True
      have "prefix (fixed_segments (Suc i) ss) (drop (4 - Suc i) ts')"
        using "2.IH"(1) [OF hash True m] "2.prems"(2,3) True ts by simp
      moreover have "drop (4 - i) ts = drop (4 - Suc i) ts'"
        using True ts by (simp add: Suc_diff_Suc drop_Cons')
      ultimately show ?thesis using hash True by simp
    next
      case False
      then have "i = 4" using "2.prems"(2) by simp
      then show ?thesis
        using match_fixed_segments [OF "2.prems"(1), of 4] by simp
    qed
  qed
qed simp

text \<open>C20: \<^verbatim>\<open>MatchFilter\<close> is MQTT's matching rule. On a filter that \<^verbatim>\<open>ValidFilter\<close> accepts, the loop that
  cuts both strings level by level answers as the rule on lists of levels does: equal levels match,
  \<^verbatim>\<open>+\<close> matches one level, a final \<^verbatim>\<open>#\<close> matches the rest and its parent.\<close>

theorem MatchFilter_is_mqtt:
  assumes "ValidFilter f"
  shows "MatchFilter f topic = mqtt_match (split_on CHR ''/'' f) (split_on CHR ''/'' topic)"
  using assms MatchFilter_levels by (simp add: ValidFilter_def split: if_splits)

theorem MatchFilter_is_mqtt_witness:
  "MatchFilter ''a/+/#'' ''a/b'' \<and> \<not> MatchFilter ''a/+/#'' ''a''"
proof -
  have v: "ValidFilter ''a/+/#''" by code_simp
  have "mqtt_match (split_on CHR ''/'' ''a/+/#'') (split_on CHR ''/'' ''a/b'')"
    "\<not> mqtt_match (split_on CHR ''/'' ''a/+/#'') (split_on CHR ''/'' ''a'')" by code_simp+
  then show ?thesis
    using MatchFilter_is_mqtt [OF v, of "''a/b''"] MatchFilter_is_mqtt [OF v, of "''a''"] by blast
qed

end
