(* ===== verification/Colca_Json.thy ===== *)
theory Colca_Json
  imports Colca_Prelude
begin

text \<open>
  What the sources use of Go's \<^verbatim>\<open>encoding/json\<close> and \<^verbatim>\<open>unicode/utf8\<close>: decoding of a byte
  string into a JSON value, and the rules by which \<^verbatim>\<open>json.Unmarshal\<close> fills a map or the
  fields of a struct from it (a key matches a field up to ASCII case, a later key overwrites
  an earlier one, \<^verbatim>\<open>null\<close> leaves a field alone, a value of another type is an error).
  A number is kept as its literal, like \<^verbatim>\<open>json.Number\<close>; where Go reads it as a
  \<^verbatim>\<open>float64\<close> the model reads the exact decimal, and refuses literals beyond the largest
  \<^verbatim>\<open>float64\<close> as Go does.
\<close>

section \<open>UTF-8\<close>

definition byte :: "char \<Rightarrow> nat" where "byte c = of_char c"

definition cont_in :: "nat \<Rightarrow> nat \<Rightarrow> char \<Rightarrow> bool" where
  "cont_in lo hi c \<longleftrightarrow> lo \<le> byte c \<and> byte c \<le> hi"

text \<open>Width of the rune a string starts with, 0 for an invalid encoding.\<close>

fun rune_width :: "string \<Rightarrow> nat" where
  "rune_width [] = 0"
| "rune_width (a # s) =
     (let x = byte a in
      if x < 128 then 1
      else if 194 \<le> x \<and> x \<le> 223 then
        (case s of b # _ \<Rightarrow> if cont_in 128 191 b then 2 else 0 | _ \<Rightarrow> 0)
      else if 224 \<le> x \<and> x \<le> 239 then
        (case s of b # c # _ \<Rightarrow>
           if cont_in (if x = 224 then 160 else 128) (if x = 237 then 159 else 191) b
              \<and> cont_in 128 191 c then 3 else 0 | _ \<Rightarrow> 0)
      else if 240 \<le> x \<and> x \<le> 244 then
        (case s of b # c # d # _ \<Rightarrow>
           if cont_in (if x = 240 then 144 else 128) (if x = 244 then 143 else 191) b
              \<and> cont_in 128 191 c \<and> cont_in 128 191 d then 4 else 0 | _ \<Rightarrow> 0)
      else 0)"

text \<open>\<^verbatim>\<open>for at := range s\<close>: the byte positions at which runes start.\<close>

function rune_starts :: "nat \<Rightarrow> string \<Rightarrow> nat list" where
  "rune_starts at s =
     (if s = [] then []
      else at # rune_starts (at + max 1 (rune_width s)) (drop (max 1 (rune_width s)) s))"
  by pat_completeness auto
termination
  by (relation "measure (\<lambda>(at, s). length s)") auto

declare rune_starts.simps [simp del]

definition rune_count :: "string \<Rightarrow> nat" where
  "rune_count s = length (rune_starts 0 s)"

definition utf8_encode :: "nat \<Rightarrow> string" where
  "utf8_encode r =
     (if r < 128 then [char_of r]
      else if r < 2048 then [char_of (192 + r div 64), char_of (128 + r mod 64)]
      else if r < 65536 then
        [char_of (224 + r div 4096), char_of (128 + r div 64 mod 64), char_of (128 + r mod 64)]
      else [char_of (240 + r div 262144), char_of (128 + r div 4096 mod 64),
            char_of (128 + r div 64 mod 64), char_of (128 + r mod 64)])"

definition replacement :: string where "replacement = utf8_encode 65533"

section \<open>Values and their text\<close>

datatype json = JNull | JBool bool | JNum string | JStr string | JArr "json list"
  | JObj "(string \<times> json) list"

definition json_space :: "char \<Rightarrow> bool" where
  "json_space c \<longleftrightarrow> byte c = 32 \<or> byte c = 9 \<or> byte c = 10 \<or> byte c = 13"

definition skip_space :: "string \<Rightarrow> string" where "skip_space s = dropWhile json_space s"

definition is_digit :: "char \<Rightarrow> bool" where "is_digit c \<longleftrightarrow> 48 \<le> byte c \<and> byte c \<le> 57"

definition hex_digit :: "char \<Rightarrow> nat option" where
  "hex_digit c =
     (let x = byte c in
      if 48 \<le> x \<and> x \<le> 57 then Some (x - 48)
      else if 97 \<le> x \<and> x \<le> 102 then Some (x - 87)
      else if 65 \<le> x \<and> x \<le> 70 then Some (x - 55)
      else None)"

fun hex4 :: "string \<Rightarrow> nat option" where
  "hex4 (a # b # c # d # _) =
     (case (hex_digit a, hex_digit b, hex_digit c, hex_digit d) of
        (Some w, Some x, Some y, Some z) \<Rightarrow> Some (4096 * w + 256 * x + 16 * y + z)
      | _ \<Rightarrow> None)"
| "hex4 _ = None"

definition json_escape :: "char \<Rightarrow> char option" where
  "json_escape c =
     (let x = byte c in
      if x = 34 \<or> x = 92 \<or> x = 47 then Some c
      else if x = 98 then Some (char_of (8::nat))
      else if x = 102 then Some (char_of (12::nat))
      else if x = 110 then Some (char_of (10::nat))
      else if x = 114 then Some (char_of (13::nat))
      else if x = 116 then Some (char_of (9::nat))
      else None)"

definition prepend :: "string \<Rightarrow> (string \<times> string) option \<Rightarrow> (string \<times> string) option" where
  "prepend p r = (case r of None \<Rightarrow> None | Some (a, b) \<Rightarrow> Some (p @ a, b))"

text \<open>The low half of a surrogate pair, if the text goes on with one.\<close>

definition low_surrogate :: "string \<Rightarrow> nat option" where
  "low_surrogate s =
     (case s of
        a # b # r \<Rightarrow>
          if byte a = 92 \<and> b = CHR ''u'' then
            (case hex4 r of
               Some l \<Rightarrow> if 56320 \<le> l \<and> l \<le> 57343 then Some l else None
             | None \<Rightarrow> None)
          else None
      | _ \<Rightarrow> None)"

text \<open>The rest of a string literal after its opening quote.\<close>

function json_string :: "string \<Rightarrow> (string \<times> string) option" where
  "json_string s =
     (case s of
        [] \<Rightarrow> None
      | c # cs \<Rightarrow>
          if byte c = 34 then Some ([], cs)
          else if byte c = 92 then
            (case cs of
               [] \<Rightarrow> None
             | e # es \<Rightarrow>
                 if e = CHR ''u'' then
                   (case hex4 es of
                      None \<Rightarrow> None
                    | Some r \<Rightarrow>
                        if 55296 \<le> r \<and> r \<le> 57343 then
                          (case low_surrogate (drop 4 es) of
                             Some l \<Rightarrow>
                               if r \<le> 56319
                               then prepend (utf8_encode (65536 + 1024 * (r - 55296) + (l - 56320)))
                                      (json_string (drop 10 es))
                               else prepend replacement (json_string (drop 4 es))
                           | None \<Rightarrow> prepend replacement (json_string (drop 4 es)))
                        else prepend (utf8_encode r) (json_string (drop 4 es)))
                 else (case json_escape e of
                         None \<Rightarrow> None
                       | Some x \<Rightarrow> prepend [x] (json_string es)))
          else if byte c < 32 then None
          else if rune_width s = 0 then prepend replacement (json_string cs)
          else prepend (take (rune_width s) s) (json_string (drop (rune_width s) s)))"
  by pat_completeness auto
termination
  by (relation "measure length") auto

declare json_string.simps [simp del]

text \<open>A number literal and what follows it.\<close>

definition json_int_part :: "string \<Rightarrow> (string \<times> string) option" where
  "json_int_part s =
     (case s of
        [] \<Rightarrow> None
      | c # cs \<Rightarrow>
          if c = CHR ''0'' then Some ([c], cs)
          else if is_digit c then Some (takeWhile is_digit s, dropWhile is_digit s)
          else None)"

definition json_digits :: "string \<Rightarrow> string \<Rightarrow> (string \<times> string) option" where
  "json_digits lead s =
     (if takeWhile is_digit s = [] then None
      else Some (lead @ takeWhile is_digit s, dropWhile is_digit s))"

definition json_frac :: "string \<Rightarrow> (string \<times> string) option" where
  "json_frac s =
     (case s of
        c # cs \<Rightarrow> if c = CHR ''.'' then json_digits [c] cs else Some ([], s)
      | [] \<Rightarrow> Some ([], s))"

definition json_exp :: "string \<Rightarrow> (string \<times> string) option" where
  "json_exp s =
     (case s of
        c # cs \<Rightarrow>
          if c = CHR ''e'' \<or> c = CHR ''E'' then
            (case cs of
               d # ds \<Rightarrow> if d = CHR ''+'' \<or> d = CHR ''-'' then json_digits [c, d] ds
                        else json_digits [c] cs
             | [] \<Rightarrow> None)
          else Some ([], s)
      | [] \<Rightarrow> Some ([], s))"

definition json_number :: "string \<Rightarrow> (string \<times> string) option" where
  "json_number s =
     (let (sg, s1) = (case s of c # cs \<Rightarrow> if c = CHR ''-'' then ([c], cs) else ([], s) | [] \<Rightarrow> ([], s)) in
      case json_int_part s1 of
        None \<Rightarrow> None
      | Some (i, s2) \<Rightarrow>
          (case json_frac s2 of
             None \<Rightarrow> None
           | Some (f, s3) \<Rightarrow>
               (case json_exp s3 of
                  None \<Rightarrow> None
                | Some (e, s4) \<Rightarrow> Some (sg @ i @ f @ e, s4))))"

section \<open>The parser\<close>

text \<open>
  \<^verbatim>\<open>d\<close> is how many more arrays and objects may be opened; \<^verbatim>\<open>encoding/json\<close> allows 10000.
  The comparisons of lengths hold of every text the other functions leave; they make the
  recursion's measure visible.
\<close>

function (sequential)
  json_value :: "nat \<Rightarrow> string \<Rightarrow> (json \<times> string) option" and
  json_elems :: "nat \<Rightarrow> string \<Rightarrow> (json list \<times> string) option" and
  json_members :: "nat \<Rightarrow> string \<Rightarrow> ((string \<times> json) list \<times> string) option" where
  "json_value d s =
     (case skip_space s of
        [] \<Rightarrow> None
      | c # cs \<Rightarrow>
          if length s < length (c # cs) then None
          else if byte c = 34 then (case json_string cs of None \<Rightarrow> None | Some (x, r) \<Rightarrow> Some (JStr x, r))
          else if c = CHR ''['' then
            (if d = 0 then None
             else case skip_space cs of
               [] \<Rightarrow> None
             | e # r \<Rightarrow> if e = CHR '']'' then Some (JArr [], r)
                       else (case json_elems (d - 1) cs of
                               None \<Rightarrow> None | Some (vs, r) \<Rightarrow> Some (JArr vs, r)))
          else if c = CHR ''{'' then
            (if d = 0 then None
             else case skip_space cs of
               [] \<Rightarrow> None
             | e # r \<Rightarrow> if e = CHR ''}'' then Some (JObj [], r)
                       else (case json_members (d - 1) cs of
                               None \<Rightarrow> None | Some (ms, r) \<Rightarrow> Some (JObj ms, r)))
          else (case cut_prefix (c # cs) ''true'' of
                  Some r \<Rightarrow> Some (JBool True, r)
                | None \<Rightarrow>
                    (case cut_prefix (c # cs) ''false'' of
                       Some r \<Rightarrow> Some (JBool False, r)
                     | None \<Rightarrow>
                         (case cut_prefix (c # cs) ''null'' of
                            Some r \<Rightarrow> Some (JNull, r)
                          | None \<Rightarrow>
                              (case json_number (c # cs) of
                                 None \<Rightarrow> None
                               | Some (n, r) \<Rightarrow> Some (JNum n, r))))))"
| "json_elems d s =
     (case json_value d s of
        None \<Rightarrow> None
      | Some (v, r) \<Rightarrow>
          (case skip_space r of
             [] \<Rightarrow> None
           | c # r' \<Rightarrow>
               if c = CHR '']'' then Some ([v], r')
               else if c = CHR '','' \<and> length r' < length s then
                 (case json_elems d r' of None \<Rightarrow> None | Some (vs, t) \<Rightarrow> Some (v # vs, t))
               else None))"
| "json_members d s =
     (case skip_space s of
        [] \<Rightarrow> None
      | q # r \<Rightarrow>
          if byte q \<noteq> 34 then None
          else (case json_string r of
                  None \<Rightarrow> None
                | Some (k, r1) \<Rightarrow>
                    (case skip_space r1 of
                       [] \<Rightarrow> None
                     | c # r2 \<Rightarrow>
                         if c = CHR '':'' \<and> length r2 < length s then
                           (case json_value d r2 of
                              None \<Rightarrow> None
                            | Some (v, r3) \<Rightarrow>
                                (case skip_space r3 of
                                   [] \<Rightarrow> None
                                 | c' # r4 \<Rightarrow>
                                     if c' = CHR ''}'' then Some ([(k, v)], r4)
                                     else if c' = CHR '','' \<and> length r4 < length s then
                                       (case json_members d r4 of
                                          None \<Rightarrow> None | Some (ms, t) \<Rightarrow> Some ((k, v) # ms, t))
                                     else None))
                         else None)))"
  by pat_completeness auto
termination
  by (relation "measure (\<lambda>x. case x of Inl (d, s) \<Rightarrow> 2 * length s
        | Inr (Inl (d, s)) \<Rightarrow> 2 * length s + 1 | Inr (Inr (d, s)) \<Rightarrow> 2 * length s + 1)") auto

declare json_value.simps [simp del] json_elems.simps [simp del] json_members.simps [simp del]

definition json_parse :: "bytes \<Rightarrow> json option" where
  "json_parse s =
     (case json_value 10000 s of
        None \<Rightarrow> None
      | Some (v, r) \<Rightarrow> if skip_space r = [] then Some v else None)"

section \<open>Numbers\<close>

definition digits_val :: "string \<Rightarrow> nat" where
  "digits_val s = foldl (\<lambda>n c. 10 * n + (byte c - 48)) 0 s"

text \<open>A literal as mantissa and decimal exponent.\<close>

definition num_parts :: "string \<Rightarrow> int \<times> int" where
  "num_parts lit =
     (let (sg, s1) = (case lit of c # cs \<Rightarrow> if c = CHR ''-'' then (-1, cs) else (1::int, lit) | [] \<Rightarrow> (1, lit));
          i = takeWhile is_digit s1; s2 = dropWhile is_digit s1;
          (f, s3) = (case s2 of c # cs \<Rightarrow> if c = CHR ''.'' then (takeWhile is_digit cs, dropWhile is_digit cs)
                                          else ([], s2) | [] \<Rightarrow> ([], s2));
          e = (case s3 of
                 [] \<Rightarrow> 0
               | _ # cs \<Rightarrow>
                   (case cs of
                      [] \<Rightarrow> 0
                    | d # ds \<Rightarrow> if d = CHR ''-'' then - int (digits_val ds)
                               else if d = CHR ''+'' then int (digits_val ds)
                               else int (digits_val cs)))
      in (sg * int (digits_val (i @ f)), e - int (length f)))"

text \<open>\<^verbatim>\<open>strconv.ParseFloat\<close> reports a range error from this value on.\<close>

definition float_overflow :: int where "float_overflow = (2 ^ 54 - 1) * 2 ^ 970"

definition is_float :: "string \<Rightarrow> bool" where
  "is_float lit =
     (let (m, e) = num_parts lit in
      if 0 \<le> e then \<bar>m\<bar> * 10 ^ nat e < float_overflow
      else \<bar>m\<bar> < float_overflow * 10 ^ nat (- e))"

text \<open>An integer literal, exactly.\<close>

definition num_trunc :: "string \<Rightarrow> int" where
  "num_trunc lit =
     (let (m, e) = num_parts lit in
      if 0 \<le> e then m * 10 ^ nat e else sgn m * (\<bar>m\<bar> div 10 ^ nat (- e)))"

text \<open>The \<^verbatim>\<open>float64\<close> nearest to a literal, truncated towards zero: the mantissa is rounded to 53
  bits, ties to even. Below one bit of the smallest normal number rounding cannot reach the
  integer part, so the subnormal range needs no case of its own.\<close>

fun bit_length :: "nat \<Rightarrow> nat" where
  "bit_length n = (if n = 0 then 0 else Suc (bit_length (n div 2)))"

declare bit_length.simps [simp del]

definition round_div :: "int \<Rightarrow> int \<Rightarrow> int" where
  "round_div n d =
     (let q = n div d; r = n mod d in
      if 2 * r < d \<or> (2 * r = d \<and> even q) then q else q + 1)"

definition float_int :: "string \<Rightarrow> int" where
  "float_int lit =
     (let (m, e) = num_parts lit;
          n = \<bar>m\<bar> * 10 ^ nat e; d = 10 ^ nat (- e);
          k0 = int (bit_length (nat n)) - int (bit_length (nat d)) - 53;
          k = (if n * 2 ^ nat (- k0) < 2 ^ 53 * d * 2 ^ nat k0 then k0 else k0 + 1);
          q = round_div (n * 2 ^ nat (- k)) (d * 2 ^ nat k)
      in sgn m * (if 0 \<le> k then q * 2 ^ nat k else q div 2 ^ nat (- k)))"

text \<open>\<^verbatim>\<open>strconv.ParseInt(lit, 10, 64)\<close> of a number literal: integers of 64 bits only.\<close>

definition num_int64 :: "string \<Rightarrow> int option" where
  "num_int64 lit =
     (let ds = (case lit of c # cs \<Rightarrow> if c = CHR ''-'' then cs else lit | [] \<Rightarrow> lit) in
      if list_all is_digit ds \<and> - (2 ^ 63) \<le> num_trunc lit \<and> num_trunc lit < 2 ^ 63
      then Some (num_trunc lit) else None)"

section \<open>Unmarshal\<close>

text \<open>Numbers of the decoded value beyond \<^verbatim>\<open>float64\<close> fail the decoding into \<^verbatim>\<open>any\<close>.\<close>

fun floats_ok :: "json \<Rightarrow> bool" where
  "floats_ok (JNum lit) = is_float lit"
| "floats_ok (JArr vs) = list_all floats_ok vs"
| "floats_ok (JObj ms) = list_all (\<lambda>m. floats_ok (snd m)) ms"
| "floats_ok _ = True"

text \<open>\<^verbatim>\<open>var m map[string]any; json.Unmarshal(payload, &m)\<close>: \<^term>\<open>None\<close> is an error,
  otherwise the value per key. \<^verbatim>\<open>null\<close> leaves the nil map.\<close>

definition unmarshal_map :: "bytes \<Rightarrow> (string \<rightharpoonup> json) option" where
  "unmarshal_map payload =
     (case json_parse payload of
        Some (JObj ms) \<Rightarrow> if floats_ok (JObj ms) then Some (map_of (rev ms)) else None
      | Some JNull \<Rightarrow> Some Map.empty
      | _ \<Rightarrow> None)"

text \<open>The members of the document a struct is decoded from: \<^verbatim>\<open>null\<close> sets no field.\<close>

definition unmarshal_doc :: "bytes \<Rightarrow> (string \<times> json) list option" where
  "unmarshal_doc payload =
     (case json_parse payload of
        Some (JObj ms) \<Rightarrow> Some ms
      | Some JNull \<Rightarrow> Some []
      | _ \<Rightarrow> None)"

definition fold_char :: "char \<Rightarrow> char" where
  "fold_char c = (if 97 \<le> byte c \<and> byte c \<le> 122 then char_of (byte c - 32) else c)"

definition field_values :: "string \<Rightarrow> (string \<times> json) list \<Rightarrow> json list" where
  "field_values k doc =
     filter (\<lambda>v. v \<noteq> JNull) (map snd (filter (\<lambda>m. map fold_char (fst m) = map fold_char k) doc))"

text \<open>A field of type \<^verbatim>\<open>*T\<close>: \<^term>\<open>None\<close> is a type error, \<^term>\<open>Some None\<close> the nil pointer.\<close>

definition field_ptr :: "(json \<Rightarrow> 'a option) \<Rightarrow> string \<Rightarrow> (string \<times> json) list \<Rightarrow> 'a option option" where
  "field_ptr conv k doc =
     (let vs = field_values k doc in
      if list_all (\<lambda>v. conv v \<noteq> None) vs
      then Some (if vs = [] then None else conv (last vs)) else None)"

definition field :: "(json \<Rightarrow> 'a option) \<Rightarrow> 'a \<Rightarrow> string \<Rightarrow> (string \<times> json) list \<Rightarrow> 'a option" where
  "field conv zero k doc =
     (case field_ptr conv k doc of None \<Rightarrow> None | Some None \<Rightarrow> Some zero | Some (Some x) \<Rightarrow> Some x)"

fun as_string :: "json \<Rightarrow> string option" where
  "as_string (JStr s) = Some s"
| "as_string _ = None"

fun as_bool :: "json \<Rightarrow> bool option" where
  "as_bool (JBool b) = Some b"
| "as_bool _ = None"

fun as_float :: "json \<Rightarrow> string option" where
  "as_float (JNum lit) = (if is_float lit then Some lit else None)"
| "as_float _ = None"

fun as_int64 :: "json \<Rightarrow> int option" where
  "as_int64 (JNum lit) = num_int64 lit"
| "as_int64 _ = None"

fun as_strings :: "json \<Rightarrow> string list option" where
  "as_strings (JArr vs) =
     those (map (\<lambda>v. case v of JStr s \<Rightarrow> Some s | JNull \<Rightarrow> Some [] | _ \<Rightarrow> None) vs)"
| "as_strings _ = None"

end
