(* ===== verification/Uns_Scope.thy ===== *)
theory Uns_Scope
  imports Uns_Topic Colca_Json
begin

text \<open>
  Where elements are: the element index of a node (\<^verbatim>\<open>plugins/uns/elements.go\<close>), its
  ancestry (\<^verbatim>\<open>ancestry.go\<close>), the group definitions it holds (\<^verbatim>\<open>groups.go\<close>), and the
  scope the engine builds of the first two (\<^verbatim>\<open>internal/engine/engine.go\<close>). The port
  \<^verbatim>\<open>EntityStore\<close> appears as the list of records a scan of it returns.
\<close>

section \<open>Records of the entity store\<close>

record KVRecord =
  kTopic :: string
  kPath :: string
  kNodeID :: string
  kPayload :: bytes
  kOffset :: nat
  kOriginOffset :: nat

record StateRecord =
  sTopic :: string
  sPayload :: bytes

section \<open>The element index\<close>

text \<open>The id of a \<^verbatim>\<open>placedElement\<close> payload; \<^term>\<open>None\<close> when it does not decode.\<close>

definition placedElement_id :: "bytes \<Rightarrow> string option" where
  "placedElement_id payload =
     (case unmarshal_doc payload of
        None \<Rightarrow> None
      | Some doc \<Rightarrow>
          (case (field as_string '''' ''id'' doc, field as_string '''' ''name'' doc,
                 field as_string '''' ''parent_id'' doc) of
             (Some i, Some _, Some _) \<Rightarrow> Some i
           | _ \<Rightarrow> None))"

record ElementIndex =
  loaded :: bool
  byID :: "string \<rightharpoonup> string"
  byPath :: "string \<rightharpoonup> string"

definition NewElementIndex :: ElementIndex where
  "NewElementIndex = \<lparr>loaded = False, byID = Map.empty, byPath = Map.empty\<rparr>"

definition apply_element :: "string \<Rightarrow> bytes \<Rightarrow> ElementIndex \<Rightarrow> ElementIndex" where
  "apply_element path payload x =
     (let x1 = (case byPath x path of
                  None \<Rightarrow> x
                | Some old \<Rightarrow>
                    x\<lparr>byID := (if byID x old = Some path then (byID x)(old := None) else byID x),
                      byPath := (byPath x)(path := None)\<rparr>) in
      if payload = [] then x1
      else case placedElement_id payload of
        None \<Rightarrow> x1
      | Some i \<Rightarrow> if i = '''' then x1
                  else x1\<lparr>byID := (byID x1)(i \<mapsto> path), byPath := (byPath x1)(path \<mapsto> i)\<rparr>)"

definition Observe :: "string \<Rightarrow> string \<Rightarrow> bytes \<Rightarrow> ElementIndex \<Rightarrow> ElementIndex" where
  "Observe contract topic payload x =
     (if contract \<noteq> ''_SystemElement'' then x
      else case Parse topic of
        Inl _ \<Rightarrow> x
      | Inr p \<Rightarrow> if \<not> loaded x then x else apply_element (pPath p) payload x)"

text \<open>\<^verbatim>\<open>recs\<close> is what \<^verbatim>\<open>KVScanAll("_SystemElement")\<close> returns.\<close>

definition load_index :: "KVRecord list \<Rightarrow> ElementIndex \<Rightarrow> ElementIndex" where
  "load_index recs x =
     (if loaded x then x
      else (fold (\<lambda>rec x. apply_element (kPath rec) (kPayload rec) x) recs x)\<lparr>loaded := True\<rparr>)"

definition PathOf :: "KVRecord list \<Rightarrow> string \<Rightarrow> ElementIndex \<Rightarrow> string option \<times> ElementIndex" where
  "PathOf recs elementID x =
     (if elementID = '''' then (None, x)
      else let x' = load_index recs x in (byID x' elementID, x'))"

definition IDAt :: "KVRecord list \<Rightarrow> string \<Rightarrow> ElementIndex \<Rightarrow> string option \<times> ElementIndex" where
  "IDAt recs path x = (let x' = load_index recs x in (byPath x' path, x'))"

definition CoversPath :: "KVRecord list \<Rightarrow> string \<Rightarrow> string \<Rightarrow> ElementIndex \<Rightarrow> bool \<times> ElementIndex" where
  "CoversPath recs elementID topicPath x =
     (case PathOf recs elementID x of
        (None, x') \<Rightarrow> (False, x')
      | (Some base, x') \<Rightarrow> (topicPath = base \<or> has_prefix topicPath (base @ ''/''), x'))"

section \<open>Ancestry\<close>

record Ancestor =
  aElement :: string
  aName :: string

type_synonym Ancestry = "Ancestor list"

definition Ancestry_Prefix :: "Ancestry \<Rightarrow> string" where
  "Ancestry_Prefix a = join_with CHR ''/'' (map aName a)"

definition Ancestry_Covers :: "Ancestry \<Rightarrow> string \<Rightarrow> bool" where
  "Ancestry_Covers a elementID =
     (if elementID = '''' then False else list_ex (\<lambda>step. aElement step = elementID) a)"

definition Ancestry_Binds :: "Ancestry \<Rightarrow> string \<Rightarrow> bool" where
  "Ancestry_Binds a elementID \<longleftrightarrow>
     elementID \<noteq> '''' \<and> length a > 0 \<and> aElement (a ! (length a - 1)) = elementID"

text \<open>The loop of \<^verbatim>\<open>Extend\<close>: \<^verbatim>\<open>idAt\<close> is the port \<^verbatim>\<open>Placements\<close>, an absent id is the
  empty string.\<close>

fun extend_segments ::
    "(string \<Rightarrow> string option) \<Rightarrow> string \<Rightarrow> string list \<Rightarrow> Ancestry \<Rightarrow> Ancestry" where
  "extend_segments idAt local [] out = out"
| "extend_segments idAt local (seg # segs) out =
     (if seg = '''' then extend_segments idAt local segs out
      else let local' = (if local = '''' then seg else local @ ''/'' @ seg);
               i = (case idAt local' of Some i \<Rightarrow> i | None \<Rightarrow> '''')
           in extend_segments idAt local' segs (out @ [\<lparr>aElement = i, aName = seg\<rparr>]))"

definition Ancestry_Extend :: "Ancestry \<Rightarrow> (string \<Rightarrow> string option) \<Rightarrow> string \<Rightarrow> Ancestry" where
  "Ancestry_Extend a idAt mount = extend_segments idAt '''' (split_on CHR ''/'' mount) a"

section \<open>The scope of a node\<close>

record Scope =
  scPathOf :: "string \<Rightarrow> string option"
  scReaches :: "string \<Rightarrow> bool"
  scBinds :: "string \<Rightarrow> bool"

text \<open>\<^verbatim>\<open>Engine.Scope()\<close> over the records the node holds, its index and, when the node has
  learned it, its ancestry.\<close>

definition engine_scope :: "KVRecord list \<Rightarrow> ElementIndex \<Rightarrow> Ancestry option \<Rightarrow> Scope" where
  "engine_scope recs x anc =
     \<lparr>scPathOf = (\<lambda>e. fst (PathOf recs e x)),
      scReaches = (\<lambda>e. case anc of None \<Rightarrow> False | Some a \<Rightarrow> Ancestry_Covers a e),
      scBinds = (\<lambda>e. case anc of None \<Rightarrow> False | Some a \<Rightarrow> Ancestry_Binds a e)\<rparr>"

section \<open>Groups\<close>

datatype group_problem = EmptyGroupID | UnknownGroup string | ClaimedGroup string "string list"
  | GroupGrant string

definition maxGroupNotices :: nat where "maxGroupNotices = 4096"

text \<open>\<^verbatim>\<open>GroupNotices.First\<close> over the ids seen so far.\<close>

definition GroupNotices_First :: "string \<Rightarrow> string list \<Rightarrow> bool \<times> string list" where
  "GroupNotices_First i seen =
     (if i \<in> set seen then (False, seen)
      else if length seen \<ge> maxGroupNotices then (False, seen)
      else (True, i # seen))"

record group =
  gID :: string
  gGrants :: "string list"

definition decode_group :: "bytes \<Rightarrow> group option" where
  "decode_group payload =
     (case unmarshal_doc payload of
        None \<Rightarrow> None
      | Some doc \<Rightarrow>
          (case (field as_string '''' ''id'' doc, field as_string '''' ''name'' doc,
                 field as_strings [] ''grants'' doc) of
             (Some i, Some _, Some gs) \<Rightarrow> Some \<lparr>gID = i, gGrants = gs\<rparr>
           | _ \<Rightarrow> None))"

text \<open>The records that claim an id, in scan order; \<^verbatim>\<open>recs\<close> is \<^verbatim>\<open>KVScanAll("_Group")\<close> and
  \<^verbatim>\<open>author\<close> the authority set by \<^verbatim>\<open>WithAuthority\<close>, empty for none.\<close>

definition group_claims :: "KVRecord list \<Rightarrow> string \<Rightarrow> string \<Rightarrow> (string \<times> group) list" where
  "group_claims recs author i =
     List.map_filter (\<lambda>rec.
       if kPath rec \<noteq> i \<or> (author \<noteq> '''' \<and> kNodeID rec \<noteq> author) then None
       else case decode_group (kPayload rec) of
         None \<Rightarrow> None
       | Some g \<Rightarrow> if gID g \<noteq> i then None else Some (kNodeID rec, g)) recs"

definition GrantsOf :: "KVRecord list \<Rightarrow> string \<Rightarrow> string \<Rightarrow> group_problem + string list" where
  "GrantsOf recs author i =
     (if i = '''' then Inl EmptyGroupID
      else case group_claims recs author i of
        [] \<Rightarrow> Inl (UnknownGroup i)
      | [(_, g)] \<Rightarrow> Inr (gGrants g)
      | found \<Rightarrow> Inl (ClaimedGroup i (sort (map fst found))))"

text \<open>The inner loop of \<^verbatim>\<open>GrantsFor\<close>: \<^verbatim>\<open>seen\<close> holds exactly the grants collected so far.\<close>

definition add_grants :: "string list \<Rightarrow> string list \<Rightarrow> string list" where
  "add_grants got grants =
     fold (\<lambda>g acc. if g \<in> set acc then acc else acc @ [g]) got grants"

fun grants_for :: "KVRecord list \<Rightarrow> string \<Rightarrow> string list \<Rightarrow> string list \<Rightarrow> group_problem list
    \<Rightarrow> string list \<times> group_problem list" where
  "grants_for recs author [] grants problems = (grants, problems)"
| "grants_for recs author (i # ids) grants problems =
     (case GrantsOf recs author i of
        Inl e \<Rightarrow> grants_for recs author ids grants (problems @ [e])
      | Inr got \<Rightarrow> grants_for recs author ids (add_grants got grants) problems)"

definition GrantsFor :: "KVRecord list \<Rightarrow> string \<Rightarrow> string list \<Rightarrow> string list \<times> group_problem list" where
  "GrantsFor recs author ids = grants_for recs author ids [] []"

section \<open>Properties of the element index\<close>

text \<open>The index never resolves an id to a position another element holds.\<close>

definition index_ok :: "ElementIndex \<Rightarrow> bool" where
  "index_ok x \<longleftrightarrow>
     (\<forall>i p. byID x i = Some p \<longrightarrow> byPath x p = Some i) \<and> byID x '''' = None"

definition element_at :: "bytes \<Rightarrow> string option" where
  "element_at payload =
     (if payload = [] then None
      else case placedElement_id payload of
        None \<Rightarrow> None | Some i \<Rightarrow> if i = '''' then None else Some i)"

lemma apply_element_byPath:
  "byPath (apply_element path payload x) = (byPath x)(path := element_at payload)"
  by (auto simp: apply_element_def element_at_def Let_def fun_eq_iff split: option.splits)

lemma apply_element_byID:
  assumes "index_ok x"
  shows "byID (apply_element path payload x) i =
     (if element_at payload = Some i then Some path
      else if byID x i = Some path then None else byID x i)"
  using assms
  by (auto simp: apply_element_def element_at_def index_ok_def Let_def split: option.splits)
    (metis option.inject)+

lemma apply_element_ok:
  assumes "index_ok x"
  shows "index_ok (apply_element path payload x)"
proof -
  have "byPath (apply_element path payload x) p = Some i"
    if "byID (apply_element path payload x) i = Some p" for i p
    using that assms
    by (auto simp: apply_element_byID [OF assms] apply_element_byPath index_ok_def split: if_splits)
  moreover have "byID (apply_element path payload x) '''' = None"
    using assms by (auto simp: apply_element_byID [OF assms] index_ok_def element_at_def split: option.splits if_splits)
  ultimately show ?thesis by (simp add: index_ok_def)
qed

lemma index_ok_new [simp]: "index_ok NewElementIndex"
  by (simp add: index_ok_def NewElementIndex_def)

text \<open>The index after a list of writes: each position holds what its last write names.\<close>

definition apply_all :: "(string \<times> bytes) list \<Rightarrow> ElementIndex \<Rightarrow> ElementIndex" where
  "apply_all ws x = fold (\<lambda>(path, payload). apply_element path payload) ws x"

lemma apply_all_ok: "index_ok x \<Longrightarrow> index_ok (apply_all ws x)"
  unfolding apply_all_def
  by (induction ws arbitrary: x) (auto intro: apply_element_ok)

lemma apply_all_byPath:
  "byPath (apply_all ws x) p =
     (case map_of (rev ws) p of Some payload \<Rightarrow> element_at payload | None \<Rightarrow> byPath x p)"
proof (induction ws rule: rev_induct)
  case (snoc w ws)
  obtain path payload where w: "w = (path, payload)" by (cases w)
  have "apply_all (ws @ [w]) x = apply_element path payload (apply_all ws x)"
    by (simp add: apply_all_def w)
  then show ?case
    using snoc.IH by (simp add: apply_element_byPath w)
qed (simp add: apply_all_def)

lemma load_index_eq:
  "\<not> loaded x \<Longrightarrow>
   load_index recs x = (apply_all (map (\<lambda>r. (kPath r, kPayload r)) recs) x)\<lparr>loaded := True\<rparr>"
  by (simp add: load_index_def apply_all_def fold_map comp_def)

lemma index_ok_loaded [simp]: "index_ok (x\<lparr>loaded := b\<rparr>) = index_ok x"
  by (simp add: index_ok_def)

lemma load_index_ok: "index_ok x \<Longrightarrow> index_ok (load_index recs x)"
  by (cases "loaded x") (auto simp: load_index_eq apply_all_ok, simp add: load_index_def)

lemma Observe_ok: "index_ok x \<Longrightarrow> index_ok (Observe contract topic payload x)"
  by (auto simp: Observe_def apply_element_ok split: sum.splits)

section \<open>Properties of the ancestry\<close>

lemma extend_segments_eq:
  "\<exists>ext. extend_segments idAt local segs out = out @ ext \<and>
     map aName ext = filter (\<lambda>s. s \<noteq> '''') segs"
proof (induction segs arbitrary: local out)
  case (Cons seg segs)
  show ?case
  proof (cases "seg = ''''")
    case False
    define loc where "loc = (if local = '''' then seg else local @ ''/'' @ seg)"
    define step where
      "step = \<lparr>aElement = (case idAt loc of Some i \<Rightarrow> i | None \<Rightarrow> ''''), aName = seg\<rparr>"
    obtain ext where "extend_segments idAt loc segs (out @ [step]) = (out @ [step]) @ ext"
      "map aName ext = filter (\<lambda>s. s \<noteq> '''') segs" using Cons.IH by blast
    then show ?thesis using False
      by (intro exI [of _ "step # ext"]) (simp add: loc_def step_def Let_def)
  qed (use Cons.IH in simp)
qed simp

lemma Extend_Covers_mono:
  "Ancestry_Covers a e \<Longrightarrow> Ancestry_Covers (Ancestry_Extend a idAt mount) e"
  using extend_segments_eq [of idAt "''''" "split_on CHR ''/'' mount" a]
  by (auto simp: Ancestry_Covers_def Ancestry_Extend_def)

lemma Binds_imp_Covers: "Ancestry_Binds a e \<Longrightarrow> Ancestry_Covers a e"
  by (auto simp: Ancestry_Binds_def Ancestry_Covers_def)

section \<open>The scope as an interface\<close>

text \<open>What the decision function may rely on of the scope it is handed: the empty id, which
  stands for an unplaced identity, names no element, and the element a node is bound to is
  one that reaches it.\<close>

locale node_scope =
  fixes path_of :: "string \<Rightarrow> string option"
    and reaches :: "string \<Rightarrow> bool"
    and binds :: "string \<Rightarrow> bool"
  assumes path_of_empty: "path_of '''' = None"
    and reaches_empty: "\<not> reaches ''''"
    and binds_reaches: "binds e \<Longrightarrow> reaches e"
begin

lemma empty_unresolved: "path_of '''' = None \<and> \<not> reaches '''' \<and> \<not> binds ''''"
  using path_of_empty reaches_empty binds_reaches by blast

end

interpretation esc: node_scope
  "scPathOf (engine_scope recs x anc)" "scReaches (engine_scope recs x anc)"
  "scBinds (engine_scope recs x anc)"
  by unfold_locales
    (auto simp: engine_scope_def PathOf_def Ancestry_Covers_def
       dest: Binds_imp_Covers split: option.splits)

section \<open>What the index and the groups resolve\<close>

lemma loaded_apply [simp]: "loaded (apply_element path payload x) = loaded x"
  by (auto simp: apply_element_def Let_def split: option.splits)

lemma loaded_apply_all [simp]: "loaded (apply_all ws x) = loaded x"
  unfolding apply_all_def by (induction ws arbitrary: x) (simp_all add: case_prod_beta)

text \<open>The element writes among a list of observed records, in order.\<close>

definition element_writes :: "(string \<times> string \<times> bytes) list \<Rightarrow> (string \<times> bytes) list" where
  "element_writes obs = List.map_filter (\<lambda>(contract, topic, payload).
     if contract \<noteq> ''_SystemElement'' then None
     else case Parse topic of Inl _ \<Rightarrow> None | Inr p \<Rightarrow> Some (pPath p, payload)) obs"

lemma observe_all:
  "loaded x \<Longrightarrow>
   fold (\<lambda>(contract, topic, payload). Observe contract topic payload) obs x = apply_all (element_writes obs) x"
proof (induction obs arbitrary: x)
  case (Cons ob obs)
  obtain contract topic payload where ob: "ob = (contract, topic, payload)" by (cases ob)
  show ?case
    using Cons by (auto simp: ob element_writes_def apply_all_def Observe_def map_filter_simps
        split: sum.splits)
qed (simp add: apply_all_def element_writes_def map_filter_simps)

lemma load_observe_eq:
  "fold (\<lambda>(contract, topic, payload). Observe contract topic payload) obs (load_index recs NewElementIndex) =
   (apply_all (map (\<lambda>r. (kPath r, kPayload r)) recs @ element_writes obs) NewElementIndex)\<lparr>loaded := True\<rparr>"
proof -
  have one: "apply_element path payload (x\<lparr>loaded := b\<rparr>) = (apply_element path payload x)\<lparr>loaded := b\<rparr>"
    for path payload x b
    by (cases x) (auto simp: apply_element_def Let_def split: option.splits)
  have apply_loaded: "apply_all ws (x\<lparr>loaded := b\<rparr>) = (apply_all ws x)\<lparr>loaded := b\<rparr>" for ws x b
    unfolding apply_all_def by (induction ws arbitrary: x) (auto simp: one)
  have "loaded (load_index recs NewElementIndex)"
    by (simp add: load_index_def NewElementIndex_def)
  then show ?thesis
    by (simp add: observe_all load_index_eq [of NewElementIndex] apply_loaded)
      (simp add: NewElementIndex_def load_index_def apply_all_def apply_loaded [unfolded apply_all_def]
        fold_map comp_def)
qed

text \<open>C15: The element index never answers with a position of another element. After it loaded the
  store's records and observed any sequence of later ones, a path it returns for an element id is a
  path whose last record names that id; a position that was retired, overwritten or never held the
  element is not returned.\<close>

theorem element_index_sound:
  assumes "x = fold (\<lambda>(contract, topic, payload). Observe contract topic payload) obs
      (load_index recs NewElementIndex)"
    and "fst (PathOf scan i x) = Some path"
  shows "i \<noteq> '''' \<and>
    (\<exists>payload. map_of (rev (map (\<lambda>r. (kPath r, kPayload r)) recs @ element_writes obs)) path = Some payload
       \<and> element_at payload = Some i)"
proof -
  let ?ws = "map (\<lambda>r. (kPath r, kPayload r)) recs @ element_writes obs"
  have x: "x = (apply_all ?ws NewElementIndex)\<lparr>loaded := True\<rparr>"
    using assms(1) load_observe_eq by simp
  have i: "i \<noteq> ''''" "byID x i = Some path"
    using assms(2) by (auto simp: x PathOf_def load_index_def Let_def split: if_splits)
  have "byPath (apply_all ?ws NewElementIndex) path = Some i"
    using i(2) apply_all_ok [OF index_ok_new, of ?ws] by (simp add: x index_ok_def)
  then show ?thesis
    using i(1) by (simp add: apply_all_byPath NewElementIndex_def split: option.splits)
qed

definition demo_element :: bytes where
  "demo_element = [CHR ''{'', CHR 0x22, CHR ''i'', CHR ''d'', CHR 0x22, CHR '':'', CHR 0x22, CHR ''e'',
     CHR ''1'', CHR 0x22, CHR ''}'']"

theorem element_index_sound_witness:
  "fst (PathOf [] ''e1'' (fold (\<lambda>(contract, topic, payload). Observe contract topic payload)
      [(''_SystemElement'', ''colca/v1/_SystemElement/n1/plant/b'', demo_element),
       (''_SystemElement'', ''colca/v1/_SystemElement/n1/plant/a'', '''')]
      (load_index [\<lparr>kTopic = ''colca/v1/_SystemElement/n1/plant/a'', kPath = ''plant/a'', kNodeID = ''n1'',
         kPayload = demo_element, kOffset = 1, kOriginOffset = 0\<rparr>] NewElementIndex))) = Some ''plant/b''
   \<and> (\<exists>payload. element_at payload = Some ''e1'')"
proof -
  let ?x = "fold (\<lambda>(contract, topic, payload). Observe contract topic payload)
      [(''_SystemElement'', ''colca/v1/_SystemElement/n1/plant/b'', demo_element),
       (''_SystemElement'', ''colca/v1/_SystemElement/n1/plant/a'', '''')]
      (load_index [\<lparr>kTopic = ''colca/v1/_SystemElement/n1/plant/a'', kPath = ''plant/a'', kNodeID = ''n1'',
         kPayload = demo_element, kOffset = 1, kOriginOffset = 0\<rparr>] NewElementIndex)"
  have 1: "fst (PathOf [] ''e1'' ?x) = Some ''plant/b''" by code_simp
  show ?thesis using 1 element_index_sound [OF refl 1] by blast
qed

text \<open>C16: A move is seen the same in either order. An element that goes from one position to another
  leaves the index in one state whether its new record or the tombstone of the old position is
  applied first, and in that state the element is at the new position and the old one is empty.\<close>

theorem element_move_any_order:
  assumes "index_ok x" "byPath x old = Some i" "element_at payload = Some i" "new \<noteq> old"
  shows "apply_element old [] (apply_element new payload x) =
      apply_element new payload (apply_element old [] x) \<and>
    byID (apply_element old [] (apply_element new payload x)) i = Some new \<and>
    byPath (apply_element old [] (apply_element new payload x)) old = None"
proof -
  have ok: "index_ok (apply_element new payload x)" "index_ok (apply_element old [] x)"
    using assms(1) apply_element_ok by auto
  have "byID (apply_element old [] (apply_element new payload x)) =
      byID (apply_element new payload (apply_element old [] x))"
    using assms by (auto simp: fun_eq_iff apply_element_byID ok element_at_def)
  moreover have "byPath (apply_element old [] (apply_element new payload x)) =
      byPath (apply_element new payload (apply_element old [] x))"
    using assms(4) by (simp add: apply_element_byPath fun_upd_twist)
  ultimately have "apply_element old [] (apply_element new payload x) =
      apply_element new payload (apply_element old [] x)"
    by (intro ElementIndex.equality) simp_all
  then show ?thesis
    using assms(3,4) ok by (simp add: apply_element_byID apply_element_byPath element_at_def)
qed

theorem element_move_any_order_witness:
  "byID (apply_element ''a'' [] (apply_element ''b'' demo_element (apply_element ''a'' demo_element NewElementIndex)))
     ''e1'' = Some ''b''"
proof -
  let ?x = "apply_element ''a'' demo_element NewElementIndex"
  have 1: "index_ok ?x" by (simp add: apply_element_ok)
  have e: "element_at demo_element = Some ''e1''" by code_simp
  have 2: "byPath ?x ''a'' = Some ''e1''" by (simp add: apply_element_byPath e)
  have 3: "''b'' \<noteq> ''a''" by simp
  show ?thesis using element_move_any_order [OF 1 2 e 3] by blast
qed

lemma set_add_grants: "set (add_grants got grants) = set grants \<union> set got"
  unfolding add_grants_def by (induction got arbitrary: grants) auto

lemma distinct_add_grants: "distinct grants \<Longrightarrow> distinct (add_grants got grants)"
  unfolding add_grants_def by (induction got arbitrary: grants) auto

lemma grants_for_spec:
  "distinct grants \<Longrightarrow> grants_for recs author ids grants problems = (gs, ps) \<Longrightarrow>
   distinct gs \<and> set gs = set grants \<union> {g. \<exists>i got. i \<in> set ids \<and> GrantsOf recs author i = Inr got \<and> g \<in> set got}
   \<and> ps = problems @ List.map_filter (\<lambda>i. case GrantsOf recs author i of Inl e \<Rightarrow> Some e | Inr _ \<Rightarrow> None) ids"
proof (induction ids arbitrary: grants problems)
  case (Cons i ids)
  show ?case
  proof (cases "GrantsOf recs author i")
    case (Inl e)
    then show ?thesis using Cons.IH [of grants "problems @ [e]"] Cons.prems by (auto simp: map_filter_simps)
  next
    case (Inr got)
    then show ?thesis
      using Cons.IH [of "add_grants got grants" problems] Cons.prems
      by (auto simp: map_filter_simps set_add_grants distinct_add_grants)
  qed
qed (simp add: map_filter_simps)

text \<open>C17: A person holds exactly the grants of the groups that resolve, each once. A group id resolves
  only when exactly one definition claims it, so an id that two authors claim, or none, adds nothing
  and is reported; nothing else of the person's groups is lost.\<close>

theorem groups_grant_exactly:
  "distinct (fst (GrantsFor recs author ids)) \<and>
   set (fst (GrantsFor recs author ids)) =
     {g. \<exists>i node d. i \<in> set ids \<and> i \<noteq> '''' \<and> group_claims recs author i = [(node, d)] \<and> g \<in> set (gGrants d)} \<and>
   length (snd (GrantsFor recs author ids)) = length (filter (\<lambda>i. isl (GrantsOf recs author i)) ids)"
proof -
  obtain gs ps where r: "GrantsFor recs author ids = (gs, ps)" by fastforce
  have spec: "distinct gs"
    "set gs = {g. \<exists>i got. i \<in> set ids \<and> GrantsOf recs author i = Inr got \<and> g \<in> set got}"
    "ps = List.map_filter (\<lambda>i. case GrantsOf recs author i of Inl e \<Rightarrow> Some e | Inr _ \<Rightarrow> None) ids"
    using grants_for_spec [of "[]" recs author ids "[]" gs ps] r by (auto simp: GrantsFor_def)
  have one: "GrantsOf recs author i = Inr got \<longleftrightarrow>
      i \<noteq> '''' \<and> (\<exists>node d. group_claims recs author i = [(node, d)] \<and> got = gGrants d)" for i got
    by (auto simp: GrantsOf_def split: list.splits prod.splits)
  have len: "length (List.map_filter (\<lambda>i. case GrantsOf recs author i of Inl e \<Rightarrow> Some e | Inr _ \<Rightarrow> None) xs) =
      length (filter (\<lambda>i. isl (GrantsOf recs author i)) xs)" for xs
    by (induction xs) (auto simp: map_filter_simps split: sum.splits)
  have "set gs = {g. \<exists>i node d. i \<in> set ids \<and> i \<noteq> '''' \<and> group_claims recs author i = [(node, d)] \<and>
      g \<in> set (gGrants d)}"
    unfolding spec(2) one by blast
  then show ?thesis using spec(1,3) len by (simp add: r)
qed

end
