(* ===== verification/Uns_Authz.thy ===== *)
theory Uns_Authz
  imports Uns_Filter Uns_Scope
begin

text \<open>
  Identities and the one decision function (\<^verbatim>\<open>plugins/uns/authz.go\<close>): registry entries and
  their validation, the grant grammar, zones, hazard classes and \<^verbatim>\<open>Authorize\<close>. A pointer
  that may be nil is an \<^typ>\<open>'a option\<close>; the functions that dereference their entry without a
  nil check take it directly. A nil \<^verbatim>\<open>Scope\<close> is \<^term>\<open>None\<close>.
\<close>

section \<open>Identities\<close>

datatype Kind = KindExternal | KindNode | KindLocal | KindHuman | KindOther string

record Entry =
  eULID :: string
  ePubkey :: string
  eKind :: Kind
  eName :: string
  eElement :: string
  eGrants :: "string list"
  eGroups :: "string list"
  eDisplayName :: string
  eServiceClient :: string
  eEmail :: string
  eSignedInHere :: bool
  eCredential :: string
  eStatus :: string

definition zero_entry :: Entry where
  "zero_entry = \<lparr>eULID = '''', ePubkey = '''', eKind = KindOther '''', eName = '''', eElement = '''',
     eGrants = [], eGroups = [], eDisplayName = '''', eServiceClient = '''', eEmail = '''',
     eSignedInHere = False, eCredential = '''', eStatus = ''''\<rparr>"

definition StatusActive :: string where "StatusActive = ''active''"
definition StatusDraining :: string where "StatusDraining = ''draining''"

definition IsDraining :: "Entry option \<Rightarrow> bool" where
  "IsDraining e = (case e of None \<Rightarrow> False | Some e \<Rightarrow> eStatus e = StatusDraining)"

definition MarkDraining :: "Entry \<Rightarrow> Entry" where
  "MarkDraining e = e\<lparr>eStatus := StatusDraining\<rparr>"

definition CanDrain :: "Entry option \<Rightarrow> bool" where
  "CanDrain e = (case e of None \<Rightarrow> False | Some e \<Rightarrow> eKind e = KindNode)"

definition ReplicatesUp :: "Entry option \<Rightarrow> bool" where
  "ReplicatesUp e = (case e of None \<Rightarrow> False | Some e \<Rightarrow> eKind e = KindNode)"

definition LocalCursorPrefix :: string where "LocalCursorPrefix = ''c/''"

definition CursorPrefix :: "Entry \<Rightarrow> string" where
  "CursorPrefix e =
     (if eKind e = KindLocal then LocalCursorPrefix @ eName e @ ''/'' else eULID e @ ''/'')"

definition CatalogueName :: "Entry \<Rightarrow> string" where
  "CatalogueName e = (if eName e \<noteq> '''' then eName e else eULID e)"

datatype Door = DoorMQTT | DoorHTTP | DoorRepl | DoorLocal

definition MayUseDoor :: "Entry option \<Rightarrow> Door \<Rightarrow> bool" where
  "MayUseDoor e d =
     (case e of None \<Rightarrow> False
      | Some e \<Rightarrow> (case d of
            DoorMQTT \<Rightarrow> eKind e = KindExternal
          | DoorHTTP \<Rightarrow> eKind e = KindExternal
          | DoorRepl \<Rightarrow> eKind e = KindNode
          | DoorLocal \<Rightarrow> eKind e = KindLocal))"

definition MayPublishContract :: "Entry option \<Rightarrow> string \<Rightarrow> bool" where
  "MayPublishContract e contract =
     (case e of None \<Rightarrow> False
      | Some e \<Rightarrow> if eKind e = KindHuman then contract \<noteq> ''_CmdConfigure'' else True)"

definition ValidElementID :: "string \<Rightarrow> bool" where
  "ValidElementID i \<longleftrightarrow> \<not> contains_any i ''/+#:''"

section \<open>Grants\<close>

record Grant =
  gVerb :: string
  gElement :: string
  gClasses :: "string list"

datatype grant_error = BadShape | EmptyZone | UnknownZone | BadNodePath | NotAnElement
  | AdminZone | NoClass | UnknownClass string | UnknownVerb string

definition NodeZone :: string where "NodeZone = ''$node''"

definition NodeRelative :: "string \<Rightarrow> string option" where
  "NodeRelative element =
     (if element = NodeZone then Some ''''
      else case cut_prefix element (NodeZone @ ''/'') of Some rest \<Rightarrow> Some rest | None \<Rightarrow> None)"

definition cmdClasses :: "string list" where
  "cmdClasses = [''acknowledge'', ''annotate'', ''param'', ''operate'', ''maintain'', ''configure'', ''admin'']"

definition CmdClasses :: "string list" where "CmdClasses = sort cmdClasses"

definition parseNodeZone :: "string \<Rightarrow> grant_error + string" where
  "parseNodeZone z =
     (case NodeRelative z of
        None \<Rightarrow> Inl UnknownZone
      | Some path \<Rightarrow>
          if path = '''' then Inr NodeZone
          else if list_ex (\<lambda>seg. seg = '''' \<or> contains_any seg ''+#:$'') (split_on CHR ''/'' path)
          then Inl BadNodePath
          else Inr z)"

definition parseZone :: "string \<Rightarrow> grant_error + string" where
  "parseZone z =
     (if z = ''#'' then Inr ''#''
      else let z = trim_suffix z ''/#'' in
        if z = '''' then Inl EmptyZone
        else if has_prefix z ''$'' then parseNodeZone z
        else if \<not> ValidElementID z then Inl NotAnElement
        else Inr z)"

definition FormatGrant :: "Grant \<Rightarrow> grant_error + string" where
  "FormatGrant g =
     (let element = (if gElement g = ''#'' then '''' else gElement g);
          zone = (if element \<noteq> '''' then element @ ''/#'' else ''#'') in
      if gVerb g = ''read'' then Inr (''read:'' @ zone)
      else if gVerb g = ''write'' then Inr (''write:'' @ zone)
      else if gVerb g = ''admin'' then (if element \<noteq> '''' then Inl AdminZone else Inr ''admin:#'')
      else if gVerb g = ''cmd'' then
        (if length (gClasses g) = 0 then Inl NoClass
         else let classes = sort (gClasses g) in
           case find (\<lambda>c. c \<notin> set cmdClasses) classes of
             Some c \<Rightarrow> Inl (UnknownClass c)
           | None \<Rightarrow> Inr (''cmd:'' @ zone @ '':'' @ join_with CHR '','' classes))
      else Inl (UnknownVerb (gVerb g)))"

text \<open>The branch \<^verbatim>\<open>read\<close> and \<^verbatim>\<open>write\<close> share.\<close>

definition zone_grant :: "string \<Rightarrow> string list \<Rightarrow> grant_error + Grant" where
  "zone_grant verb parts =
     (if length parts \<noteq> 2 then Inl BadShape
      else case parseZone (parts ! 1) of
        Inl err \<Rightarrow> Inl err
      | Inr z \<Rightarrow> Inr \<lparr>gVerb = verb, gElement = z, gClasses = []\<rparr>)"

definition ParseGrant :: "string \<Rightarrow> grant_error + Grant" where
  "ParseGrant s =
     (let parts = split_n 3 CHR '':'' s in
      if parts ! 0 = ''read'' then zone_grant ''read'' parts
      else if parts ! 0 = ''write'' then zone_grant ''write'' parts
      else if parts ! 0 = ''admin'' then
        (if length parts \<noteq> 2 then Inl BadShape
         else case parseZone (parts ! 1) of
           Inl err \<Rightarrow> Inl err
         | Inr z \<Rightarrow> if z \<noteq> ''#'' then Inl AdminZone
                    else Inr \<lparr>gVerb = ''admin'', gElement = ''#'', gClasses = []\<rparr>)
      else if parts ! 0 = ''cmd'' then
        (if length parts \<noteq> 3 then Inl BadShape
         else case parseZone (parts ! 1) of
           Inl err \<Rightarrow> Inl err
         | Inr z \<Rightarrow>
             let classes = split_on CHR '','' (parts ! 2) in
             if parts ! 2 = '''' then Inl NoClass
             else case find (\<lambda>c. c \<notin> set cmdClasses) classes of
               Some c \<Rightarrow> Inl (UnknownClass c)
             | None \<Rightarrow> Inr \<lparr>gVerb = ''cmd'', gElement = z, gClasses = classes\<rparr>)
      else Inl (UnknownVerb (parts ! 0)))"

section \<open>Validation of an entry\<close>

datatype entry_error = NoULID | PubkeyLength nat | PubkeyNotHex | NoName | NameNotASegment
  | LocalHoldsNoKey | HumanNotEnrolled | UnknownKind | NotPlaced | BadElement
  | BadStatus string | OnlyNodesDrain | BadGrant grant_error | AdminGrant string | NodeRelativeGrant string

definition validate_kind :: "Entry \<Rightarrow> entry_error option" where
  "validate_kind e =
     (case eKind e of
        KindLocal \<Rightarrow>
          if eName e = '''' then Some NoName
          else if contains_any (eName e) ''/+#'' then Some NameNotASegment
          else if ePubkey e \<noteq> '''' then Some LocalHoldsNoKey
          else None
      | KindHuman \<Rightarrow> Some HumanNotEnrolled
      | KindOther _ \<Rightarrow> Some UnknownKind
      | _ \<Rightarrow>
          if length (ePubkey e) \<noteq> 64 then Some (PubkeyLength (length (ePubkey e)))
          else if list_ex (\<lambda>c. hex_digit c = None) (ePubkey e) then Some PubkeyNotHex
          else None)"

fun validate_grants :: "string list \<Rightarrow> entry_error option" where
  "validate_grants [] = None"
| "validate_grants (g # gs) =
     (case ParseGrant g of
        Inl err \<Rightarrow> Some (BadGrant err)
      | Inr pg \<Rightarrow>
          if gVerb pg = ''admin'' then Some (AdminGrant g)
          else if NodeRelative (gElement pg) \<noteq> None then Some (NodeRelativeGrant g)
          else validate_grants gs)"

definition Entry_Validate :: "Entry \<Rightarrow> entry_error option" where
  "Entry_Validate e =
     (if eULID e = '''' then Some NoULID
      else case validate_kind e of
        Some err \<Rightarrow> Some err
      | None \<Rightarrow>
          if eElement e = '''' \<and> eKind e \<noteq> KindLocal then Some NotPlaced
          else if eElement e \<noteq> '''' \<and> \<not> ValidElementID (eElement e) then Some BadElement
          else if eStatus e \<notin> set ['''', StatusActive, StatusDraining] then Some (BadStatus (eStatus e))
          else if eStatus e = StatusDraining \<and> eKind e \<noteq> KindNode then Some OnlyNodesDrain
          else validate_grants (eGrants e))"

section \<open>Entries of tokens\<close>

definition TokenEntry :: "string \<Rightarrow> string list \<Rightarrow> grant_error option + Entry" where
  "TokenEntry sub grants =
     (if sub = '''' then Inl None
      else case find (\<lambda>g. isl (ParseGrant g)) grants of
        Some g \<Rightarrow> Inl (case ParseGrant g of Inl err \<Rightarrow> Some err | Inr _ \<Rightarrow> None)
      | None \<Rightarrow> Inr (zero_entry\<lparr>eULID := sub, eKind := KindHuman, eGrants := grants,
                                eSignedInHere := True\<rparr>))"

definition TokenEntryWithGroups ::
    "string \<Rightarrow> string list \<Rightarrow> string list \<Rightarrow> (KVRecord list \<times> string) option \<Rightarrow>
     grant_error option + (Entry \<times> group_problem list)" where
  "TokenEntryWithGroups sub grants groupIDs idx =
     (case TokenEntry sub grants of
        Inl err \<Rightarrow> Inl err
      | Inr e \<Rightarrow>
          let e = e\<lparr>eGroups := groupIDs\<rparr> in
          (case idx of
             None \<Rightarrow> Inr (e, [])
           | Some (recs, author) \<Rightarrow>
               if groupIDs = [] then Inr (e, [])
               else
                 let (fromGroups, problems) = GrantsFor recs author groupIDs;
                     good = (\<lambda>g. case ParseGrant g of Inl _ \<Rightarrow> False | Inr _ \<Rightarrow> True)
                 in Inr (e\<lparr>eGrants := eGrants e @ filter good fromGroups\<rparr>,
                         problems @ map GroupGrant (filter (\<lambda>g. \<not> good g) fromGroups))))"

section \<open>What an identity may do\<close>

definition IsAdmin :: "Entry option \<Rightarrow> bool" where
  "IsAdmin e =
     (case e of None \<Rightarrow> False
      | Some e \<Rightarrow> list_ex (\<lambda>g. case ParseGrant g of Inl _ \<Rightarrow> False | Inr pg \<Rightarrow> gVerb pg = ''admin'') (eGrants e))"

definition IsLocal :: "Entry option \<Rightarrow> bool" where
  "IsLocal e = (case e of None \<Rightarrow> False | Some e \<Rightarrow> eKind e = KindLocal)"

definition MayPublishAudit :: "Entry option \<Rightarrow> bool" where
  "MayPublishAudit e = (case e of None \<Rightarrow> False | Some e \<Rightarrow> eKind e = KindLocal)"

definition ActorLabel :: "Entry option \<Rightarrow> string" where
  "ActorLabel e =
     (case e of None \<Rightarrow> '''' | Some e \<Rightarrow> if eKind e = KindHuman then eDisplayName e else eName e)"

definition ActorKind :: "Entry option \<Rightarrow> string" where
  "ActorKind e =
     (case e of None \<Rightarrow> ''''
      | Some e \<Rightarrow> (case eKind e of
            KindHuman \<Rightarrow> ''human'' | KindNode \<Rightarrow> ''node'' | KindExternal \<Rightarrow> ''service''
          | KindLocal \<Rightarrow> ''service'' | KindOther _ \<Rightarrow> ''''))"

definition MayImplicitlyConfigure :: "Entry option \<Rightarrow> string \<Rightarrow> bool" where
  "MayImplicitlyConfigure e contract =
     (case e of None \<Rightarrow> False
      | Some e \<Rightarrow> eKind e = KindLocal \<and> eElement e = '''' \<and> contract = ''_CmdConfigure'')"

definition AppNotificationSenders :: "string list" where
  "AppNotificationSenders = [''api'', ''hub-api'']"

definition IsAppNotificationSender :: "string \<Rightarrow> bool" where
  "IsAppNotificationSender name \<longleftrightarrow> list_ex (\<lambda>sender. name = sender) AppNotificationSenders"

definition IsAppNotificationPath :: "string \<Rightarrow> bool" where
  "IsAppNotificationPath path =
     (case cut_at CHR ''/'' path of
        None \<Rightarrow> False
      | Some (i, action) \<Rightarrow> action = ''notify'' \<and> i \<noteq> '''' \<and> ValidElementID i \<and> \<not> contains_str i ''_'')"

definition MayImplicitlyDeliverAppNotification :: "Entry option \<Rightarrow> string \<Rightarrow> string \<Rightarrow> bool" where
  "MayImplicitlyDeliverAppNotification e contract path =
     (case e of None \<Rightarrow> False
      | Some e \<Rightarrow> eKind e = KindLocal \<and> eElement e = '''' \<and> IsAppNotificationSender (eName e) \<and>
          contract = ''_CmdOperate'' \<and> IsAppNotificationPath path)"

definition AuthorizedAtExecutor :: "string \<Rightarrow> bool" where
  "AuthorizedAtExecutor contract \<longleftrightarrow> contract = ''_CmdEdit''"

definition HoldsCmdClass :: "Entry option \<Rightarrow> string \<Rightarrow> bool" where
  "HoldsCmdClass e class =
     (case e of None \<Rightarrow> False
      | Some e \<Rightarrow> list_ex (\<lambda>g. case ParseGrant g of Inl _ \<Rightarrow> False
            | Inr pg \<Rightarrow> gVerb pg = ''cmd'' \<and> class \<in> set (gClasses pg)) (eGrants e))"

definition IsHuman :: "Entry option \<Rightarrow> bool" where
  "IsHuman e = (case e of None \<Rightarrow> False | Some e \<Rightarrow> eKind e = KindHuman)"

definition CmdClass :: "string \<Rightarrow> string" where
  "CmdClass contract =
     (if contract = ''_CmdAcknowledge'' then ''acknowledge''
      else if contract = ''_CmdParam'' then ''param''
      else if contract = ''_CmdOperate'' then ''operate''
      else if contract = ''_CmdMaintain'' then ''maintain''
      else if contract = ''_CmdConfigure'' \<or> contract = ''_CmdEdit'' then ''configure''
      else ''admin'')"

definition readActs :: "string list" where "readActs = [''subscribe'', ''unsubscribe'']"

definition ReadAuthorizedAct :: "string \<Rightarrow> string \<Rightarrow> string option" where
  "ReadAuthorizedAct contract path =
     (if contract \<noteq> ''_CmdOperate'' then None
      else case cut_last_at CHR ''/'' path of
        None \<Rightarrow> None
      | Some (place, action) \<Rightarrow>
          if action \<notin> set readActs \<or> place = '''' then None else Some place)"

definition SeesActorWitness :: "Entry option \<Rightarrow> bool" where
  "SeesActorWitness e =
     (case e of None \<Rightarrow> False | Some e \<Rightarrow> eKind e = KindLocal \<and> eElement e = '''')"

section \<open>Zones\<close>

definition coverPath :: "string \<Rightarrow> string \<Rightarrow> bool" where
  "coverPath zone path =
     (if zone = ''#'' then True else path = zone \<or> has_prefix path (zone @ ''/''))"

definition zoneOf :: "Scope option \<Rightarrow> string \<Rightarrow> string option" where
  "zoneOf sc elementID =
     (if elementID = ''#'' then Some ''#''
      else case sc of
        None \<Rightarrow> None
      | Some sc \<Rightarrow>
          if elementID = '''' then None
          else if scReaches sc elementID then Some ''#''
          else scPathOf sc elementID)"

definition grantZone :: "Scope option \<Rightarrow> Entry option \<Rightarrow> string \<Rightarrow> string option" where
  "grantZone sc e element =
     (case NodeRelative element of
        Some path \<Rightarrow>
          (case e of
             None \<Rightarrow> None
           | Some e \<Rightarrow>
               if eKind e \<noteq> KindHuman \<or> \<not> eSignedInHere e then None
               else if path = '''' then Some ''#''
               else Some path)
      | None \<Rightarrow> zoneOf sc element)"

text \<open>The loop \<^verbatim>\<open>readZones\<close> and \<^verbatim>\<open>writeZones\<close> end with: the zones of the grants of a verb.\<close>

definition granted_zones :: "Scope option \<Rightarrow> Entry \<Rightarrow> string \<Rightarrow> string list" where
  "granted_zones sc e verb =
     List.map_filter (\<lambda>g. case ParseGrant g of
         Inl _ \<Rightarrow> None
       | Inr pg \<Rightarrow> if gVerb pg \<noteq> verb then None else grantZone sc (Some e) (gElement pg))
       (eGrants e)"

definition readZones :: "Scope option \<Rightarrow> Entry \<Rightarrow> string list" where
  "readZones sc e =
     (if eKind e = KindLocal \<and> eElement e = '''' then [''#'']
      else case zoneOf sc (eElement e) of Some zone \<Rightarrow> [zone] | None \<Rightarrow> [])
     @ granted_zones sc e ''read''"

definition writeZones :: "Scope option \<Rightarrow> Entry \<Rightarrow> string list" where
  "writeZones sc e =
     (if eKind e = KindLocal then
        (if eElement e = '''' then [''#'']
         else case zoneOf sc (eElement e) of Some zone \<Rightarrow> [zone] | None \<Rightarrow> [])
      else [])
     @ granted_zones sc e ''write''"

definition AuthorizeCmdAt :: "Scope option \<Rightarrow> Entry option \<Rightarrow> string \<Rightarrow> string \<Rightarrow> bool" where
  "AuthorizeCmdAt sc e class path =
     (case e of None \<Rightarrow> False
      | Some e' \<Rightarrow> list_ex (\<lambda>g. case ParseGrant g of
            Inl _ \<Rightarrow> False
          | Inr pg \<Rightarrow>
              if gVerb pg \<noteq> ''cmd'' then False
              else case grantZone sc e (gElement pg) of
                None \<Rightarrow> False
              | Some zone \<Rightarrow> coverPath zone path \<and> class \<in> set (gClasses pg)) (eGrants e'))"

definition MayReadFetchLogsAck :: "Scope option \<Rightarrow> Entry option \<Rightarrow> string \<Rightarrow> string \<Rightarrow> bool" where
  "MayReadFetchLogsAck sc e topic actorID =
     (case FetchLogsAck topic of
        None \<Rightarrow> True
      | Some path \<Rightarrow>
          (case e of
             None \<Rightarrow> False
           | Some e' \<Rightarrow>
               if actorID \<noteq> '''' \<and> eULID e' = actorID then True
               else AuthorizeCmdAt sc e (CmdClass ''_CmdAdmin'') path))"

definition ClassesAt :: "Scope option \<Rightarrow> Entry option \<Rightarrow> string \<Rightarrow> string \<Rightarrow> string list" where
  "ClassesAt sc e contract path =
     (case e of None \<Rightarrow> []
      | Some e' \<Rightarrow>
          let place = (case ReadAuthorizedAct contract path of Some p \<Rightarrow> p | None \<Rightarrow> path) in
          sort ((if list_ex (\<lambda>z. coverPath z place) (readZones sc e') then [''read''] else [])
                @ filter (\<lambda>class. AuthorizeCmdAt sc e class place) cmdClasses))"

section \<open>The decision\<close>

datatype Action = ActSub | ActReadRecord | ActCmd | ActPub

definition localServiceRead :: "string \<Rightarrow> Entry option \<Rightarrow> string \<Rightarrow> bool" where
  "localServiceRead rt e topic =
     (if \<not> IsLocal e then False
      else let parts = split_on CHR ''/'' topic in
        length parts \<ge> 4 \<and> parts ! 0 = rt \<and> parts ! 1 = Version \<and> parts ! 2 = ''_ServiceDetails'')"

fun Authorize :: "string \<Rightarrow> Scope option \<Rightarrow> Entry \<Rightarrow> Action \<Rightarrow> string \<Rightarrow> bool" where
  "Authorize rt sc e ActReadRecord topic =
     (case Parse topic of
        Inl _ \<Rightarrow> False
      | Inr p \<Rightarrow>
          if localServiceRead rt (Some e) topic then True
          else list_ex (\<lambda>z. coverPath z (pPath p)) (readZones sc e))"
| "Authorize rt sc e ActSub topic =
     (if isReservedFilter topic then False
      else if localServiceRead rt (Some e) topic then True
      else case fixedPathPrefix rt topic of (fixed, isUns) \<Rightarrow>
        if \<not> isUns then True
        else list_ex (\<lambda>z. z = ''#'' \<or> (fixed \<noteq> '''' \<and> coverPath z fixed)) (readZones sc e))"
| "Authorize rt sc e ActCmd topic =
     (case Parse topic of
        Inl _ \<Rightarrow> False
      | Inr p \<Rightarrow>
          if ClassOf (pContract p) \<noteq> ClassCmd then False
          else case ReadAuthorizedAct (pContract p) (pPath p) of
            Some place \<Rightarrow> list_ex (\<lambda>z. coverPath z place) (readZones sc e)
          | None \<Rightarrow>
              let class = CmdClass (pContract p) in
              if AuthorizedAtExecutor (pContract p)
              then HoldsCmdClass (Some e) class \<or> HoldsCmdClass (Some e) ''annotate'' \<or>
                   HoldsCmdClass (Some e) ''operate'' \<or> HoldsCmdClass (Some e) ''param''
              else AuthorizeCmdAt sc (Some e) class (pPath p))"
| "Authorize rt sc e ActPub topic =
     (case Parse topic of
        Inl _ \<Rightarrow> False
      | Inr p \<Rightarrow> list_ex (\<lambda>z. coverPath z (pPath p)) (writeZones sc e))"

definition AuthorizeBrowse :: "Scope option \<Rightarrow> Entry \<Rightarrow> string \<Rightarrow> bool" where
  "AuthorizeBrowse sc e path =
     list_ex (\<lambda>z. coverPath z path \<or> has_prefix z (path @ ''/'')) (readZones sc e)"

section \<open>Coverage by whole segments\<close>

lemma prefix_join_segments:
  "prefix (z @ ''/'') path \<or> path = z \<longleftrightarrow> prefix (split_on CHR ''/'' z) (split_on CHR ''/'' path)"
proof
  assume "prefix (z @ ''/'') path \<or> path = z"
  then show "prefix (split_on CHR ''/'' z) (split_on CHR ''/'' path)"
    by (auto simp: prefix_def split_on_append_gen)
next
  assume "prefix (split_on CHR ''/'' z) (split_on CHR ''/'' path)"
  then obtain r where r: "split_on CHR ''/'' path = split_on CHR ''/'' z @ r"
    by (auto simp: prefix_def)
  have "path = join_with CHR ''/'' (split_on CHR ''/'' z @ r)"
    using arg_cong [OF r, of "join_with CHR ''/''"] by simp
  then show "prefix (z @ ''/'') path \<or> path = z"
    by (cases "r = []") (simp_all add: join_append)
qed

lemma coverPath_segments [zone_simps]:
  "coverPath zone path \<longleftrightarrow>
     zone = ''#'' \<or> prefix (split_on CHR ''/'' zone) (split_on CHR ''/'' path)"
  using prefix_join_segments [of zone path] by (auto simp: coverPath_def)

lemma coverPath_trans:
  "coverPath z q \<Longrightarrow> prefix (split_on CHR ''/'' q) (split_on CHR ''/'' path) \<Longrightarrow> coverPath z path"
  by (auto simp: zone_simps)

section \<open>Subscriptions\<close>

lemma split_path_of_topic:
  assumes "Parse topic = Inr p"
  shows "split_on CHR ''/'' (pPath p) = drop 4 (split_on CHR ''/'' topic)"
    and "split_on CHR ''/'' topic ! 0 = pPrefix p"
    and "split_on CHR ''/'' topic ! 2 = pContract p"
proof -
  have "topic = topic_of (pPrefix p) (pVersion p) (pContract p) (pNodeID p) (pPath p)"
    "slash_free (pPrefix p)" "slash_free (pVersion p)" "slash_free (pContract p)"
    "slash_free (pNodeID p)"
    using assms by (auto simp: Parse_Inr_iff)
  note t = this
  have *: "split_on CHR ''/'' topic =
      pPrefix p # pVersion p # pContract p # pNodeID p # split_on CHR ''/'' (pPath p)"
    by (subst t(1)) (simp add: split_topic_of t(2-5))
  show "split_on CHR ''/'' (pPath p) = drop 4 (split_on CHR ''/'' topic)"
    "split_on CHR ''/'' topic ! 0 = pPrefix p" "split_on CHR ''/'' topic ! 2 = pContract p"
    by (simp_all add: *)
qed

lemma mqtt_match_nth:
  "mqtt_match fs ts \<Longrightarrow> i < length fs \<Longrightarrow> \<forall>j \<le> i. fs ! j \<noteq> ''#'' \<Longrightarrow>
   i < length ts \<and> (fs ! i = ''+'' \<or> ts ! i = fs ! i)"
proof (induction fs arbitrary: i ts)
  case (Cons f fs)
  have "f \<noteq> ''#''" using Cons.prems(3) by force
  then obtain t ts' where ts: "ts = t # ts'" "f = ''+'' \<or> f = t" "mqtt_match fs ts'"
    using Cons.prems(1) by (cases ts) (auto split: if_splits)
  show ?case
  proof (cases i)
    case (Suc k)
    then have "\<forall>j \<le> k. fs ! j \<noteq> ''#''" using Cons.prems(3) by force
    then show ?thesis using Cons.IH [OF ts(3), of k] Cons.prems(2) ts(1) Suc by simp
  qed (use ts in auto)
qed simp

lemma valid_levels_hash_last:
  "valid_levels ls \<Longrightarrow> i < length ls \<Longrightarrow> ls ! i = ''#'' \<Longrightarrow> Suc i = length ls"
proof (induction ls arbitrary: i)
  case (Cons l ls)
  then show ?case by (cases i) (auto split: if_splits)
qed simp

lemma set_fixed_segments: "set (fixed_segments i ss) \<subseteq> set ss"
  by (induction i ss rule: fixed_segments.induct) auto

lemma fixed_path_prefix_match:
  assumes "mqtt_match (split_on CHR ''/'' f) (split_on CHR ''/'' topic)" "Parse topic = Inr p"
    and "fixedPathPrefix rt f = (fixed, True)" "fixed \<noteq> ''''"
  shows "prefix (split_on CHR ''/'' fixed) (split_on CHR ''/'' (pPath p))"
proof -
  let ?segs = "fixed_segments 0 (split_on CHR ''/'' f)"
  have fixed: "fixed = join_with CHR ''/'' ?segs"
    using assms(3) by (auto simp: fixedPathPrefix_def Let_def split: if_splits)
  have "?segs \<noteq> []" using fixed assms(4) by auto
  moreover have "\<forall>x \<in> set ?segs. CHR ''/'' \<notin> set x"
    using set_fixed_segments split_on_segs by (metis subsetD)
  ultimately have "split_on CHR ''/'' fixed = ?segs"
    using split_join fixed by blast
  moreover have "prefix ?segs (drop 4 (split_on CHR ''/'' topic))"
    using match_drop_header [OF assms(1), of 0] Parse_long [OF assms(2)] by simp
  ultimately show ?thesis using split_path_of_topic(1) [OF assms(2)] by simp
qed

lemma localServiceRead_match:
  assumes "localServiceRead rt (Some e) f" "valid_levels (split_on CHR ''/'' f)"
    and "mqtt_match (split_on CHR ''/'' f) (split_on CHR ''/'' topic)"
    and "Parse topic = Inr p" "pPrefix p = rt"
  shows "localServiceRead rt (Some e) topic"
proof -
  let ?fs = "split_on CHR ''/'' f" and ?ts = "split_on CHR ''/'' topic"
  have l: "IsLocal (Some e)" "4 \<le> length ?fs" "?fs ! 1 = Version" "?fs ! 2 = ''_ServiceDetails''"
    using assms(1) by (auto simp: localServiceRead_def Let_def split: if_splits)
  have no_hash: "\<forall>j \<le> i. ?fs ! j \<noteq> ''#''" if "i < 3" for i
  proof (intro allI impI notI)
    fix j assume "j \<le> i" "?fs ! j = ''#''"
    then show False using valid_levels_hash_last [OF assms(2), of j] l(2) that by simp
  qed
  have "?ts ! 1 = Version" "?ts ! 2 = ''_ServiceDetails''"
    using mqtt_match_nth [OF assms(3), of 1] mqtt_match_nth [OF assms(3), of 2] no_hash [of 1]
      no_hash [of 2] l by (auto simp: Version_def)
  then show ?thesis
    using l(1) Parse_long [OF assms(4)] split_path_of_topic(2) [OF assms(4)] assms(5)
    by (simp add: localServiceRead_def Let_def)
qed

text \<open>C1: A granted subscription delivers only readable records. When \<^verbatim>\<open>Authorize\<close> admits a
  valid filter for an identity, every topic of this node's root that the filter matches is a
  record \<^verbatim>\<open>Authorize\<close> lets the same identity read, wildcards in every level included.\<close>

theorem subscription_sound:
  assumes "Authorize rt sc e ActSub f" "ValidFilter f" "MatchFilter f topic"
    and "Parse topic = Inr p" "pPrefix p = rt"
  shows "Authorize rt sc e ActReadRecord topic"
proof (cases "localServiceRead rt (Some e) f")
  case True
  have v: "valid_levels (split_on CHR ''/'' f)"
    using assms(2) by (simp add: ValidFilter_def split: if_splits)
  then show ?thesis
    using localServiceRead_match [OF True v _ assms(4,5)] assms(3,4)
    by (simp add: MatchFilter_levels)
next
  case False
  have v: "valid_levels (split_on CHR ''/'' f)"
    using assms(2) by (simp add: ValidFilter_def split: if_splits)
  have m: "mqtt_match (split_on CHR ''/'' f) (split_on CHR ''/'' topic)"
    using assms(3) MatchFilter_levels [OF v] by simp
  obtain fixed isUns where fp: "fixedPathPrefix rt f = (fixed, isUns)" by fastforce
  have "isUns"
  proof (rule ccontr)
    assume "\<not> isUns"
    then have "split_on CHR ''/'' f ! 0 \<notin> {rt, ''+'', ''#''}"
      using fp by (auto simp: fixedPathPrefix_def Let_def hd_conv_nth split: if_splits)
    then show False
      using mqtt_match_nth [OF m, of 0] split_path_of_topic(2) [OF assms(4)] assms(5) by auto
  qed
  then obtain z where z: "z \<in> set (readZones sc e)" "z = ''#'' \<or> (fixed \<noteq> '''' \<and> coverPath z fixed)"
    using assms(1) False fp by (auto simp: list_ex_iff split: if_splits)
  have "coverPath z (pPath p)"
  proof (cases "z = ''#''")
    case False
    then have "coverPath z fixed" "fixed \<noteq> ''''" using z(2) by auto
    moreover have "fixedPathPrefix rt f = (fixed, True)" using fp \<open>isUns\<close> by simp
    ultimately show ?thesis
      by (intro coverPath_trans [OF _ fixed_path_prefix_match [OF m assms(4)]])
  qed (simp add: coverPath_def)
  then show ?thesis using z(1) assms(4) by (auto simp: list_ex_iff)
qed

text \<open>A node that holds element \<^verbatim>\<open>e1\<close> at \<^verbatim>\<open>plant/line1\<close>, and a person with grants on it.\<close>

definition demo_scope :: "Scope option" where
  "demo_scope = Some \<lparr>scPathOf = (\<lambda>e. if e = ''e1'' then Some ''plant/line1'' else None),
     scReaches = (\<lambda>_. False), scBinds = (\<lambda>_. False)\<rparr>"

definition demo_person :: "string list \<Rightarrow> Entry" where
  "demo_person gs = zero_entry\<lparr>eULID := ''u'', eKind := KindHuman, eGrants := gs\<rparr>"

theorem subscription_sound_witness:
  "Authorize ''colca'' demo_scope (demo_person [''read:e1/#'']) ActSub ''colca/v1/+/n1/plant/line1/#'' \<and>
   Authorize ''colca'' demo_scope (demo_person [''read:e1/#'']) ActReadRecord
     ''colca/v1/_Signal/n1/plant/line1/temp''"
proof -
  let ?f = "''colca/v1/+/n1/plant/line1/#''" and ?t = "''colca/v1/_Signal/n1/plant/line1/temp''"
  let ?p = "\<lparr>pPrefix = ''colca'', pVersion = ''v1'', pContract = ''_Signal'', pNodeID = ''n1'',
    pPath = ''plant/line1/temp''\<rparr>"
  have 1: "Authorize ''colca'' demo_scope (demo_person [''read:e1/#'']) ActSub ?f" by code_simp
  have 2: "ValidFilter ?f" by code_simp
  have 3: "MatchFilter ?f ?t" by code_simp
  have 4: "Parse ?t = Inr ?p" by code_simp
  have 5: "pPrefix ?p = ''colca''" by simp
  show ?thesis using 1 subscription_sound [OF 1 2 3 4 5] by (rule conjI)
qed

section \<open>What a grant can and cannot do\<close>

text \<open>The verbs an action reads, and the verb of a stored grant.\<close>

fun verbs_of :: "Action \<Rightarrow> string list" where
  "verbs_of ActSub = [''read'']"
| "verbs_of ActReadRecord = [''read'']"
| "verbs_of ActCmd = [''cmd'', ''read'']"
| "verbs_of ActPub = [''write'']"

definition grant_verb :: "string \<Rightarrow> string option" where
  "grant_verb g = (case ParseGrant g of Inl _ \<Rightarrow> None | Inr pg \<Rightarrow> Some (gVerb pg))"

lemma map_filter_filter:
  "(\<And>x. x \<in> set xs \<Longrightarrow> \<not> P x \<Longrightarrow> f x = None) \<Longrightarrow> List.map_filter f (filter P xs) = List.map_filter f xs"
  by (induction xs) (auto simp: map_filter_simps split: option.splits)

lemma list_ex_filter_eq:
  "(\<And>x. x \<in> set xs \<Longrightarrow> \<not> P x \<Longrightarrow> \<not> Q x) \<Longrightarrow> list_ex Q (filter P xs) = list_ex Q xs"
  by (induction xs) auto

lemma eGrants_update: "eGrants (e\<lparr>eGrants := gs\<rparr>) = gs"
  by simp

lemma grantZone_grants [simp]:
  "grantZone sc (Some (e\<lparr>eGrants := gs\<rparr>)) el = grantZone sc (Some e) el"
  by (simp add: grantZone_def split: option.split)

lemma granted_zones_filter:
  assumes "\<And>g pg. g \<in> set (eGrants e) \<Longrightarrow> \<not> P g \<Longrightarrow> ParseGrant g = Inr pg \<Longrightarrow>
      gVerb pg = verb \<Longrightarrow> grantZone sc (Some e) (gElement pg) = None"
  shows "granted_zones sc (e\<lparr>eGrants := filter P (eGrants e)\<rparr>) verb = granted_zones sc e verb"
proof -
  have f: "(case ParseGrant g of Inl _ \<Rightarrow> None
      | Inr pg \<Rightarrow> if gVerb pg \<noteq> verb then None else grantZone sc (Some e) (gElement pg)) = None"
    if "g \<in> set (eGrants e)" "\<not> P g" for g
    using assms [OF that] by (cases "ParseGrant g") auto
  show ?thesis
    unfolding granted_zones_def grantZone_grants eGrants_update
    by (rule map_filter_filter, rule f)
qed

lemma AuthorizeCmdAt_filter:
  assumes "\<And>g pg. g \<in> set (eGrants e) \<Longrightarrow> \<not> P g \<Longrightarrow> ParseGrant g = Inr pg \<Longrightarrow>
      gVerb pg = ''cmd'' \<Longrightarrow> grantZone sc (Some e) (gElement pg) = None"
  shows "AuthorizeCmdAt sc (Some (e\<lparr>eGrants := filter P (eGrants e)\<rparr>)) class path =
    AuthorizeCmdAt sc (Some e) class path"
proof -
  let ?Q = "\<lambda>g. case ParseGrant g of Inl _ \<Rightarrow> False
    | Inr pg \<Rightarrow> if gVerb pg \<noteq> ''cmd'' then False
        else case grantZone sc (Some e) (gElement pg) of None \<Rightarrow> False
          | Some zone \<Rightarrow> coverPath zone path \<and> class \<in> set (gClasses pg)"
  have Q: "\<not> ?Q g" if "g \<in> set (eGrants e)" "\<not> P g" for g
    using assms [OF that] by (cases "ParseGrant g") auto
  show ?thesis
    unfolding AuthorizeCmdAt_def grantZone_grants option.case eGrants_update
    by (rule list_ex_filter_eq, rule Q)
qed

lemma HoldsCmdClass_filter:
  assumes "\<And>g. g \<in> set (eGrants e) \<Longrightarrow> \<not> P g \<Longrightarrow> grant_verb g \<noteq> Some ''cmd''"
  shows "HoldsCmdClass (Some (e\<lparr>eGrants := filter P (eGrants e)\<rparr>)) class = HoldsCmdClass (Some e) class"
proof -
  let ?Q = "\<lambda>g. case ParseGrant g of Inl _ \<Rightarrow> False
    | Inr pg \<Rightarrow> gVerb pg = ''cmd'' \<and> class \<in> set (gClasses pg)"
  have Q: "\<not> ?Q g" if "g \<in> set (eGrants e)" "\<not> P g" for g
    using assms [OF that] by (auto simp: grant_verb_def split: sum.splits)
  show ?thesis
    unfolding HoldsCmdClass_def option.case eGrants_update
    by (rule list_ex_filter_eq, rule Q)
qed

lemma entry_update_simps [simp]:
  "localServiceRead rt (Some (e\<lparr>eGrants := gs\<rparr>)) t = localServiceRead rt (Some e) t"
  by (simp add: localServiceRead_def IsLocal_def)

lemma zones_update:
  assumes "granted_zones sc (e\<lparr>eGrants := gs\<rparr>) ''read'' = granted_zones sc e ''read''"
  shows "readZones sc (e\<lparr>eGrants := gs\<rparr>) = readZones sc e"
  using assms by (simp add: readZones_def)

lemma write_zones_update:
  assumes "granted_zones sc (e\<lparr>eGrants := gs\<rparr>) ''write'' = granted_zones sc e ''write''"
  shows "writeZones sc (e\<lparr>eGrants := gs\<rparr>) = writeZones sc e"
  using assms by (simp add: writeZones_def)

text \<open>C9: The verbs are separate. Each action reads only the grants of its own verbs: a read or a
  subscription only the read grants, a publish only the write grants, a command only the command
  grants and, for an alarm subscription, the read grants. An administrator's grant and a grant that
  does not parse therefore widen nothing.\<close>

theorem verbs_separate:
  "Authorize rt sc e a topic =
   Authorize rt sc (e\<lparr>eGrants := filter (\<lambda>g. grant_verb g \<in> Some ` set (verbs_of a)) (eGrants e)\<rparr>) a topic"
proof -
  define P where "P = (\<lambda>g. grant_verb g \<in> Some ` set (verbs_of a))"
  define e' where "e' = e\<lparr>eGrants := filter P (eGrants e)\<rparr>"
  have zones: "granted_zones sc e' verb = granted_zones sc e verb" if "verb \<in> set (verbs_of a)" for verb
    unfolding e'_def using that by (intro granted_zones_filter) (auto simp: P_def grant_verb_def)
  have cmd: "AuthorizeCmdAt sc (Some e') cl path = AuthorizeCmdAt sc (Some e) cl path"
    "HoldsCmdClass (Some e') cl = HoldsCmdClass (Some e) cl" if "a = ActCmd" for cl path
    unfolding e'_def using that
    by (auto intro!: AuthorizeCmdAt_filter HoldsCmdClass_filter simp: P_def grant_verb_def)
  have r: "readZones sc e' = readZones sc e" if "''read'' \<in> set (verbs_of a)"
    using zones [OF that] unfolding e'_def by (rule zones_update)
  have w: "writeZones sc e' = writeZones sc e" if "''write'' \<in> set (verbs_of a)"
    using zones [OF that] unfolding e'_def by (rule write_zones_update)
  have l: "localServiceRead rt (Some e') t = localServiceRead rt (Some e) t" for t
    by (simp add: e'_def)
  have "Authorize rt sc e a topic = Authorize rt sc e' a topic"
    using r w l cmd by (cases a) (simp_all split: sum.split option.split)
  then show ?thesis by (simp add: e'_def P_def)
qed

text \<open>Node-relative grants name the node a person signed in at.\<close>

definition node_relative_grant :: "string \<Rightarrow> bool" where
  "node_relative_grant g =
     (case ParseGrant g of Inl _ \<Rightarrow> False | Inr pg \<Rightarrow> NodeRelative (gElement pg) \<noteq> None)"

lemma grantZone_elsewhere:
  "eKind e \<noteq> KindHuman \<or> \<not> eSignedInHere e \<Longrightarrow> NodeRelative el \<noteq> None \<Longrightarrow> grantZone sc (Some e) el = None"
  by (auto simp: grantZone_def)

text \<open>C12: Away from its node a node-relative grant reaches no position. For every identity other than a
  person signed in at this node, dropping its \<^verbatim>\<open>$node\<close> grants changes no decision on a read, a subscription
  or a publish, and none on a command whose contract is decided on its topic path; nor does it change the
  check of a class at a position, which is what the executor of \<^verbatim>\<open>_CmdEdit\<close> asks for each position it
  writes. The one decision it can change is that of the door on a \<^verbatim>\<open>_CmdEdit\<close> command, which only asks
  whether the sender holds a class on any element.\<close>

theorem node_grants_elsewhere_give_nothing:
  assumes "eKind e \<noteq> KindHuman \<or> \<not> eSignedInHere e"
    and "e' = e\<lparr>eGrants := filter (\<lambda>g. \<not> node_relative_grant g) (eGrants e)\<rparr>"
  shows "(\<not> (a = ActCmd \<and> (\<exists>p. Parse topic = Inr p \<and> AuthorizedAtExecutor (pContract p))) \<longrightarrow>
      Authorize rt sc e a topic = Authorize rt sc e' a topic) \<and>
    AuthorizeCmdAt sc (Some e) cl path = AuthorizeCmdAt sc (Some e') cl path"
proof -
  define P where "P = (\<lambda>g. \<not> node_relative_grant g)"
  have e'_def: "e' = e\<lparr>eGrants := filter P (eGrants e)\<rparr>" using assms(2) by (simp add: P_def)
  have none: "grantZone sc (Some e) (gElement pg) = None" if "\<not> P g" "ParseGrant g = Inr pg" for g pg
    using that by (intro grantZone_elsewhere [OF assms(1)]) (simp add: P_def node_relative_grant_def)
  have zones: "granted_zones sc e' verb = granted_zones sc e verb" for verb
    unfolding e'_def by (rule granted_zones_filter) (erule (1) none)
  have cmd: "AuthorizeCmdAt sc (Some e') cl path = AuthorizeCmdAt sc (Some e) cl path" for cl path
    unfolding e'_def by (rule AuthorizeCmdAt_filter) (erule (1) none)
  have r: "readZones sc e' = readZones sc e" and w: "writeZones sc e' = writeZones sc e"
    using zones unfolding e'_def by (auto intro!: zones_update write_zones_update)
  have l: "localServiceRead rt (Some e') t = localServiceRead rt (Some e) t" for t
    by (simp add: e'_def)
  have "Authorize rt sc e a topic = Authorize rt sc e' a topic"
    if "\<not> (a = ActCmd \<and> (\<exists>p. Parse topic = Inr p \<and> AuthorizedAtExecutor (pContract p)))"
    using r w l cmd that by (cases a) (simp_all split: sum.split option.split)
  then show ?thesis using cmd by simp
qed

theorem node_grants_elsewhere_give_nothing_witness:
  "\<not> Authorize ''colca'' None (demo_person [''read:$node'']) ActReadRecord ''colca/v1/_Signal/n1/a/t''"
proof -
  let ?t = "''colca/v1/_Signal/n1/a/t''"
  have 1: "eKind (demo_person [''read:$node'']) \<noteq> KindHuman \<or>
      \<not> eSignedInHere (demo_person [''read:$node''])" by code_simp
  have t: "Parse ?t = Inr \<lparr>pPrefix = ''colca'', pVersion = ''v1'', pContract = ''_Signal'',
      pNodeID = ''n1'', pPath = ''a/t''\<rparr>" by code_simp
  have 2: "\<not> Authorize ''colca'' None ((demo_person [''read:$node''])\<lparr>eGrants :=
      filter (\<lambda>g. \<not> node_relative_grant g) (eGrants (demo_person [''read:$node'']))\<rparr>) ActReadRecord ?t"
    by code_simp
  show ?thesis
    using 2 node_grants_elsewhere_give_nothing [OF 1 refl, where rt = "''colca''" and sc = None and a = ActReadRecord] by simp
qed

text \<open>The exception is real: the door lets an edit command of such a person pass, and no position of it is
  authorized.\<close>

lemma node_grant_opens_edit_door:
  "Authorize ''colca'' None (demo_person [''cmd:$node:operate'']) ActCmd ''colca/v1/_CmdEdit/n1/a'' \<and>
   \<not> Authorize ''colca'' None (demo_person []) ActCmd ''colca/v1/_CmdEdit/n1/a'' \<and>
   \<not> AuthorizeCmdAt None (Some (demo_person [''cmd:$node:operate''])) ''operate'' ''a''"
  by code_simp

section \<open>Registry identities\<close>

lemma validate_grants_ok:
  "validate_grants gs = None \<Longrightarrow> g \<in> set gs \<Longrightarrow>
   \<exists>pg. ParseGrant g = Inr pg \<and> gVerb pg \<noteq> ''admin'' \<and> NodeRelative (gElement pg) = None"
  by (induction gs) (auto split: sum.splits if_splits)

lemma Entry_Validate_grants: "Entry_Validate e = None \<Longrightarrow> validate_grants (eGrants e) = None"
  by (auto simp: Entry_Validate_def split: option.splits if_splits)

lemma Entry_Validate_kind:
  "Entry_Validate e = None \<Longrightarrow> eKind e \<noteq> KindHuman \<and> (eElement e = '''' \<longrightarrow> eKind e = KindLocal)"
  by (auto simp: Entry_Validate_def validate_kind_def split: option.splits if_splits)

text \<open>C13: Placement of a keyed identity is a read zone and nothing more. A validated external or node
  entry without grants may publish nothing, and the only commands it may send are the alarm
  subscriptions its read zone covers. No validated entry is an administrator or a person.\<close>

theorem registry_entry_rights:
  assumes "Entry_Validate e = None"
  shows "\<not> IsAdmin (Some e) \<and> \<not> IsHuman (Some e) \<and>
    (eKind e \<noteq> KindLocal \<and> eGrants e = [] \<longrightarrow>
       \<not> Authorize rt sc e ActPub topic \<and>
       (Authorize rt sc e ActCmd topic \<longrightarrow>
         (\<exists>p place. Parse topic = Inr p \<and> ReadAuthorizedAct (pContract p) (pPath p) = Some place \<and>
            (\<exists>zone. zoneOf sc (eElement e) = Some zone \<and> coverPath zone place))))"
proof -
  have "\<not> IsAdmin (Some e)"
    using validate_grants_ok [OF Entry_Validate_grants [OF assms]]
    by (fastforce simp: IsAdmin_def split: sum.splits)
  moreover have "\<not> IsHuman (Some e)"
    using Entry_Validate_kind [OF assms] by (simp add: IsHuman_def)
  moreover have "\<not> Authorize rt sc e ActPub topic" if "eKind e \<noteq> KindLocal" "eGrants e = []"
    using that by (simp add: writeZones_def granted_zones_def map_filter_simps split: sum.split)
  moreover have "\<exists>p place. Parse topic = Inr p \<and> ReadAuthorizedAct (pContract p) (pPath p) = Some place \<and>
      (\<exists>zone. zoneOf sc (eElement e) = Some zone \<and> coverPath zone place)"
    if "eKind e \<noteq> KindLocal" "eGrants e = []" "Authorize rt sc e ActCmd topic"
    using that by (auto simp: readZones_def granted_zones_def map_filter_simps HoldsCmdClass_def
        AuthorizeCmdAt_def Let_def dest: sym split: sum.splits option.splits if_splits)
  ultimately show ?thesis by blast
qed

definition demo_machine :: Entry where
  "demo_machine = zero_entry\<lparr>eULID := ''m1'', eKind := KindExternal,
     ePubkey := replicate 64 CHR ''a'', eElement := ''e1''\<rparr>"

theorem registry_entry_rights_witness:
  "Entry_Validate demo_machine = None \<and>
   Authorize ''colca'' demo_scope demo_machine ActReadRecord ''colca/v1/_Signal/n1/plant/line1/t'' \<and>
   \<not> Authorize ''colca'' demo_scope demo_machine ActPub ''colca/v1/_Signal/n1/plant/line1/t''"
proof -
  have 1: "Entry_Validate demo_machine = None" by code_simp
  have 2: "eKind demo_machine \<noteq> KindLocal \<and> eGrants demo_machine = []"
    by (simp add: demo_machine_def zero_entry_def)
  have 3: "Authorize ''colca'' demo_scope demo_machine ActReadRecord ''colca/v1/_Signal/n1/plant/line1/t''"
    by code_simp
  show ?thesis using 1 2 3 registry_entry_rights [OF 1] by blast
qed

section \<open>The grant grammar\<close>

lemma split_n_3:
  "split_n 3 c s = (case cut_at c s of None \<Rightarrow> [s]
     | Some (a, b) \<Rightarrow> a # (case cut_at c b of None \<Rightarrow> [b] | Some (x, y) \<Rightarrow> [x, y]))"
  by (simp add: numeral_3_eq_3 split: option.split)

text \<open>How a zone is written, and that the parser reads it back.\<close>

definition zone_text :: "string \<Rightarrow> string" where
  "zone_text y = (if y = ''#'' then ''#'' else y @ ''/#'')"

lemma trim_suffix_append [simp]: "trim_suffix (y @ p) p = y"
  by (simp add: trim_suffix_def suffix_def)

lemma parseNodeZone_stable: "parseNodeZone z = Inr y \<Longrightarrow> parseNodeZone y = Inr y"
  by (auto simp: parseNodeZone_def NodeRelative_def NodeZone_def split: option.splits if_splits)

lemma parseZone_nonempty: "parseZone z = Inr y \<Longrightarrow> y \<noteq> ''''"
  by (auto simp: parseZone_def parseNodeZone_def NodeZone_def Let_def split: option.splits if_splits)

lemma parseZone_hash: "parseZone ''#'' = Inr ''#''"
  by (simp add: parseZone_def)

lemma parseZone_text:
  assumes "parseZone z = Inr y"
  shows "parseZone (zone_text y) = Inr y"
proof (cases "y = ''#''")
  case False
  have ne: "y \<noteq> ''''" by (rule parseZone_nonempty [OF assms])
  have "(prefix ''$'' y \<and> parseNodeZone y = Inr y) \<or> (\<not> prefix ''$'' y \<and> ValidElementID y)"
    using assms False
    by (auto simp: parseZone_def Let_def parseNodeZone_stable split: if_splits)
      (auto simp: parseNodeZone_def NodeZone_def split: option.splits if_splits)
  moreover have "y @ ''/#'' \<noteq> ''#''" using ne by simp
  ultimately show ?thesis
    using ne False unfolding parseZone_def zone_text_def Let_def by auto
qed (simp add: parseZone_hash zone_text_def)

lemma set_join: "set (join_with c xs) \<subseteq> insert c (\<Union> (set ` set xs))"
  by (induction c xs rule: join_with.induct) auto

lemma node_path_no_colon:
  assumes "\<not> list_ex (\<lambda>seg. seg = '''' \<or> contains_any seg ''+#:$'') (split_on CHR ''/'' path)"
  shows "CHR '':'' \<notin> set path"
proof -
  have "\<forall>seg \<in> set (split_on CHR ''/'' path). CHR '':'' \<notin> set seg"
    using assms by (auto simp: contains_any_iff)
  then show ?thesis
    using set_join [of "CHR ''/''" "split_on CHR ''/'' path"] by auto
qed

lemma parseNodeZone_no_colon:
  assumes "parseNodeZone z = Inr y"
  shows "CHR '':'' \<notin> set y"
proof (cases "y = NodeZone")
  case False
  obtain path where path: "NodeRelative z = Some path" "path \<noteq> ''''" "y = z"
    "\<not> list_ex (\<lambda>seg. seg = '''' \<or> contains_any seg ''+#:$'') (split_on CHR ''/'' path)"
    using assms False by (simp add: parseNodeZone_def split: option.splits if_splits)
  have "z = NodeZone @ ''/'' @ path"
    using path(1,2) by (auto simp: NodeRelative_def split: if_splits option.splits)
  then show ?thesis using node_path_no_colon [OF path(4)] path(3) by (simp add: NodeZone_def)
qed (simp add: NodeZone_def)

lemma parseZone_no_colon:
  assumes "parseZone z = Inr y"
  shows "CHR '':'' \<notin> set y"
  using assms parseNodeZone_no_colon [of "trim_suffix z ''/#''" y]
  by (auto simp: parseZone_def ValidElementID_def contains_any_iff Let_def split: if_splits)

lemma cmdClasses_shape: "c \<in> set cmdClasses \<Longrightarrow> c \<noteq> '''' \<and> CHR '','' \<notin> set c"
  by (auto simp: cmdClasses_def)

lemma join_classes:
  assumes "classes \<noteq> []" "set classes \<subseteq> set cmdClasses"
  shows "split_on CHR '','' (join_with CHR '','' classes) = classes" "join_with CHR '','' classes \<noteq> ''''"
proof -
  show *: "split_on CHR '','' (join_with CHR '','' classes) = classes"
    using assms cmdClasses_shape by (intro split_join) auto
  show "join_with CHR '','' classes \<noteq> ''''"
  proof
    assume "join_with CHR '','' classes = ''''"
    then have "classes = ['''']" using * by simp
    then show False using assms(2) cmdClasses_shape by force
  qed
qed

text \<open>The three shapes of a parsed grant.\<close>

lemma ParseGrant_cases:
  assumes "ParseGrant s = Inr g"
  obtains (zone) z verb where "verb \<in> {''read'', ''write''}" "parseZone z = Inr (gElement g)"
      "g = \<lparr>gVerb = verb, gElement = gElement g, gClasses = []\<rparr>"
  | (admin) "g = \<lparr>gVerb = ''admin'', gElement = ''#'', gClasses = []\<rparr>"
  | (cmd) z where "parseZone z = Inr (gElement g)" "gClasses g \<noteq> []"
      "set (gClasses g) \<subseteq> set cmdClasses" "gVerb g = ''cmd''"
  using assms
  by (auto simp: ParseGrant_def zone_grant_def Let_def find_None_iff subset_iff
      split: if_splits sum.splits option.splits)

lemma ParseGrant_zone:
  "CHR '':'' \<notin> set z \<Longrightarrow> verb \<in> {''read'', ''write''} \<Longrightarrow>
   ParseGrant (verb @ CHR '':'' # z) =
     (case parseZone z of Inl err \<Rightarrow> Inl err
      | Inr y \<Rightarrow> Inr \<lparr>gVerb = verb, gElement = y, gClasses = []\<rparr>)"
  by (auto simp: ParseGrant_def split_n_3 zone_grant_def Let_def)

lemma ParseGrant_cmd:
  assumes "CHR '':'' \<notin> set z" "parseZone z = Inr y" "classes \<noteq> []" "set classes \<subseteq> set cmdClasses"
  shows "ParseGrant (''cmd:'' @ z @ '':'' @ join_with CHR '','' classes) =
     Inr \<lparr>gVerb = ''cmd'', gElement = y, gClasses = classes\<rparr>"
proof -
  have "find (\<lambda>c. c \<notin> set cmdClasses) classes = None"
    using assms(4) by (auto simp: find_None_iff)
  then show ?thesis
    using assms(1,2) join_classes [OF assms(3,4)] by (simp add: ParseGrant_def split_n_3 Let_def)
qed

lemma zone_text_no_colon: "CHR '':'' \<notin> set y \<Longrightarrow> CHR '':'' \<notin> set (zone_text y)"
  by (simp add: zone_text_def)

lemma FormatGrant_zone:
  "gElement g \<noteq> '''' \<Longrightarrow> gVerb g \<in> {''read'', ''write''} \<Longrightarrow>
   FormatGrant g = Inr (gVerb g @ CHR '':'' # zone_text (gElement g))"
  by (auto simp: FormatGrant_def zone_text_def Let_def)

lemma FormatGrant_cmd:
  assumes "gElement g \<noteq> ''''" "gVerb g = ''cmd''" "gClasses g \<noteq> []" "set (gClasses g) \<subseteq> set cmdClasses"
  shows "FormatGrant g =
    Inr (''cmd:'' @ zone_text (gElement g) @ '':'' @ join_with CHR '','' (sort (gClasses g)))"
proof -
  have "find (\<lambda>c. c \<notin> set cmdClasses) (sort (gClasses g)) = None"
    using assms(4) by (auto simp: find_None_iff)
  then show ?thesis using assms(1-3) by (simp add: FormatGrant_def zone_text_def Let_def)
qed

text \<open>C14: Grants round trip through their text up to the order of their classes: every grant the parser
  accepts is printed by \<^verbatim>\<open>FormatGrant\<close>, and parsing that text gives the grant back with its classes
  sorted, so the printed form of a grant is canonical.\<close>

theorem grant_round_trip:
  assumes "ParseGrant s = Inr g"
  shows "\<exists>t. FormatGrant g = Inr t \<and> ParseGrant t = Inr (g\<lparr>gClasses := sort (gClasses g)\<rparr>)"
  using assms
proof (cases rule: ParseGrant_cases)
  case (zone z verb)
  have "gElement g \<noteq> ''''" "CHR '':'' \<notin> set (zone_text (gElement g))"
    using zone(2) parseZone_nonempty parseZone_no_colon zone_text_no_colon by blast+
  moreover have "gVerb g = verb" "gClasses g = []" using zone(3) by (metis Grant.select_convs)+
  ultimately show ?thesis
    using zone(1) parseZone_text [OF zone(2)]
    by (intro exI [of _ "verb @ CHR '':'' # zone_text (gElement g)"])
      (auto simp: FormatGrant_zone ParseGrant_zone)
next
  case admin
  have "ParseGrant ''admin:#'' = Inr g" unfolding admin by code_simp
  then show ?thesis by (simp add: FormatGrant_def admin)
next
  case (cmd z)
  have "gElement g \<noteq> ''''" "CHR '':'' \<notin> set (zone_text (gElement g))"
    using cmd(1) parseZone_nonempty parseZone_no_colon zone_text_no_colon by blast+
  then show ?thesis
    using cmd(2-4) ParseGrant_cmd [of "zone_text (gElement g)" "gElement g" "sort (gClasses g)"]
      parseZone_text [OF cmd(1)]
    by (simp add: FormatGrant_cmd set_empty [symmetric] del: set_empty)
qed

theorem grant_round_trip_witness:
  "\<exists>t. FormatGrant \<lparr>gVerb = ''cmd'', gElement = ''e1'', gClasses = [''param'', ''operate'']\<rparr> = Inr t \<and>
     ParseGrant t = Inr \<lparr>gVerb = ''cmd'', gElement = ''e1'', gClasses = [''operate'', ''param'']\<rparr>"
proof -
  let ?g = "\<lparr>gVerb = ''cmd'', gElement = ''e1'', gClasses = [''param'', ''operate'']\<rparr>"
  have 1: "ParseGrant ''cmd:e1:param,operate'' = Inr ?g" by code_simp
  have "?g\<lparr>gClasses := sort (gClasses ?g)\<rparr> =
      \<lparr>gVerb = ''cmd'', gElement = ''e1'', gClasses = [''operate'', ''param'']\<rparr>" by code_simp
  then show ?thesis using grant_round_trip [OF 1] by simp
qed

text \<open>The comment on \<^verbatim>\<open>FormatGrant\<close> says that parsing a formatted grant gives the same grant; for a
  command grant whose classes are not sorted it gives another value.\<close>

lemma grant_round_trip_not_identity:
  "ParseGrant ''cmd:e1/#:param,operate'' = Inr g \<Longrightarrow> FormatGrant g = Inr t \<Longrightarrow> ParseGrant t \<noteq> Inr g"
proof -
  assume g: "ParseGrant ''cmd:e1/#:param,operate'' = Inr g" and t: "FormatGrant g = Inr t"
  have "ParseGrant ''cmd:e1/#:param,operate'' =
      Inr \<lparr>gVerb = ''cmd'', gElement = ''e1'', gClasses = [''param'', ''operate'']\<rparr>" by code_simp
  with g have g': "g = \<lparr>gVerb = ''cmd'', gElement = ''e1'', gClasses = [''param'', ''operate'']\<rparr>" by simp
  have "FormatGrant \<lparr>gVerb = ''cmd'', gElement = ''e1'', gClasses = [''param'', ''operate'']\<rparr> =
      Inr ''cmd:e1/#:operate,param''" by code_simp
  with t g' have t': "t = ''cmd:e1/#:operate,param''" by simp
  have "ParseGrant ''cmd:e1/#:operate,param'' =
      Inr \<lparr>gVerb = ''cmd'', gElement = ''e1'', gClasses = [''operate'', ''param'']\<rparr>" by code_simp
  then show ?thesis using g' t' by simp
qed

end
