(* ===== verification/Uns_Command.thy ===== *)
theory Uns_Command
  imports Uns_Authz
begin

text \<open>
  Commands and the cursors of identities (\<^verbatim>\<open>plugins/uns/redelivery.go\<close> and the command part of
  \<^verbatim>\<open>uns.go\<close>): deadlines, which commands a machine is still owed, who may move or retire a cursor,
  and the target a stored command is filed under.
\<close>

section \<open>Deadlines\<close>

text \<open>\<^verbatim>\<open>int64(f)\<close>. Go leaves the result open when the value does not fit: \<^verbatim>\<open>oor\<close> is what the
  platform answers then.\<close>

definition int64_of_float :: "int \<Rightarrow> string \<Rightarrow> int" where
  "int64_of_float oor lit =
     (let i = float_int lit in if - (2 ^ 63) \<le> i \<and> i < 2 ^ 63 then i else oor)"

definition CommandDeadline :: "int \<Rightarrow> bytes \<Rightarrow> int option" where
  "CommandDeadline oor payload =
     (case unmarshal_doc payload of
        None \<Rightarrow> None
      | Some doc \<Rightarrow>
          (case field_ptr as_float ''expires_at'' doc of
             Some (Some lit) \<Rightarrow> Some (int64_of_float oor lit)
           | _ \<Rightarrow> None))"

definition CommandStillLive :: "int \<Rightarrow> bytes \<Rightarrow> int \<Rightarrow> bool" where
  "CommandStillLive oor payload nowMS =
     (case CommandDeadline oor payload of None \<Rightarrow> True | Some deadline \<Rightarrow> deadline \<ge> nowMS)"

definition CommandWantsProgress :: "bytes \<Rightarrow> bool" where
  "CommandWantsProgress payload =
     (case unmarshal_doc payload of
        None \<Rightarrow> False
      | Some doc \<Rightarrow> (case field as_bool False ''progress'' doc of Some b \<Rightarrow> b | None \<Rightarrow> False))"

section \<open>Redelivery and cursors\<close>

definition OwedCommand :: "int \<Rightarrow> string \<Rightarrow> bytes \<Rightarrow> string \<Rightarrow> int \<Rightarrow> bool" where
  "OwedCommand oor topic payload ulid nowMS =
     (if ulid = '''' then False
      else case Parse topic of
        Inl _ \<Rightarrow> False
      | Inr p \<Rightarrow>
          if \<not> IsCommand (ClassOf (pContract p)) then False
          else if pNodeID p \<noteq> ulid then False
          else CommandStillLive oor payload nowMS)"

definition commandCursorSuffix :: string where "commandCursorSuffix = ''cmd''"

definition CommandCursor :: "Entry \<Rightarrow> string" where
  "CommandCursor e = CursorPrefix e @ commandCursorSuffix"

definition OwnsCursor :: "Entry option \<Rightarrow> string \<Rightarrow> bool" where
  "OwnsCursor e cursor =
     (case e of
        None \<Rightarrow> False
      | Some e \<Rightarrow> if \<not> has_prefix cursor (CursorPrefix e) then False else cursor \<noteq> CommandCursor e)"

definition SystemConsumers :: "string list" where "SystemConsumers = [''historian'']"

definition identityCursor :: "string \<Rightarrow> bool" where
  "identityCursor cursor =
     (if list_ex (\<lambda>name. has_prefix cursor (LocalCursorPrefix @ name @ ''/'')) SystemConsumers then False
      else case cut_at CHR ''/'' (trim_prefix cursor LocalCursorPrefix) of
        None \<Rightarrow> False
      | Some (pre, rest) \<Rightarrow>
          pre \<noteq> '''' \<and> rest \<noteq> '''' \<and> rest \<noteq> commandCursorSuffix \<and> \<not> contains_str pre '':'')"

definition MayRetireCursor :: "Scope option \<Rightarrow> Entry option \<Rightarrow> string \<Rightarrow> bool" where
  "MayRetireCursor sc e cursor =
     (case e of
        None \<Rightarrow> False
      | Some e' \<Rightarrow>
          if \<not> identityCursor cursor then False
          else list_ex (\<lambda>g. case ParseGrant g of
              Inl _ \<Rightarrow> False
            | Inr pg \<Rightarrow>
                if gVerb pg \<noteq> ''cmd'' then False
                else case grantZone sc e (gElement pg) of
                  None \<Rightarrow> False
                | Some zone \<Rightarrow> zone = ''#'' \<and> ''admin'' \<in> set (gClasses pg)) (eGrants e'))"

text \<open>The loop over \<^verbatim>\<open>seg\<close>: cut \<^verbatim>\<open>n\<close> segments off the front.\<close>

fun cut_segments :: "nat \<Rightarrow> string \<Rightarrow> (string list \<times> string) option" where
  "cut_segments 0 rest = Some ([], rest)"
| "cut_segments (Suc n) rest =
     (case cut_at CHR ''/'' rest of
        None \<Rightarrow> None
      | Some (a, b) \<Rightarrow> (case cut_segments n b of None \<Rightarrow> None | Some (segs, r) \<Rightarrow> Some (a # segs, r)))"

definition CommandTarget :: "string \<Rightarrow> string option" where
  "CommandTarget topic =
     (if length topic > MaxTopicBytes then None
      else case cut_segments 4 topic of
        None \<Rightarrow> None
      | Some (seg, _) \<Rightarrow>
          if \<not> has_prefix (seg ! 2) ''_'' \<or> seg ! 3 = '''' \<or> \<not> IsCommand (ClassOf (seg ! 2))
          then None else Some (seg ! 3))"

section \<open>The target of a command\<close>

lemma cut_segments_Some:
  "cut_segments n s = Some (segs, rest) \<Longrightarrow>
   length segs = n \<and> split_on CHR ''/'' s = segs @ split_on CHR ''/'' rest"
proof (induction n s arbitrary: segs rest rule: cut_segments.induct)
  case (2 n s)
  then show ?case by (auto simp: split_on_append split: option.splits)
qed simp

lemma cut_segments_None: "cut_segments n s = None \<Longrightarrow> length (split_on CHR ''/'' s) \<le> n"
proof (induction n s rule: cut_segments.induct)
  case (2 n s)
  then show ?case by (auto simp: split_on_append split: option.splits)
qed simp

text \<open>C24: \<^verbatim>\<open>CommandTarget\<close>, which reads only the first levels of a topic in place, answers as the grammar
  and the contract classes do: it names a target exactly for a topic that parses as a command with a
  node id, and that node id is the target.\<close>

theorem CommandTarget_is_parse:
  "CommandTarget topic =
     (case Parse topic of
        Inl _ \<Rightarrow> None
      | Inr p \<Rightarrow> if IsCommand (ClassOf (pContract p)) \<and> pNodeID p \<noteq> '''' then Some (pNodeID p) else None)"
proof (cases "length topic > MaxTopicBytes")
  case False
  show ?thesis
  proof (cases "cut_segments 4 topic")
    case None
    then show ?thesis
      using cut_segments_None [OF None] by (simp add: CommandTarget_def Parse_def Let_def)
  next
    case (Some sr)
    obtain seg rest where sr: "cut_segments 4 topic = Some (seg, rest)" using Some by (cases sr) auto
    have split: "length seg = 4" "split_on CHR ''/'' topic = seg @ split_on CHR ''/'' rest"
      using cut_segments_Some [OF sr] by auto
    then have nth: "split_on CHR ''/'' topic ! i = seg ! i" if "i < 4" for i
      using that by (simp add: nth_append)
    have "5 \<le> length (split_on CHR ''/'' topic)"
      using split by (cases "split_on CHR ''/'' rest") auto
    then show ?thesis
      using False sr nth [of 2] nth [of 3] by (auto simp: CommandTarget_def Parse_def Let_def)
  qed
qed (simp add: CommandTarget_def Parse_def)

section \<open>Cursors of distinct identities\<close>

lemma prefix_two_segments:
  assumes "prefix (a @ ''/'') s" "prefix (b @ ''/'') s" "slash_free a" "slash_free b"
  shows "a = b"
proof -
  obtain x where x: "s = a @ CHR ''/'' # x" using assms(1) by (auto simp: prefix_def)
  obtain y where y: "s = b @ CHR ''/'' # y" using assms(2) by (auto simp: prefix_def)
  have "cut_at CHR ''/'' (a @ CHR ''/'' # x) = cut_at CHR ''/'' (b @ CHR ''/'' # y)"
    using x y by simp
  then show ?thesis using assms(3,4) by (simp del: cut_at_Some)
qed

text \<open>Identities of one registry: ulids and the names of local services are unique, a local name is one
  topic segment (\<^verbatim>\<open>Entry.Validate\<close>), and a ulid is one segment other than \<^verbatim>\<open>c\<close>.\<close>

definition identities_apart :: "Entry \<Rightarrow> Entry \<Rightarrow> bool" where
  "identities_apart a b \<longleftrightarrow>
     eULID a \<noteq> eULID b \<and> (eKind a = KindLocal \<and> eKind b = KindLocal \<longrightarrow> eName a \<noteq> eName b) \<and>
     slash_free (eULID a) \<and> slash_free (eULID b) \<and> eULID a \<noteq> ''c'' \<and> eULID b \<noteq> ''c''"

lemma Entry_Validate_name:
  "Entry_Validate e = None \<Longrightarrow> eKind e = KindLocal \<Longrightarrow> slash_free (eName e)"
  by (auto simp: Entry_Validate_def validate_kind_def contains_any_iff split: option.splits if_splits)

text \<open>C25: Identities with well-shaped ulids share no cursor. Of two validated registry entries with different
  ulids and, for local services, different names, whose ulids are single segments other than the letter of
  the local namespace - a shape \<^verbatim>\<open>Entry.Validate\<close> does not enforce, see below - at most one owns any given
  cursor; and no such identity owns its own delivery floor, which only the node may move.\<close>

theorem cursor_owners_disjoint:
  assumes "Entry_Validate a = None" "Entry_Validate b = None" "identities_apart a b"
  shows "\<not> (OwnsCursor (Some a) cursor \<and> OwnsCursor (Some b) cursor) \<and>
    \<not> OwnsCursor (Some a) (CommandCursor a)"
proof -
  have "\<not> (prefix (CursorPrefix a) cursor \<and> prefix (CursorPrefix b) cursor)"
  proof
    assume p: "prefix (CursorPrefix a) cursor \<and> prefix (CursorPrefix b) cursor"
    have local: "prefix (''c'' @ ''/'') cursor \<and>
        (\<exists>r. cursor = ''c/'' @ r \<and> prefix (eName e @ ''/'') r)"
      if "prefix (CursorPrefix e) cursor" "eKind e = KindLocal" for e
      using that by (auto simp: CursorPrefix_def LocalCursorPrefix_def prefix_def)
    have keyed: "prefix (eULID e @ ''/'') cursor"
      if "prefix (CursorPrefix e) cursor" "eKind e \<noteq> KindLocal" for e
      using that by (simp add: CursorPrefix_def)
    show False
      using p assms local [of a] local [of b] keyed [of a] keyed [of b]
        Entry_Validate_name [OF assms(1)] Entry_Validate_name [OF assms(2)]
        prefix_two_segments [of "eULID a" cursor "eULID b"]
        prefix_two_segments [of "eULID a" cursor "''c''"]
        prefix_two_segments [of "''c''" cursor "eULID b"]
        prefix_two_segments [of "eName a" _ "eName b"]
      unfolding identities_apart_def
      by (cases "eKind a = KindLocal"; cases "eKind b = KindLocal") auto
  qed
  then show ?thesis by (simp add: OwnsCursor_def)
qed

definition demo_service :: Entry where
  "demo_service = zero_entry\<lparr>eULID := ''s1'', eKind := KindLocal, eName := ''historian''\<rparr>"

theorem cursor_owners_disjoint_witness:
  "OwnsCursor (Some demo_service) ''c/historian/metrics'' \<and>
   \<not> OwnsCursor (Some demo_machine) ''c/historian/metrics''"
proof -
  have 1: "Entry_Validate demo_service = None" by code_simp
  have 2: "Entry_Validate demo_machine = None" by code_simp
  have 3: "identities_apart demo_service demo_machine" by code_simp
  have 4: "OwnsCursor (Some demo_service) ''c/historian/metrics''" by code_simp
  show ?thesis using 4 cursor_owners_disjoint [OF 1 2 3] by blast
qed

text \<open>The condition on ulids is needed: \<^verbatim>\<open>Entry.Validate\<close> accepts any non-empty ulid, and one of two
  segments reaches into the namespace of a local service.\<close>

lemma cursor_namespace_reached:
  "Entry_Validate (demo_machine\<lparr>eULID := ''c/historian''\<rparr>) = None \<and>
   OwnsCursor (Some (demo_machine\<lparr>eULID := ''c/historian''\<rparr>)) ''c/historian/metrics'' \<and>
   OwnsCursor (Some demo_service) ''c/historian/metrics''"
  by code_simp

end
