(* ===== verification/Uns_Signal.thy ===== *)
theory Uns_Signal
  imports Uns_Topic Colca_Json
begin

text \<open>
  What a signal decides of its samples (\<^verbatim>\<open>plugins/uns/replication_policy.go\<close> and
  \<^verbatim>\<open>MetricSignalID\<close> of \<^verbatim>\<open>uns.go\<close>): the store asks these under its write lock.
\<close>

definition MetricSignalID :: "string \<Rightarrow> bytes \<Rightarrow> string" where
  "MetricSignalID topic payload =
     (case Parse topic of
        Inl _ \<Rightarrow> ''''
      | Inr p \<Rightarrow>
          if \<not> IsMetric (pContract p) then ''''
          else case unmarshal_doc payload of
            None \<Rightarrow> ''''
          | Some doc \<Rightarrow> (case field as_string '''' ''signal_id'' doc of Some i \<Rightarrow> i | None \<Rightarrow> ''''))"

definition MetricSignalKey :: "string \<Rightarrow> string \<Rightarrow> (string \<times> string \<times> string) option" where
  "MetricSignalKey rt topic =
     (case Parse topic of
        Inl _ \<Rightarrow> None
      | Inr p \<Rightarrow>
          if \<not> IsMetric (pContract p) then None
          else Some (pPath p, pNodeID p, SignalTopicForMetric rt p))"

definition DecidesReplication :: "string \<Rightarrow> bool" where
  "DecidesReplication topic =
     (case Parse topic of Inl _ \<Rightarrow> False | Inr p \<Rightarrow> pContract p = ''_Signal'')"

datatype policy_error = PolicyPayload | InvalidPolicy string

definition SignalSourceLocalOnly :: "bytes \<Rightarrow> policy_error + bool" where
  "SignalSourceLocalOnly signal =
     (case unmarshal_doc signal of
        None \<Rightarrow> Inl PolicyPayload
      | Some doc \<Rightarrow>
          (case field_ptr as_string ''replication_policy'' doc of
             None \<Rightarrow> Inl PolicyPayload
           | Some None \<Rightarrow> Inr False
           | Some (Some policy) \<Rightarrow>
               if policy = ''replicate_to_parents'' then Inr False
               else if policy = ''source_local_only'' then Inr True
               else Inl (InvalidPolicy policy)))"

text \<open>A record that writes the entry deciding on some metric decides replication, as long as its own
  topic is one of the grammar.\<close>

lemma MetricSignalKey_decides:
  assumes "MetricSignalKey rt t = Some (path, node, topic)" "Parse topic = Inr p" "slash_free rt"
  shows "DecidesReplication topic"
proof -
  obtain q where q: "Parse t = Inr q" "topic = SignalTopicForMetric rt q"
    using assms(1) by (auto simp: MetricSignalKey_def split: sum.splits if_splits)
  have "slash_free (pNodeID q)" using q(1) by (simp add: Parse_Inr_iff)
  moreover have "topic = topic_of rt Version ''_Signal'' (pNodeID q) (pPath q)"
    using q(2) by (simp add: SignalTopicForMetric_def Prefix_def topic_of_def)
  moreover have "slash_free Version" by (simp add: Version_def)
  ultimately have "pContract p = ''_Signal''"
    using assms(2,3) Parse_topic_of [of rt Version "''_Signal''" "pNodeID q" "pPath q"]
    by (auto split: if_splits)
  then show ?thesis using assms(2) by (simp add: DecidesReplication_def)
qed

end
