(* ===== verification/Store_Types.thy ===== *)
theory Store_Types
  imports Uns_Command Uns_Signal
begin

text \<open>
  The records of the durable store (\<^verbatim>\<open>internal/store/store.go\<close>), their encoded form and what it
  weighs. Payloads are Go byte slices, where nil and empty differ in the encoding, so they are
  \<^typ>\<open>bytes option\<close>. A stored value is kept as the structure it encodes; \<^verbatim>\<open>marshal_rec\<close> is the text
  \<^verbatim>\<open>json.Marshal\<close> writes for it, whose length the byte accounting counts. Offsets are \<^typ>\<open>nat\<close>: a
  stream would need 2 to the 64th appends to wrap its \<^verbatim>\<open>uint64\<close> counter.
\<close>

section \<open>Records\<close>

type_synonym slice = "bytes option"

definition slice_bytes :: "slice \<Rightarrow> bytes" where
  "slice_bytes p = (case p of None \<Rightarrow> [] | Some b \<Rightarrow> b)"

record Record =
  rSourceLocalOnly :: bool
  rTopic :: string
  rPayload :: slice
  rTS :: int
  rWrittenBy :: string
  rOriginOffset :: nat
  rActorID :: string
  rActorLabel :: string
  rActorKind :: string
  rActorGroups :: "string list"
  rActorClient :: string
  rActorEmail :: string
  rActorClasses :: "string list"
  rActorCredential :: string
  rDoor :: string
  rKVPath :: string
  rKVNode :: string
  rDelete :: bool

definition zero_record :: Record where
  "zero_record = \<lparr>rSourceLocalOnly = False, rTopic = '''', rPayload = None, rTS = 0, rWrittenBy = '''',
     rOriginOffset = 0, rActorID = '''', rActorLabel = '''', rActorKind = '''', rActorGroups = [],
     rActorClient = '''', rActorEmail = '''', rActorClasses = [], rActorCredential = '''', rDoor = '''',
     rKVPath = '''', rKVNode = '''', rDelete = False\<rparr>"

record recEnc =
  xSourceLocalOnly :: bool
  xTopic :: string
  xPayload :: slice
  xTS :: int
  xWrittenBy :: string
  xOriginOffset :: nat
  xActorID :: string
  xActorLabel :: string
  xActorKind :: string
  xActorGroups :: "string list"
  xActorClient :: string
  xActorEmail :: string
  xActorClasses :: "string list"
  xActorCredential :: string
  xDoor :: string
  xSignalID :: string

record kvEnc =
  vTopic :: string
  vPayload :: slice
  vTS :: int
  vOffset :: nat
  vOriginOffset :: nat
  vWrittenBy :: string
  vActorID :: string
  vActorLabel :: string
  vActorKind :: string

record StoredRecord =
  oSourceLocalOnly :: bool
  oOffset :: nat
  oOriginOffset :: nat
  oTopic :: string
  oPayload :: slice
  oTS :: int
  oWrittenBy :: string
  oActorID :: string
  oActorLabel :: string
  oActorKind :: string
  oActorGroups :: "string list"
  oActorClient :: string
  oActorEmail :: string
  oActorClasses :: "string list"
  oActorCredential :: string
  oDoor :: string
  oSignalID :: string

record KVEntry =
  tPath :: string
  tNodeID :: string
  tTopic :: string
  tPayload :: slice
  tTS :: int
  tOffset :: nat
  tOriginOffset :: nat
  tWrittenBy :: string
  tActorID :: string
  tActorLabel :: string
  tActorKind :: string

record ReplRecord =
  qSkipFrom :: nat
  qChildOffset :: nat
  qOriginOffset :: nat
  qTopic :: string
  qPayload :: slice
  qTS :: int
  qWrittenBy :: string
  qActorID :: string
  qActorLabel :: string
  qActorKind :: string
  qActorGroups :: "string list"
  qActorClient :: string
  qActorEmail :: string
  qActorClasses :: "string list"
  qActorCredential :: string
  qKVPath :: string
  qKVNode :: string
  qDelete :: bool

definition originOffset :: "nat \<Rightarrow> nat \<Rightarrow> nat" where
  "originOffset origin local = (if origin \<noteq> 0 then origin else local)"

definition storedRecord :: "nat \<Rightarrow> recEnc \<Rightarrow> StoredRecord" where
  "storedRecord off e =
     \<lparr>oSourceLocalOnly = xSourceLocalOnly e, oOffset = off,
      oOriginOffset = originOffset (xOriginOffset e) off, oTopic = xTopic e, oPayload = xPayload e,
      oTS = xTS e, oWrittenBy = xWrittenBy e, oActorID = xActorID e, oActorLabel = xActorLabel e,
      oActorKind = xActorKind e, oActorGroups = xActorGroups e, oActorClient = xActorClient e,
      oActorEmail = xActorEmail e, oActorClasses = xActorClasses e,
      oActorCredential = xActorCredential e, oDoor = xDoor e, oSignalID = xSignalID e\<rparr>"

definition decodeKVEntry :: "string \<Rightarrow> string \<Rightarrow> kvEnc \<Rightarrow> KVEntry" where
  "decodeKVEntry path node e =
     \<lparr>tPath = path, tNodeID = node, tTopic = vTopic e, tPayload = vPayload e, tTS = vTS e,
      tOffset = vOffset e, tOriginOffset = originOffset (vOriginOffset e) (vOffset e),
      tWrittenBy = vWrittenBy e, tActorID = vActorID e, tActorLabel = vActorLabel e,
      tActorKind = vActorKind e\<rparr>"

section \<open>The encoded form\<close>

text \<open>\<^verbatim>\<open>encoding/json\<close> writes a string with HTML escaping on: quotes, backslashes and control bytes are
  escaped, \<^verbatim>\<open><\<close>, \<^verbatim>\<open>>\<close> and \<^verbatim>\<open>&\<close> too, as are U+2028 and U+2029, and a byte that is no UTF-8
  becomes the escape of U+FFFD.\<close>

definition quote_char :: char where "quote_char = CHR 0x22"

definition backslash :: char where "backslash = CHR 0x5C"

definition hex_char :: "nat \<Rightarrow> char" where
  "hex_char n = (if n < 10 then char_of (48 + n) else char_of (87 + n))"

definition escape_byte :: "char \<Rightarrow> string" where
  "escape_byte c =
     (if c = quote_char \<or> c = backslash then [backslash, c]
      else if byte c = 8 then [backslash, CHR ''b'']
      else if byte c = 12 then [backslash, CHR ''f'']
      else if byte c = 10 then [backslash, CHR ''n'']
      else if byte c = 13 then [backslash, CHR ''r'']
      else if byte c = 9 then [backslash, CHR ''t'']
      else if byte c < 32 \<or> c = CHR ''<'' \<or> c = CHR ''>'' \<or> c = CHR ''&''
        then [backslash, CHR ''u'', CHR ''0'', CHR ''0'', hex_char (byte c div 16), hex_char (byte c mod 16)]
      else [c])"

function quote_body :: "string \<Rightarrow> string" where
  "quote_body s =
     (case s of
        [] \<Rightarrow> []
      | c # cs \<Rightarrow>
          if byte c < 128 then escape_byte c @ quote_body cs
          else if rune_width s = 0 then [backslash] @ ''ufffd'' @ quote_body cs
          else if take 3 s = [CHR 0xE2, CHR 0x80, CHR 0xA8] then [backslash] @ ''u2028'' @ quote_body (drop 3 s)
          else if take 3 s = [CHR 0xE2, CHR 0x80, CHR 0xA9] then [backslash] @ ''u2029'' @ quote_body (drop 3 s)
          else take (rune_width s) s @ quote_body (drop (rune_width s) s))"
  by pat_completeness auto
termination
  by (relation "measure length") auto

declare quote_body.simps [simp del]

definition json_quote :: "string \<Rightarrow> string" where
  "json_quote s = quote_char # quote_body s @ [quote_char]"

text \<open>Standard base64, the encoding of a byte slice.\<close>

definition base64_char :: "nat \<Rightarrow> char" where
  "base64_char n =
     (if n < 26 then char_of (65 + n) else if n < 52 then char_of (71 + n)
      else if n < 62 then char_of (n - 4) else if n = 62 then CHR ''+'' else CHR ''/'')"

fun base64 :: "bytes \<Rightarrow> string" where
  "base64 [] = []"
| "base64 [a] = [base64_char (byte a div 4), base64_char (byte a mod 4 * 16), CHR ''='', CHR ''='']"
| "base64 [a, b] = [base64_char (byte a div 4), base64_char (byte a mod 4 * 16 + byte b div 16),
     base64_char (byte b mod 16 * 4), CHR ''='']"
| "base64 (a # b # c # s) =
     [base64_char (byte a div 4), base64_char (byte a mod 4 * 16 + byte b div 16),
      base64_char (byte b mod 16 * 4 + byte c div 64), base64_char (byte c mod 64)] @ base64 s"

fun dec_digits :: "nat \<Rightarrow> string" where
  "dec_digits n = (if n < 10 then [char_of (48 + n)] else dec_digits (n div 10) @ [char_of (48 + n mod 10)])"

declare dec_digits.simps [simp del]

definition json_int :: "int \<Rightarrow> string" where
  "json_int i = (if i < 0 then CHR ''-'' # dec_digits (nat (- i)) else dec_digits (nat i))"

definition json_slice :: "slice \<Rightarrow> string" where
  "json_slice p = (case p of None \<Rightarrow> ''null'' | Some b \<Rightarrow> quote_char # base64 b @ [quote_char])"

definition json_strings :: "string list \<Rightarrow> string" where
  "json_strings xs = ''['' @ join_with CHR '','' (map json_quote xs) @ '']''"

text \<open>The fields of an object: \<^term>\<open>None\<close> is a field \<^verbatim>\<open>omitempty\<close> drops.\<close>

definition json_object :: "(string \<times> string option) list \<Rightarrow> string" where
  "json_object fs =
     ''{'' @ join_with CHR '','' (List.map_filter (\<lambda>(k, v). map_option (\<lambda>v. json_quote k @ '':'' @ v) v) fs) @ ''}''"

definition str_field :: "string \<Rightarrow> string option" where
  "str_field s = (if s = '''' then None else Some (json_quote s))"

definition strs_field :: "string list \<Rightarrow> string option" where
  "strs_field xs = (if xs = [] then None else Some (json_strings xs))"

definition nat_field :: "nat \<Rightarrow> string option" where
  "nat_field n = (if n = 0 then None else Some (dec_digits n))"

definition marshal_rec :: "recEnc \<Rightarrow> string" where
  "marshal_rec e = json_object
     [(''slo'', if xSourceLocalOnly e then Some ''true'' else None),
      (''t'', Some (json_quote (xTopic e))), (''p'', Some (json_slice (xPayload e))),
      (''ts'', Some (json_int (xTS e))), (''wb'', str_field (xWrittenBy e)),
      (''oo'', nat_field (xOriginOffset e)), (''aid'', str_field (xActorID e)),
      (''al'', str_field (xActorLabel e)), (''ak'', str_field (xActorKind e)),
      (''ag'', strs_field (xActorGroups e)), (''ac'', str_field (xActorClient e)),
      (''ae'', str_field (xActorEmail e)), (''acs'', strs_field (xActorClasses e)),
      (''acr'', str_field (xActorCredential e)), (''door'', str_field (xDoor e)),
      (''sid'', str_field (xSignalID e))]"

text \<open>\<^verbatim>\<open>len(key) + len(value)\<close> of a stream record: the key is two bytes, the stream, a separator and
  eight bytes of offset.\<close>

definition rec_size :: "string \<Rightarrow> recEnc \<Rightarrow> nat" where
  "rec_size stream e = (2 + length stream + 1 + 8) + length (marshal_rec e)"

end
