(* ===== verification/Store_Core.thy ===== *)
theory Store_Core
  imports Store_Types
begin

text \<open>
  The durable store and its appends (\<^verbatim>\<open>internal/store\<close>: \<^verbatim>\<open>store.go\<close>, \<^verbatim>\<open>appendgroup.go\<close>,
  \<^verbatim>\<open>groupcommit.go\<close>, \<^verbatim>\<open>kvindex.go\<close>, \<^verbatim>\<open>replication_policy.go\<close>, \<^verbatim>\<open>changes.go\<close>). The database is a
  \<^verbatim>\<open>Disk\<close>: one field per key family of \<^verbatim>\<open>keys.go\<close>. A \<^verbatim>\<open>Store\<close> is the disk with the state the
  process keeps in memory. A batch is the disk it will leave behind, built from the current one and
  put in place only when the apply succeeds, so an operation takes \<^verbatim>\<open>ok\<close>, whether the synced apply
  of its batch succeeds, and \<^verbatim>\<open>now\<close>, the wall clock in milliseconds, as arguments. What an operation
  does under the store's mutex is one step.
\<close>

section \<open>State\<close>

type_synonym kvkey = "string \<times> string \<times> string"

record PruneSpan =
  jFrom :: nat
  jTo :: nat
  jFirstTS :: int
  jLastTS :: int
  jCoalesced :: bool
  jShed :: nat

record IncarnationChange =
  icPrevious :: string
  icReason :: string
  icAtMS :: int

record SetAsideRecord =
  aaParent :: string
  aaStream :: string
  aaOffset :: nat
  aaRecord :: StoredRecord
  aaStatus :: int
  aaReason :: string
  aaHeldSinceMS :: int
  aaAtMS :: int

text \<open>How far the recovery of the contract index came: the stream heads it is valid for, its phase and
  the last key of that phase it repaired.\<close>

record kvIndexRecovery =
  kvHeads :: "nat list"
  kvPhase :: nat
  kvAfter :: "(string \<times> kvkey) option"

record Disk =
  dRecs :: "string \<Rightarrow> nat \<rightharpoonup> recEnc"
  dMeta :: "string \<rightharpoonup> nat"
  dIndexed :: "string \<rightharpoonup> nat"
  dLWM :: "string \<rightharpoonup> nat"
  dBytes :: "string \<rightharpoonup> nat"
  dKV :: "(kvkey, kvEnc) table"
  dKVIndex :: "(string \<times> kvkey) set"
  dSig :: "(string \<times> string \<times> nat) set"
  dTarget :: "(string \<times> string \<times> nat) set"
  dCursor :: "(string \<times> string, nat) table"
  dCT :: "(string \<times> string, int) table"
  dHWM :: "(string \<times> string, nat) table"
  dChildStore :: "string \<rightharpoonup> string"
  dJournal :: "string \<Rightarrow> (nat, PruneSpan) table"
  dRefresh :: "string \<rightharpoonup> nat \<times> nat"
  dStoreID :: "string option"
  dIncarnation :: "IncarnationChange option"
  dParentState :: "string \<rightharpoonup> bytes"
  dAcked :: "(string \<times> string, nat) table"
  dSetAside :: "(string \<times> string \<times> nat, SetAsideRecord) table"
  dSigFrom :: "string \<rightharpoonup> nat"
  dTargetFrom :: "string \<rightharpoonup> nat"
  dLegacySig :: "nat list option"
  dLegacyKV :: "nat list option"
  dKVRecovery :: "kvIndexRecovery option"

record Store =
  sDisk :: Disk
  sNext :: "string \<Rightarrow> nat"
  sLWM :: "string \<Rightarrow> nat"
  sBytes :: "string \<Rightarrow> nat"
  sHoles :: "string \<Rightarrow> nat"
  sHeads :: "string \<Rightarrow> string \<Rightarrow> nat"
  sHWMs :: "string \<times> string \<rightharpoonup> nat"
  sAdopted :: "string \<rightharpoonup> string"
  sPolicies :: "(kvkey, kvEnc \<times> bool) table"
  sSigFrom :: "string \<Rightarrow> nat"
  sTargetFrom :: "string \<Rightarrow> nat"
  sMaxRecordBytes :: nat
  sID :: string
  sIDMinted :: bool

definition streams :: "string list" where
  "streams = [''metrics'', ''entities'', ''commands'', ''definitions'', ''audit'', ''alarms'', ''annotations'', ''logs'']"

datatype store_error = UnknownStream string | RecordTooLarge nat | PolicyFailed policy_error | ApplyFailed
  | NoProjection | BadSkipRange | ConcurrentRemoval | BeyondNext nat

section \<open>One record in a batch\<close>

definition contractOf :: "string \<Rightarrow> string option" where
  "contractOf topic =
     (case Parse topic of Inl _ \<Rightarrow> None
      | Inr p \<Rightarrow> if pContract p = '''' then None else Some (pContract p))"

definition setKV :: "kvkey \<Rightarrow> kvEnc \<Rightarrow> Disk \<Rightarrow> Disk" where
  "setKV k v b =
     b\<lparr>dKV := tput k v (dKV b),
       dKVIndex := (case contractOf (snd (snd k)) of
          Some c \<Rightarrow> insert (c, k) (dKVIndex b) | None \<Rightarrow> dKVIndex b)\<rparr>"

definition deleteKV :: "kvkey \<Rightarrow> Disk \<Rightarrow> Disk" where
  "deleteKV k b =
     b\<lparr>dKV := tdel k (dKV b),
       dKVIndex := (case contractOf (snd (snd k)) of
          Some c \<Rightarrow> dKVIndex b - {(c, k)} | None \<Rightarrow> dKVIndex b)\<rparr>"

definition recordTarget :: "string \<Rightarrow> string" where
  "recordTarget topic = (case CommandTarget topic of Some t \<Rightarrow> t | None \<Rightarrow> '''')"

definition actorWitness :: "Record \<Rightarrow> string \<times> string list" where
  "actorWitness rec =
     (if (rActorEmail rec = '''' \<and> rActorClasses rec = []) \<or> \<not> KeepsActorWitness (rTopic rec)
      then ('''', []) else (rActorEmail rec, rActorClasses rec))"

definition record_origin :: "nat \<Rightarrow> Record \<Rightarrow> nat" where
  "record_origin off rec = (if rOriginOffset rec = 0 then off else rOriginOffset rec)"

definition record_signal :: "Record \<Rightarrow> string" where
  "record_signal rec =
     (let signalID = MetricSignalID (rTopic rec) (slice_bytes (rPayload rec)) in
      if FetchLogsAck (rTopic rec) \<noteq> None \<and> signalID = '''' then FetchLogsAckKey else signalID)"

definition encode_record :: "nat \<Rightarrow> Record \<Rightarrow> recEnc" where
  "encode_record off rec =
     \<lparr>xSourceLocalOnly = rSourceLocalOnly rec, xTopic = rTopic rec, xPayload = rPayload rec, xTS = rTS rec,
      xWrittenBy = rWrittenBy rec, xOriginOffset = record_origin off rec, xActorID = rActorID rec,
      xActorLabel = rActorLabel rec, xActorKind = rActorKind rec, xActorGroups = rActorGroups rec,
      xActorClient = rActorClient rec, xActorEmail = fst (actorWitness rec),
      xActorClasses = snd (actorWitness rec),
      xActorCredential = (if KeepsActorWitness (rTopic rec) then rActorCredential rec else ''''),
      xDoor = rDoor rec, xSignalID = record_signal rec\<rparr>"

definition encode_kv :: "nat \<Rightarrow> Record \<Rightarrow> kvEnc" where
  "encode_kv off rec =
     \<lparr>vTopic = rTopic rec, vPayload = rPayload rec, vTS = rTS rec, vOffset = off,
      vOriginOffset = record_origin off rec, vWrittenBy = rWrittenBy rec, vActorID = rActorID rec,
      vActorLabel = rActorLabel rec, vActorKind = rActorKind rec\<rparr>"

definition kv_key :: "Record \<Rightarrow> kvkey" where
  "kv_key rec = (rKVPath rec, rKVNode rec, rTopic rec)"

definition project_kv :: "nat \<Rightarrow> Record \<Rightarrow> Disk \<Rightarrow> Disk" where
  "project_kv off rec b =
     (if rKVPath rec = '''' then b
      else if rDelete rec then deleteKV (kv_key rec) b
      else setKV (kv_key rec) (encode_kv off rec) b)"

definition addRecord :: "string \<Rightarrow> nat \<Rightarrow> Record \<Rightarrow> Disk \<Rightarrow> Disk \<times> nat" where
  "addRecord stream off rec b =
     (let e = encode_record off rec;
          b1 = b\<lparr>dRecs := (dRecs b)(stream := (dRecs b stream)(off \<mapsto> e))\<rparr>;
          b2 = (if xSignalID e \<noteq> '''' then b1\<lparr>dSig := insert (stream, xSignalID e, off) (dSig b1)\<rparr> else b1);
          b3 = (if recordTarget (rTopic rec) \<noteq> ''''
                then b2\<lparr>dTarget := insert (stream, recordTarget (rTopic rec), off) (dTarget b2)\<rparr> else b2)
      in (project_kv off rec b3, rec_size stream e))"

definition setHead :: "string \<Rightarrow> nat \<Rightarrow> Disk \<Rightarrow> Disk" where
  "setHead stream next b =
     b\<lparr>dMeta := (dMeta b)(stream \<mapsto> next), dIndexed := (dIndexed b)(stream \<mapsto> next)\<rparr>"

definition setBytes :: "string \<Rightarrow> nat \<Rightarrow> Disk \<Rightarrow> Disk" where
  "setBytes stream n b = b\<lparr>dBytes := (dBytes b)(stream \<mapsto> n)\<rparr>"

fun writeAppend :: "string \<Rightarrow> Record list \<Rightarrow> nat \<Rightarrow> Disk \<Rightarrow> nat \<times> nat \<times> Disk" where
  "writeAppend stream [] off b = (off, 0, b)"
| "writeAppend stream (r # rs) off b =
     (case addRecord stream off r b of (b', n) \<Rightarrow>
        case writeAppend stream rs (off + 1) b' of (off', added, b'') \<Rightarrow> (off', n + added, b''))"

section \<open>Checks before an append\<close>

definition policyCacheMax :: nat where "policyCacheMax = 2 ^ 16"

lemma policyCacheMax_le [code_unfold]: "policyCacheMax \<le> n \<longleftrightarrow> 65536 \<le> int n"
  by (simp add: policyCacheMax_def)

definition metricSourceLocalOnly :: "string \<Rightarrow> Record \<Rightarrow> Store \<Rightarrow> (policy_error + bool) \<times> Store" where
  "metricSourceLocalOnly rt rec s =
     (case MetricSignalKey rt (rTopic rec) of
        None \<Rightarrow> (Inr False, s)
      | Some k \<Rightarrow>
          (case map_of (dKV (sDisk s)) k of
             None \<Rightarrow> (Inr False, s)
           | Some v \<Rightarrow>
               let read = (case SignalSourceLocalOnly (slice_bytes (vPayload v)) of
                     Inl err \<Rightarrow> (Inl err, s)
                   | Inr localOnly \<Rightarrow>
                       let pol = (if length (sPolicies s) \<ge> policyCacheMax then [] else sPolicies s)
                       in (Inr localOnly, s\<lparr>sPolicies := tput k (v, localOnly) pol\<rparr>)) in
               (case map_of (sPolicies s) k of
                  Some (value, localOnly) \<Rightarrow> if value = v then (Inr localOnly, s) else read
                | None \<Rightarrow> read)))"

fun metrics_local_only :: "string \<Rightarrow> Record list \<Rightarrow> Store \<Rightarrow> (policy_error + bool list) \<times> Store" where
  "metrics_local_only rt [] s = (Inr [], s)"
| "metrics_local_only rt (r # rs) s =
     (case metricSourceLocalOnly rt r s of
        (Inl err, s') \<Rightarrow> (Inl err, s')
      | (Inr b, s') \<Rightarrow>
          (case metrics_local_only rt rs s' of
             (Inl err, s'') \<Rightarrow> (Inl err, s'')
           | (Inr bs, s'') \<Rightarrow> (Inr (b # bs), s'')))"

definition too_large :: "nat \<Rightarrow> Record \<Rightarrow> bool" where
  "too_large cap r \<longleftrightarrow> cap > 0 \<and> length (slice_bytes (rPayload r)) > cap"

text \<open>The records as \<^verbatim>\<open>writeAppend\<close> stores them: with the decision \<^verbatim>\<open>checkAppend\<close> returned for each.\<close>

definition with_local_only :: "bool list option \<Rightarrow> Record list \<Rightarrow> Record list" where
  "with_local_only lo recs =
     (case lo of None \<Rightarrow> recs
      | Some bs \<Rightarrow> map2 (\<lambda>r b. r\<lparr>rSourceLocalOnly := b\<rparr>) recs bs)"

definition checkAppend ::
    "string \<Rightarrow> string \<Rightarrow> Record list \<Rightarrow> Store \<Rightarrow> (store_error + bool list option) \<times> Store" where
  "checkAppend rt stream recs s =
     (if list_ex (too_large (sMaxRecordBytes s)) recs
      then (Inl (RecordTooLarge (length (takeWhile (\<lambda>r. \<not> too_large (sMaxRecordBytes s) r) recs))), s)
      else if stream \<noteq> ''metrics'' then (Inr None, s)
      else case metrics_local_only rt recs s of
        (Inl err, s') \<Rightarrow> (Inl (PolicyFailed err), s')
      | (Inr bs, s') \<Rightarrow> (Inr (Some bs), s'))"

section \<open>Appending\<close>

definition noteContract :: "string \<Rightarrow> nat \<Rightarrow> string \<Rightarrow> (string \<Rightarrow> string \<Rightarrow> nat) \<Rightarrow> (string \<Rightarrow> string \<Rightarrow> nat)" where
  "noteContract stream next topic heads =
     (let parts = split_n 4 CHR ''/'' topic in
      if length parts < 4 then heads
      else heads(stream := (heads stream)(parts ! 2 := next)))"

definition noteContracts :: "string \<Rightarrow> nat \<Rightarrow> Record list \<Rightarrow> (string \<Rightarrow> string \<Rightarrow> nat) \<Rightarrow> (string \<Rightarrow> string \<Rightarrow> nat)" where
  "noteContracts stream next recs heads = fold (\<lambda>r. noteContract stream next (rTopic r)) recs heads"

record CursorAdvance =
  cName :: string
  cStream :: string
  cTo :: nat

definition setCursor :: "string \<Rightarrow> string \<Rightarrow> nat \<Rightarrow> int \<Rightarrow> Disk \<Rightarrow> Disk" where
  "setCursor name stream off now b =
     b\<lparr>dCursor := tput (name, stream) off (dCursor b), dCT := tput (name, stream) now (dCT b)\<rparr>"

definition appendAdvancingLocked ::
    "string \<Rightarrow> int \<Rightarrow> bool \<Rightarrow> string \<Rightarrow> Record list \<Rightarrow> CursorAdvance option \<Rightarrow> Store \<Rightarrow>
     (store_error + nat \<times> nat) \<times> Store" where
  "appendAdvancingLocked rt now ok stream recs adv s =
     (let first = sNext s stream in
      if first = 0 then (Inl (UnknownStream stream), s)
      else case checkAppend rt stream recs s of
        (Inl err, s1) \<Rightarrow> (Inl err, s1)
      | (Inr lo, s1) \<Rightarrow>
          (case writeAppend stream (with_local_only lo recs) first (sDisk s1) of (off, added, b) \<Rightarrow>
             let liveBytes = sBytes s1 stream + added;
                 b1 = setBytes stream liveBytes (setHead stream off b);
                 b2 = (case adv of None \<Rightarrow> b1
                       | Some a \<Rightarrow> setCursor (cName a) (cStream a) (cTo a) now b1)
             in if \<not> ok then (Inl ApplyFailed, s1)
                else (Inr (first, off - 1),
                  s1\<lparr>sDisk := b2, sNext := (sNext s1)(stream := off),
                     sBytes := (sBytes s1)(stream := liveBytes),
                     sHeads := noteContracts stream off recs (sHeads s1)\<rparr>)))"

definition appendLocked ::
    "string \<Rightarrow> bool \<Rightarrow> string \<Rightarrow> Record list \<Rightarrow> Store \<Rightarrow> (store_error + nat \<times> nat) \<times> Store" where
  "appendLocked rt ok stream recs s = appendAdvancingLocked rt 0 ok stream recs None s"

text \<open>\<^term>\<open>Inr None\<close> is \<^verbatim>\<open>applied = false\<close>.\<close>

definition AppendAdvancing ::
    "string \<Rightarrow> int \<Rightarrow> bool \<Rightarrow> string \<Rightarrow> Record list \<Rightarrow> CursorAdvance \<Rightarrow> Store \<Rightarrow>
     (store_error + (nat \<times> nat) option) \<times> Store" where
  "AppendAdvancing rt now ok stream recs adv s =
     (if recs = [] then (Inr None, s)
      else if tget 1 (cName adv, cStream adv) (dCursor (sDisk s)) \<ge> cTo adv then (Inr None, s)
      else case appendAdvancingLocked rt now ok stream recs (Some adv) s of
        (Inl err, s') \<Rightarrow> (Inl err, s')
      | (Inr fl, s') \<Rightarrow> (Inr (Some fl), s'))"

definition kvOffsets :: "kvkey \<Rightarrow> Store \<Rightarrow> (nat \<times> nat) option" where
  "kvOffsets k s =
     (case map_of (dKV (sDisk s)) k of
        None \<Rightarrow> None
      | Some e \<Rightarrow> Some (vOffset e, if vOriginOffset e = 0 then vOffset e else vOriginOffset e))"

definition AppendIfKVUnchanged ::
    "string \<Rightarrow> bool \<Rightarrow> string \<Rightarrow> Record \<Rightarrow> nat \<Rightarrow> Store \<Rightarrow> (store_error + nat option) \<times> Store" where
  "AppendIfKVUnchanged rt ok stream rec ifKVOffset s =
     (if rKVPath rec = '''' then (Inl NoProjection, s)
      else case kvOffsets (kv_key rec) s of
        None \<Rightarrow> (Inr None, s)
      | Some (cur, origin) \<Rightarrow>
          if cur \<noteq> ifKVOffset then (Inr None, s)
          else case appendLocked rt ok stream [rec\<lparr>rOriginOffset := origin\<rparr>] s of
            (Inl err, s') \<Rightarrow> (Inl err, s')
          | (Inr (first, _), s') \<Rightarrow> (Inr (Some first), s'))"

section \<open>Group commit of appends\<close>

record appendRequest =
  aqStream :: string
  aqRecs :: "Record list"

definition writesSignal :: "Record list \<Rightarrow> bool" where
  "writesSignal recs = list_ex (\<lambda>rec. rKVPath rec \<noteq> '''' \<and> DecidesReplication (rTopic rec)) recs"

text \<open>What the leader of a group has built so far. \<^verbatim>\<open>acDone\<close> pairs each request with its result.\<close>

record append_group =
  acNext :: "string \<rightharpoonup> nat"
  acBytes :: "string \<rightharpoonup> nat"
  acGrown :: "string list"
  acBatch :: Disk
  acStore :: Store
  acCommitted :: "appendRequest list"
  acDone :: "(store_error + nat \<times> nat) list"

definition group_request :: "string \<Rightarrow> appendRequest \<Rightarrow> append_group \<Rightarrow> append_group" where
  "group_request rt r g =
     (let s = acStore g; stream = aqStream r in
      if acNext g stream = None \<and> sNext s stream = 0
      then g\<lparr>acDone := acDone g @ [Inl (UnknownStream stream)]\<rparr>
      else
        let g1 = (if acNext g stream = None
                  then g\<lparr>acNext := (acNext g)(stream \<mapsto> sNext s stream),
                         acBytes := (acBytes g)(stream \<mapsto> sBytes s stream)\<rparr> else g) in
        (case checkAppend rt stream (aqRecs r) s of
           (Inl err, s') \<Rightarrow> g1\<lparr>acStore := s', acDone := acDone g @ [Inl err]\<rparr>
         | (Inr lo, s') \<Rightarrow>
             let first = the (acNext g1 stream) in
             (case writeAppend stream (with_local_only lo (aqRecs r)) first (acBatch g1) of (off, added, b) \<Rightarrow>
                g1\<lparr>acNext := (acNext g1)(stream \<mapsto> off),
                   acBytes := (acBytes g1)(stream \<mapsto> the (acBytes g1 stream) + added),
                   acGrown := (if stream \<in> set (acGrown g1) then acGrown g1 else acGrown g1 @ [stream]),
                   acBatch := b, acStore := s', acCommitted := acCommitted g1 @ [r],
                   acDone := acDone g @ [Inr (first, off - 1)]\<rparr>)))"

definition group_start :: "Store \<Rightarrow> append_group" where
  "group_start s = \<lparr>acNext = Map.empty, acBytes = Map.empty, acGrown = [], acBatch = sDisk s, acStore = s,
     acCommitted = [], acDone = []\<rparr>"

definition set_heads :: "append_group \<Rightarrow> Disk \<Rightarrow> Disk" where
  "set_heads g b = fold (\<lambda>stream b. setBytes stream (the (acBytes g stream)) (setHead stream (the (acNext g stream)) b))
     (acGrown g) b"

definition commitAppendBatch ::
    "string \<Rightarrow> bool \<Rightarrow> appendRequest list \<Rightarrow> Store \<Rightarrow> (store_error + nat \<times> nat) list \<times> Store" where
  "commitAppendBatch rt ok reqs s =
     (let g = fold (group_request rt) reqs (group_start s); s1 = acStore g in
      if acCommitted g = [] then (acDone g, s1)
      else if \<not> ok then (map (\<lambda>r. case r of Inl e \<Rightarrow> Inl e | Inr _ \<Rightarrow> Inl ApplyFailed) (acDone g), s1)
      else
        let next = (\<lambda>st. if st \<in> set (acGrown g) then the (acNext g st) else sNext s1 st) in
        (acDone g,
         s1\<lparr>sDisk := set_heads g (acBatch g), sNext := next,
            sBytes := (\<lambda>st. if st \<in> set (acGrown g) then the (acBytes g st) else sBytes s1 st),
            sHeads := fold (\<lambda>r. noteContracts (aqStream r) (next (aqStream r)) (aqRecs r))
              (acCommitted g) (sHeads s1)\<rparr>))"

text \<open>How many requests of the group the next batch takes.\<close>

fun batch_len :: "bool \<Rightarrow> appendRequest list \<Rightarrow> nat" where
  "batch_len signal [] = 0"
| "batch_len signal (r # rs) =
     (if \<not> signal \<or> aqStream r \<noteq> ''metrics''
      then Suc (batch_len (signal \<or> writesSignal (aqRecs r)) rs) else 0)"

lemma batch_len_pos: "reqs \<noteq> [] \<Longrightarrow> 0 < batch_len False reqs"
  by (cases reqs) auto

text \<open>\<^verbatim>\<open>ok n\<close> is whether the apply of the n-th batch succeeds.\<close>

function commitAppends ::
    "string \<Rightarrow> (nat \<Rightarrow> bool) \<Rightarrow> nat \<Rightarrow> appendRequest list \<Rightarrow> Store \<Rightarrow> (store_error + nat \<times> nat) list \<times> Store" where
  "commitAppends rt ok i reqs s =
     (if reqs = [] then ([], s)
      else let n = batch_len False reqs in
        case commitAppendBatch rt (ok i) (take n reqs) s of (res, s1) \<Rightarrow>
          case commitAppends rt ok (Suc i) (drop n reqs) s1 of (res', s2) \<Rightarrow> (res @ res', s2))"
  by pat_completeness auto
termination
  by (relation "measure (\<lambda>(rt, ok, i, reqs, s). length reqs)") (auto simp: batch_len_pos)

declare commitAppends.simps [simp del]

definition Append ::
    "string \<Rightarrow> bool \<Rightarrow> string \<Rightarrow> Record list \<Rightarrow> Store \<Rightarrow> (store_error + nat \<times> nat) \<times> Store" where
  "Append rt ok stream recs s =
     (if recs = [] then (Inr (0, 0), s)
      else case commitAppends rt (\<lambda>_. ok) 0 [\<lparr>aqStream = stream, aqRecs = recs\<rparr>] s of
        (res, s') \<Rightarrow> (hd res, s'))"

definition maxGroupRecords :: nat where "maxGroupRecords = 4096"

text \<open>\<^verbatim>\<open>takeGroup\<close>, with the number of records of a request as argument.\<close>

fun take_group :: "('r \<Rightarrow> nat) \<Rightarrow> nat \<Rightarrow> nat \<Rightarrow> 'r list \<Rightarrow> nat" where
  "take_group records n recs [] = n"
| "take_group records n recs (r # rs) =
     (if n = 0 \<or> recs + records r \<le> maxGroupRecords
      then take_group records (Suc n) (recs + records r) rs else n)"

definition takeGroup :: "('r \<Rightarrow> nat) \<Rightarrow> 'r list \<Rightarrow> 'r list \<times> 'r list" where
  "takeGroup records pending =
     (let n = take_group records 0 0 pending in (take n pending, drop n pending))"

end
