(* ===== verification/Store_Open.thy ===== *)
theory Store_Open
  imports Store_Core
begin

text \<open>
  Opening a store (\<^verbatim>\<open>internal/store\<close>: \<^verbatim>\<open>OpenWithOptions\<close> and \<^verbatim>\<open>readCounter\<close> of \<^verbatim>\<open>store.go\<close>,
  \<^verbatim>\<open>openIndexes\<close> of \<^verbatim>\<open>sigindex.go\<close>, the recovery of the contract index of \<^verbatim>\<open>kvindex.go\<close>,
  \<^verbatim>\<open>loadOrMintStoreID\<close> of \<^verbatim>\<open>incarnation.go\<close>). A restart is \<^verbatim>\<open>OpenWithOptions\<close> on the disk the
  last process left behind. The lemmas show that the recovery of the contract index ends, whatever the
  size of its pages, with exactly the entries of the current state, also when it is interrupted and
  resumed from its checkpoint.
\<close>

text \<open>The disk of a store in an empty directory.\<close>

definition empty_disk :: Disk where
  "empty_disk =
     \<lparr>dRecs = (\<lambda>_ _. None), dMeta = (\<lambda>_. None), dIndexed = (\<lambda>_. None), dLWM = (\<lambda>_. None), dBytes = (\<lambda>_. None),
      dKV = [], dKVIndex = {}, dSig = {}, dTarget = {}, dCursor = [], dCT = [], dHWM = [],
      dChildStore = (\<lambda>_. None), dJournal = (\<lambda>_. []), dRefresh = (\<lambda>_. None), dStoreID = None,
      dIncarnation = None, dParentState = (\<lambda>_. None), dAcked = [], dSetAside = [], dSigFrom = (\<lambda>_. None),
      dTargetFrom = (\<lambda>_. None), dLegacySig = None, dLegacyKV = None, dKVRecovery = None\<rparr>"

section \<open>The contract index and its recovery\<close>

definition kvIndexKey :: "kvkey \<Rightarrow> (string \<times> kvkey) option" where
  "kvIndexKey k = (case contractOf (snd (snd k)) of Some c \<Rightarrow> Some (c, k) | None \<Rightarrow> None)"

text \<open>The keys a phase still has to visit, in key order: the current state in phase 0, the index in
  phase 1. The keys of phase 0 are paired with the empty contract.\<close>

definition recovery_keys :: "kvIndexRecovery \<Rightarrow> Disk \<Rightarrow> (string \<times> kvkey) list" where
  "recovery_keys p b =
     filter (\<lambda>k. case kvAfter p of None \<Rightarrow> True | Some a \<Rightarrow> a < k)
       (if kvPhase p = 0 then map (\<lambda>e. ('''', fst e)) (dKV b) else sorted_list_of_set (dKVIndex b))"

definition repair_row :: "nat \<Rightarrow> string \<times> kvkey \<Rightarrow> Disk \<Rightarrow> Disk" where
  "repair_row phase ck b =
     (if phase = 0
      then (case kvIndexKey (snd ck) of None \<Rightarrow> b | Some ik \<Rightarrow> b\<lparr>dKVIndex := insert ik (dKVIndex b)\<rparr>)
      else if kvIndexKey (snd ck) \<noteq> Some ck \<or> map_of (dKV b) (snd ck) = None
      then b\<lparr>dKVIndex := dKVIndex b - {ck}\<rparr> else b)"

text \<open>One page: the rows it admits, repaired, and the checkpoint, in one batch.\<close>

definition recovery_page :: "nat \<Rightarrow> kvIndexRecovery \<Rightarrow> Disk \<Rightarrow> kvIndexRecovery \<times> Disk" where
  "recovery_page rows p b =
     (let ks = recovery_keys p b; page = take rows ks;
          p1 = (if length ks \<le> rows then p\<lparr>kvPhase := kvPhase p + 1, kvAfter := None\<rparr>
                else p\<lparr>kvAfter := Some (last page)\<rparr>)
      in (p1, (fold (repair_row (kvPhase p)) page b)
                \<lparr>dKVRecovery := (if kvPhase p1 = 2 then None else Some p1)\<rparr>))"

definition kvIndexHeads :: "(string \<Rightarrow> nat) \<Rightarrow> nat list" where
  "kvIndexHeads next = map next streams"

definition kvIndexRecoveryRows :: nat where "kvIndexRecoveryRows = 4096"

text \<open>The checkpoint a recovery starts from. A phase-0 position names no contract and a phase-1
  position names one, which is what the bounds check of the two key families amounts to.\<close>

definition recovery_start :: "(string \<Rightarrow> nat) \<Rightarrow> Disk \<Rightarrow> kvIndexRecovery" where
  "recovery_start next b =
     (let fresh = \<lparr>kvHeads = kvIndexHeads next, kvPhase = 0, kvAfter = None\<rparr> in
      case dKVRecovery b of None \<Rightarrow> fresh
      | Some saved \<Rightarrow>
          if kvHeads saved = kvHeads fresh \<and> kvPhase saved < 2 \<and>
             (case kvAfter saved of None \<Rightarrow> True | Some a \<Rightarrow> (fst a = '''') = (kvPhase saved = 0))
          then saved else fresh)"

text \<open>\<^verbatim>\<open>admit i\<close> is how many rows the byte budget of the i-th page leaves room for; the first row
  of a page is always admitted.\<close>

definition page_rows :: "(nat \<Rightarrow> nat) \<Rightarrow> nat \<Rightarrow> nat" where
  "page_rows admit i = max 1 (min kvIndexRecoveryRows (admit i))"

lemma page_rows_pos [simp]: "0 < page_rows admit i"
  by (simp add: page_rows_def)

lemma repair_row_KV [simp]: "dKV (repair_row phase ck b) = dKV b"
  by (auto simp: repair_row_def split: option.split)

lemma repair_rows_KV [simp]: "dKV (fold (repair_row phase) cks b) = dKV b"
  by (induction cks arbitrary: b) simp_all

lemma length_filter_strict:
  assumes "\<And>x. x \<in> set xs \<Longrightarrow> P x \<Longrightarrow> Q x" "y \<in> set xs" "Q y" "\<not> P y"
  shows "length (filter P xs) < length (filter Q xs)"
  using assms
proof (induction xs)
  case (Cons x xs)
  have "filter P xs = filter P (filter Q xs)"
    using Cons.prems(1) by (auto intro!: filter_cong)
  then have le: "length (filter P xs) \<le> length (filter Q xs)" by (metis length_filter_le)
  show ?case
    using Cons le by (cases "y \<in> set xs") (auto simp: less_Suc_eq_le)
qed simp

lemma recovery_keys_later:
  assumes "rows < length (recovery_keys p b)" "0 < rows"
  shows "last (take rows (recovery_keys p b)) \<in> set (recovery_keys p b)"
    and "x \<in> set (recovery_keys p b) \<Longrightarrow> case kvAfter p of None \<Rightarrow> True | Some a \<Rightarrow> a < x"
  using assms last_in_set [of "take rows (recovery_keys p b)"]
  by (fastforce dest: in_set_takeD) (auto simp: recovery_keys_def)

lemma repair_rows_index_shrinks:
  "phase \<noteq> 0 \<Longrightarrow> dKVIndex (fold (repair_row phase) cks b) \<subseteq> dKVIndex b"
  by (induction cks arbitrary: b) (fastforce simp: repair_row_def split: if_splits)+

lemma recovery_page_progress:
  assumes "0 < rows" "rows < length (recovery_keys p b)"
  shows "length (recovery_keys (fst (recovery_page rows p b)) (snd (recovery_page rows p b))) <
    length (recovery_keys p b)"
proof -
  define l where "l = last (take rows (recovery_keys p b))"
  define b1 where "b1 = fold (repair_row (kvPhase p)) (take rows (recovery_keys p b)) b"
  have l: "l \<in> set (recovery_keys p b)" using recovery_keys_later(1) [OF assms(2,1)] l_def by simp
  have after: "case kvAfter p of None \<Rightarrow> True | Some a \<Rightarrow> a < x" if "l \<le> x" for x
    using recovery_keys_later(2) [OF assms(2,1) l] that by (auto split: option.splits)
  have page: "fst (recovery_page rows p b) = p\<lparr>kvAfter := Some l\<rparr>"
    "dKV (snd (recovery_page rows p b)) = dKV b" "dKVIndex (snd (recovery_page rows p b)) = dKVIndex b1"
    using assms by (simp_all add: recovery_page_def Let_def l_def b1_def)
  note keys = recovery_keys_def [of "p\<lparr>kvAfter := Some l\<rparr>" "snd (recovery_page rows p b)"] recovery_keys_def [of p b]
  show ?thesis
  proof (cases "kvPhase p = 0")
    case True
    have "length (filter (\<lambda>k. l < k) (map (\<lambda>e. ('''', fst e)) (dKV b))) <
        length (filter (\<lambda>k. case kvAfter p of None \<Rightarrow> True | Some a \<Rightarrow> a < k) (map (\<lambda>e. ('''', fst e)) (dKV b)))"
      by (rule length_filter_strict [where y = l]) (use after l True in \<open>auto simp: keys\<close>)
    then show ?thesis using True by (simp add: page keys)
  next
    case False
    have len: "length (filter P (sorted_list_of_set A)) = card {x \<in> A. P x}" if "finite A"
      for P and A :: "(string \<times> kvkey) set"
      using that distinct_card [of "filter P (sorted_list_of_set A)"] by (simp add: Int_def conj_commute)
    have fin: "finite (dKVIndex b)" using l False by (auto simp: keys intro: ccontr)
    have sub: "dKVIndex b1 \<subseteq> dKVIndex b" using repair_rows_index_shrinks [OF False] b1_def by simp
    have "{x \<in> dKVIndex b1. l < x} \<subset> {x \<in> dKVIndex b. case kvAfter p of None \<Rightarrow> True | Some a \<Rightarrow> a < x}"
      using sub after l False fin by (fastforce simp: keys psubset_eq)
    then have "card {x \<in> dKVIndex b1. l < x} <
        card {x \<in> dKVIndex b. case kvAfter p of None \<Rightarrow> True | Some a \<Rightarrow> a < x}"
      using fin by (intro psubset_card_mono) auto
    then show ?thesis
      using False len [OF fin] len [OF finite_subset [OF sub fin]] by (simp add: page keys)
  qed
qed

lemma recovery_page_phase:
  "kvPhase (fst (recovery_page rows p b)) =
     (if length (recovery_keys p b) \<le> rows then Suc (kvPhase p) else kvPhase p)"
  by (simp add: recovery_page_def Let_def)

function reconcile :: "(nat \<Rightarrow> nat) \<Rightarrow> nat \<Rightarrow> kvIndexRecovery \<Rightarrow> Disk \<Rightarrow> Disk" where
  "reconcile admit i p b =
     (if 2 \<le> kvPhase p then b
      else reconcile admit (Suc i) (fst (recovery_page (page_rows admit i) p b))
        (snd (recovery_page (page_rows admit i) p b)))"
  by pat_completeness auto
termination
proof (relation "measures [\<lambda>(admit, i, p, b). 2 - kvPhase p, \<lambda>(admit, i, p, b). length (recovery_keys p b)]")
  fix admit i b and p :: kvIndexRecovery
  assume "\<not> 2 \<le> kvPhase p"
  then show "((admit, Suc i, fst (recovery_page (page_rows admit i) p b), snd (recovery_page (page_rows admit i) p b)),
      admit, i, p, b) \<in>
      measures [\<lambda>(admit, i, p, b). 2 - kvPhase p, \<lambda>(admit, i, p, b). length (recovery_keys p b)]"
    using recovery_page_progress [of "page_rows admit i" p b]
    by (cases "length (recovery_keys p b) \<le> page_rows admit i") (auto simp: recovery_page_phase case_prod_beta)
qed simp

declare reconcile.simps [simp del]

definition reconcileKVIndex :: "(nat \<Rightarrow> nat) \<Rightarrow> (string \<Rightarrow> nat) \<Rightarrow> Disk \<Rightarrow> Disk" where
  "reconcileKVIndex admit next b = reconcile admit 0 (recovery_start next b) b"

section \<open>The recovered index is exact\<close>

definition kv_index_of :: "Disk \<Rightarrow> (string \<times> kvkey) set" where
  "kv_index_of b = {ck. map_of (dKV b) (snd ck) \<noteq> None \<and> kvIndexKey (snd ck) = Some ck}"

definition up_to :: "(string \<times> kvkey) option \<Rightarrow> string \<times> kvkey \<Rightarrow> bool" where
  "up_to after ck \<longleftrightarrow> (case after of None \<Rightarrow> False | Some a \<Rightarrow> ck \<le> a)"

text \<open>What a checkpoint promises of the keys up to its position.\<close>

definition recovery_inv :: "kvIndexRecovery \<Rightarrow> Disk \<Rightarrow> bool" where
  "recovery_inv p b \<longleftrightarrow>
     table_ok (dKV b) \<and> finite (dKVIndex b) \<and>
     (kvPhase p = 0 \<longrightarrow> (\<forall>ck \<in> kv_index_of b. up_to (kvAfter p) ('''', snd ck) \<longrightarrow> ck \<in> dKVIndex b)) \<and>
     (kvPhase p \<noteq> 0 \<longrightarrow> kv_index_of b \<subseteq> dKVIndex b) \<and>
     (kvPhase p = 1 \<longrightarrow> (\<forall>ck \<in> dKVIndex b. up_to (kvAfter p) ck \<longrightarrow> ck \<in> kv_index_of b)) \<and>
     (2 \<le> kvPhase p \<longrightarrow> dKVIndex b \<subseteq> kv_index_of b)"

lemma kv_index_of_repaired [simp]: "kv_index_of (fold (repair_row phase) cks b) = kv_index_of b"
  by (simp add: kv_index_of_def)

lemma repair_rows_add:
  "dKVIndex (fold (repair_row 0) cks b) = dKVIndex b \<union> {ik. \<exists>ck \<in> set cks. kvIndexKey (snd ck) = Some ik}"
  by (induction cks arbitrary: b) (auto simp: repair_row_def split: option.splits)

lemma repair_rows_remove:
  assumes "phase \<noteq> 0"
  shows "dKVIndex (fold (repair_row phase) cks b) = dKVIndex b - {ck \<in> set cks. ck \<notin> kv_index_of b}"
proof (induction cks arbitrary: b)
  case (Cons ck cks)
  have "dKVIndex (repair_row phase ck b) = dKVIndex b - (if ck \<in> kv_index_of b then {} else {ck})"
    "kv_index_of (repair_row phase ck b) = kv_index_of b"
    using assms by (auto simp: repair_row_def kv_index_of_def)
  then show ?case by (auto simp: Cons.IH)
qed simp

lemma recovery_keys_sorted:
  assumes "table_ok (dKV b)"
  shows "sorted_wrt (<) (recovery_keys p b)"
proof -
  have "sorted_wrt (<) (map (\<lambda>e. ('''' :: string, fst e)) (dKV b))"
    using assms by (simp add: table_ok_def sorted_wrt_map less_prod_def)
  then show ?thesis
    using strict_sorted_list_of_set [of "dKVIndex b"]
    by (simp add: recovery_keys_def sorted_wrt_filter)
qed

lemma take_sorted_below:
  assumes "sorted_wrt (<) (xs :: 'a::linorder list)" "0 < n" "x \<in> set xs" "x \<le> last (take n xs)"
  shows "x \<in> set (take n xs)"
proof (rule ccontr)
  assume "x \<notin> set (take n xs)"
  then have d: "x \<in> set (drop n xs)" using assms(3) by (metis Un_iff append_take_drop_id set_append)
  have "xs \<noteq> []" using assms(3) by auto
  then have "last (take n xs) \<in> set (take n xs)" using assms(2) by (intro last_in_set) auto
  then have "last (take n xs) < x"
    using d assms(1) sorted_wrt_append [of "(<)" "take n xs" "drop n xs"] by simp
  then show False using assms(4) by simp
qed

text \<open>Every key of a phase up to the position a page leaves was visited, in it or before.\<close>

lemma page_visits:
  assumes "table_ok (dKV b)" "0 < rows" "x \<in> set (recovery_keys (p\<lparr>kvAfter := None\<rparr>) b)"
    and "kvPhase (fst (recovery_page rows p b)) \<noteq> kvPhase p \<or> up_to (kvAfter (fst (recovery_page rows p b))) x"
  shows "up_to (kvAfter p) x \<or> x \<in> set (take rows (recovery_keys p b))"
proof (rule disjCI [THEN disj_commute [THEN iffD1]])
  assume "\<not> up_to (kvAfter p) x"
  then have k: "x \<in> set (recovery_keys p b)"
    using assms(3) by (auto simp: recovery_keys_def up_to_def split: option.splits)
  show "x \<in> set (take rows (recovery_keys p b))"
  proof (cases "length (recovery_keys p b) \<le> rows")
    case False
    then have "x \<le> last (take rows (recovery_keys p b))"
      using assms(4) by (simp add: recovery_page_def Let_def up_to_def)
    then show ?thesis using take_sorted_below [OF recovery_keys_sorted [OF assms(1)] assms(2) k] by blast
  qed (use k in simp)
qed

lemma recovery_keys_phase0:
  "kvPhase p = 0 \<Longrightarrow> kvAfter p = None \<Longrightarrow> map_of (dKV b) k = Some v \<Longrightarrow> ('''', k) \<in> set (recovery_keys p b)"
  by (force simp: recovery_keys_def dest: map_of_SomeD)

lemma recovery_inv_page:
  assumes "recovery_inv p b" "0 < rows" "kvPhase p < 2"
  shows "recovery_inv (fst (recovery_page rows p b)) (snd (recovery_page rows p b))"
proof -
  obtain p1 b1 where pb: "recovery_page rows p b = (p1, b1)" by fastforce
  let ?rows = "take rows (recovery_keys p b)"
  have ok: "table_ok (dKV b)" "finite (dKVIndex b)" using assms(1) by (auto simp: recovery_inv_def)
  have b1: "dKV b1 = dKV b" "dKVIndex b1 = dKVIndex (fold (repair_row (kvPhase p)) ?rows b)"
    using pb by (auto simp: recovery_page_def Let_def)
  then have ix: "kv_index_of b1 = kv_index_of b" by (simp add: kv_index_of_def)
  note visits = page_visits [OF ok(1) assms(2), of _ p, unfolded pb fst_conv]
  have next_phase: "kvPhase p1 = kvPhase p \<or> kvPhase p1 = Suc (kvPhase p)"
    using recovery_page_phase [of rows p b] pb by simp
  show ?thesis
  proof (cases "kvPhase p = 0")
    case True
    have added: "dKVIndex b1 = dKVIndex b \<union> {ik. \<exists>ck \<in> set ?rows. kvIndexKey (snd ck) = Some ik}"
      using b1(2) True repair_rows_add by simp
    have "ck \<in> dKVIndex b1" if ck: "ck \<in> kv_index_of b" and "kvPhase p1 \<noteq> 0 \<or> up_to (kvAfter p1) ('''', snd ck)" for ck
    proof -
      obtain v where "map_of (dKV b) (snd ck) = Some v" using ck by (auto simp: kv_index_of_def)
      then have "('''', snd ck) \<in> set (recovery_keys (p\<lparr>kvAfter := None\<rparr>) b)"
        using True recovery_keys_phase0 [of "p\<lparr>kvAfter := None\<rparr>" b] by simp
      then have "up_to (kvAfter p) ('''', snd ck) \<or> ('''', snd ck) \<in> set ?rows"
        using visits that True by simp
      moreover have "kvIndexKey (snd ck) = Some ck" using ck by (simp add: kv_index_of_def)
      moreover have "ck \<in> dKVIndex b" if "up_to (kvAfter p) ('''', snd ck)"
        using that ck assms(1) True unfolding recovery_inv_def by blast
      ultimately show ?thesis unfolding added by (metis (mono_tags, lifting) UnI1 UnI2 mem_Collect_eq snd_conv)
    qed
    moreover have "finite (dKVIndex b1)"
    proof -
      have "{ik. \<exists>ck \<in> set ?rows. kvIndexKey (snd ck) = Some ik} \<subseteq> (\<lambda>ck. the (kvIndexKey (snd ck))) ` set ?rows"
        by force
      then show ?thesis unfolding added using ok(2) finite_subset by blast
    qed
    moreover have "kvPhase p1 = 1 \<longrightarrow> kvAfter p1 = None"
      using pb True by (cases "length (recovery_keys p b) \<le> rows") (auto simp: recovery_page_def Let_def)
    ultimately show ?thesis
      using next_phase True ok(1) unfolding pb recovery_inv_def fst_conv snd_conv ix b1(1)
      by (auto simp: up_to_def)
  next
    case False
    then have one: "kvPhase p = 1" using assms(3) by simp
    have removed: "dKVIndex b1 = dKVIndex b - {ck \<in> set ?rows. ck \<notin> kv_index_of b}"
      using b1(2) False repair_rows_remove by simp
    have "ck \<in> kv_index_of b" if "ck \<in> dKVIndex b1" "kvPhase p1 = 2 \<or> up_to (kvAfter p1) ck" for ck
    proof -
      have "ck \<in> set (recovery_keys (p\<lparr>kvAfter := None\<rparr>) b)"
        using that(1) one ok(2) by (auto simp: removed recovery_keys_def)
      then have "up_to (kvAfter p) ck \<or> ck \<in> set ?rows" using visits [of ck] that(2) one by auto
      then show ?thesis using that(1) assms(1) one unfolding removed by (auto simp: recovery_inv_def)
    qed
    moreover have "kv_index_of b \<subseteq> dKVIndex b1"
      using assms(1) one unfolding removed by (auto simp: recovery_inv_def)
    moreover have "finite (dKVIndex b1)" using ok(2) by (simp add: removed)
    moreover have "kvPhase p1 = 1 \<or> kvPhase p1 = 2" using next_phase one by auto
    ultimately show ?thesis
      using ok(1) unfolding pb recovery_inv_def fst_conv snd_conv ix b1(1) by fastforce
  qed
qed

lemma reconcile_exact:
  "recovery_inv p b \<Longrightarrow> dKV (reconcile admit i p b) = dKV b \<and> dKVIndex (reconcile admit i p b) = kv_index_of b"
proof (induction admit i p b rule: reconcile.induct)
  case (1 admit i p b)
  let ?p = "fst (recovery_page (page_rows admit i) p b)" and ?b = "snd (recovery_page (page_rows admit i) p b)"
  have kv: "dKV ?b = dKV b" by (simp add: recovery_page_def Let_def)
  show ?case
  proof (cases "2 \<le> kvPhase p")
    case True
    then show ?thesis using "1.prems" by (subst (1 2) reconcile.simps) (auto simp: recovery_inv_def)
  next
    case False
    then have "recovery_inv ?p ?b" using recovery_inv_page [OF "1.prems"] by simp
    then have "dKV (reconcile admit (Suc i) ?p ?b) = dKV ?b \<and> dKVIndex (reconcile admit (Suc i) ?p ?b) = kv_index_of ?b"
      using "1.IH" [OF False] by blast
    then show ?thesis using False kv by (subst (1 2) reconcile.simps) (simp add: kv_index_of_def)
  qed
qed

text \<open>An open that is cut off after one page, of any size.\<close>

definition cut_off :: "(string \<Rightarrow> nat) \<Rightarrow> nat \<Rightarrow> Disk \<Rightarrow> Disk" where
  "cut_off next rows b = snd (recovery_page (max 1 rows) (recovery_start next b) b)"

lemma recovery_start_phase: "kvPhase (recovery_start next b) < 2"
  by (auto simp: recovery_start_def Let_def split: option.split)

lemma recovery_start_inv:
  assumes "table_ok (dKV b)" "finite (dKVIndex b)" "\<And>p. dKVRecovery b = Some p \<Longrightarrow> recovery_inv p b"
  shows "recovery_inv (recovery_start next b) b"
  using assms by (auto simp: recovery_start_def Let_def recovery_inv_def up_to_def split: option.split)

lemma cut_off_inv:
  assumes "recovery_inv (recovery_start next b) b"
  shows "recovery_inv (recovery_start next (cut_off next rows b)) (cut_off next rows b)"
proof (rule recovery_start_inv)
  note page = recovery_inv_page [OF assms _ recovery_start_phase, of "max 1 rows"]
  show "table_ok (dKV (cut_off next rows b))" "finite (dKVIndex (cut_off next rows b))"
    using page by (simp_all add: cut_off_def recovery_inv_def)
  show "recovery_inv p (cut_off next rows b)" if "dKVRecovery (cut_off next rows b) = Some p" for p
  proof -
    have "p = fst (recovery_page (max 1 rows) (recovery_start next b) b)"
      using that by (auto simp: cut_off_def recovery_page_def Let_def split: if_splits)
    then show ?thesis using page by (simp add: cut_off_def)
  qed
qed

lemma cut_offs_inv:
  "recovery_inv (recovery_start next b) b \<Longrightarrow>
   recovery_inv (recovery_start next (fold (cut_off next) cuts b)) (fold (cut_off next) cuts b) \<and>
   dKV (fold (cut_off next) cuts b) = dKV b"
proof (induction cuts arbitrary: b)
  case (Cons rows cuts)
  have "dKV (cut_off next rows b) = dKV b" by (simp add: cut_off_def recovery_page_def Let_def)
  then show ?case using Cons.IH [OF cut_off_inv [OF Cons.prems]] by simp
qed simp

text \<open>C23: The recovery of the contract index always ends and leaves exactly the entries of the current
  state: one index key per current-state key whose topic names a contract, and no stale key. That holds
  whatever the index looked like before, whatever size the byte budget gives the pages, and however often
  an open was cut off after a page and resumed from the checkpoint in a later one. The current state
  itself is not touched.\<close>

theorem contract_index_recovery:
  assumes "table_ok (dKV b)" "finite (dKVIndex b)" "dKVRecovery b = None"
  shows "dKVIndex (reconcileKVIndex admit next (fold (cut_off next) cuts b)) = kv_index_of b \<and>
    dKV (reconcileKVIndex admit next (fold (cut_off next) cuts b)) = dKV b"
proof -
  have "recovery_inv (recovery_start next b) b" by (rule recovery_start_inv) (simp_all add: assms)
  note run = cut_offs_inv [OF this, of cuts]
  show ?thesis
    using reconcile_exact [OF conjunct1 [OF run]] run by (simp add: reconcileKVIndex_def kv_index_of_def)
qed

theorem contract_index_recovery_witness:
  "let k = (''p'', ''n'', ''colca/v1/_Signal/n/p'');
       b = empty_disk\<lparr>dKV := [(k, encode_kv 1 zero_record)], dKVIndex := {(''_Alarm'', k)}\<rparr> in
   table_ok (dKV b) \<and> finite (dKVIndex b) \<and> dKVRecovery b = None \<and>
   dKVIndex (reconcileKVIndex (\<lambda>_. 1) (\<lambda>_. 1) (fold (cut_off (\<lambda>_. 1)) [1, 1] b)) = kv_index_of b \<and>
   (''_Signal'', k) \<in> kv_index_of b"
proof -
  let ?k = "(''p'', ''n'', ''colca/v1/_Signal/n/p'') :: kvkey"
  let ?b = "empty_disk\<lparr>dKV := [(?k, encode_kv 1 zero_record)], dKVIndex := {(''_Alarm'', ?k)}\<rparr>"
  have "kvIndexKey ?k = Some (''_Signal'', ?k)" by code_simp
  moreover have ok: "table_ok (dKV ?b)" "finite (dKVIndex ?b)" "dKVRecovery ?b = None"
    by (simp_all add: empty_disk_def table_ok_def)
  ultimately show ?thesis
    using contract_index_recovery [OF ok, of "\<lambda>_. 1" "\<lambda>_. 1" "[1, 1]"]
    unfolding Let_def by (simp add: kv_index_of_def)
qed

section \<open>Opening\<close>

definition readCounter :: "(string \<rightharpoonup> nat) \<Rightarrow> nat \<Rightarrow> string \<Rightarrow> nat" where
  "readCounter family dflt stream = (case family stream of Some n \<Rightarrow> n | None \<Rightarrow> dflt)"

text \<open>\<^verbatim>\<open>validateRefreshPending\<close>: the range is not empty.\<close>

definition refresh_valid :: "Disk \<Rightarrow> string \<Rightarrow> bool" where
  "refresh_valid d stream = (case dRefresh d stream of None \<Rightarrow> True | Some (from, to) \<Rightarrow> from < to)"

definition legacyClean :: "nat list option \<Rightarrow> bool \<Rightarrow> (string \<Rightarrow> nat) \<Rightarrow> (string \<Rightarrow> nat) \<Rightarrow> bool" where
  "legacyClean mark withLWM next lwm =
     (case mark of None \<Rightarrow> False
      | Some v \<Rightarrow> v = concat (map (\<lambda>st. next st # (if withLWM then [lwm st] else [])) streams))"

definition indexTrust :: "Disk \<Rightarrow> bool \<Rightarrow> (string \<Rightarrow> nat) \<Rightarrow> string \<Rightarrow> bool" where
  "indexTrust d legacy next stream =
     (let through = readCounter (dIndexed d) 0 stream in
      if through \<noteq> 0 then through = next stream else if next stream = 1 then True else legacy)"

text \<open>\<^verbatim>\<open>openIndexes\<close>; the last component is the disk it leaves, the first two the coverage of the
  signal and of the target index.\<close>

definition openIndexes ::
    "(nat \<Rightarrow> nat) \<Rightarrow> (string \<Rightarrow> nat) \<Rightarrow> (string \<Rightarrow> nat) \<Rightarrow> Disk \<Rightarrow> (string \<Rightarrow> nat) \<times> (string \<Rightarrow> nat) \<times> Disk" where
  "openIndexes admit next lwm d =
     (let kvTrust = indexTrust d (legacyClean (dLegacyKV d) False next lwm) next;
          sigTrust = indexTrust d (legacyClean (dLegacySig d) True next lwm) next;
          d1 = (if list_all kvTrust streams then d else reconcileKVIndex admit next d);
          sigFrom = (\<lambda>st. if st \<notin> set streams then 0
                     else if sigTrust st then readCounter (dSigFrom d) (next st) st else next st);
          targetFrom = (\<lambda>st. if st \<notin> set streams then 0
                     else if sigTrust st then readCounter (dTargetFrom d) (next st) st else next st);
          put = (\<lambda>family f st. if st \<in> set streams then Some (f st) else family st)
      in (sigFrom, targetFrom,
          d1\<lparr>dSigFrom := put (dSigFrom d1) sigFrom, dTargetFrom := put (dTargetFrom d1) targetFrom,
             dIndexed := put (dIndexed d1) next, dLegacySig := None, dLegacyKV := None\<rparr>))"

text \<open>\<^verbatim>\<open>minted\<close> is the id the random source returns.\<close>

definition loadOrMintStoreID :: "string \<Rightarrow> Disk \<Rightarrow> string \<times> bool \<times> Disk" where
  "loadOrMintStoreID minted d =
     (case dStoreID d of Some known \<Rightarrow> (known, False, d)
      | None \<Rightarrow> (minted, True, d\<lparr>dStoreID := Some minted\<rparr>))"

text \<open>A stream the store does not know reads as 0 in every counter map, as a missing key of a Go map
  does. The ingress cap is 0 until \<^verbatim>\<open>SetMaxRecordBytes\<close>.\<close>

definition restored :: "(string \<rightharpoonup> nat) \<Rightarrow> nat \<Rightarrow> string \<Rightarrow> nat" where
  "restored family dflt = (\<lambda>st. if st \<in> set streams then readCounter family dflt st else 0)"

definition OpenWithOptions :: "(nat \<Rightarrow> nat) \<Rightarrow> string \<Rightarrow> Disk \<Rightarrow> Store option" where
  "OpenWithOptions admit minted d =
     (if \<not> list_all (refresh_valid d) streams then None
      else
        let next = restored (dMeta d) 1; lwm = restored (dLWM d) 1 in
        case openIndexes admit next lwm d of (sigFrom, targetFrom, d1) \<Rightarrow>
          case loadOrMintStoreID minted d1 of (own, new, d2) \<Rightarrow>
            Some \<lparr>sDisk = d2, sNext = next, sLWM = lwm, sBytes = restored (dBytes d) 0,
                  sHoles = (\<lambda>_. 0), sHeads = (\<lambda>_ _. 0), sHWMs = (\<lambda>_. None), sAdopted = (\<lambda>_. None),
                  sPolicies = [], sSigFrom = sigFrom, sTargetFrom = targetFrom, sMaxRecordBytes = 0,
                  sID = own, sIDMinted = new\<rparr>)"

definition SetMaxRecordBytes :: "nat \<Rightarrow> Store \<Rightarrow> Store" where
  "SetMaxRecordBytes limit s = s\<lparr>sMaxRecordBytes := limit\<rparr>"

text \<open>A store on an empty directory.\<close>

definition new_store :: Store where
  "new_store = the (OpenWithOptions (\<lambda>_. 0) ''0f'' empty_disk)"

abbreviation one_per_stream :: "string \<Rightarrow> nat" where
  "one_per_stream \<equiv> (\<lambda>st. if st \<in> set streams then 1 else 0)"

lemma trusted_when_new: "list_all (indexTrust empty_disk legacy one_per_stream) streams"
  by (simp add: list_all_iff indexTrust_def readCounter_def empty_disk_def)

lemma openIndexes_new:
  "openIndexes admit one_per_stream one_per_stream empty_disk =
     (one_per_stream, one_per_stream, empty_disk
       \<lparr>dSigFrom := (\<lambda>st. if st \<in> set streams then Some 1 else None),
        dTargetFrom := (\<lambda>st. if st \<in> set streams then Some 1 else None),
        dIndexed := (\<lambda>st. if st \<in> set streams then Some 1 else None)\<rparr>)"
  unfolding openIndexes_def Let_def
  by (simp only: trusted_when_new if_True) (simp add: empty_disk_def readCounter_def fun_eq_iff)

lemma new_store_eq:
  "new_store = \<lparr>sDisk = empty_disk
       \<lparr>dSigFrom := (\<lambda>st. if st \<in> set streams then Some 1 else None),
        dTargetFrom := (\<lambda>st. if st \<in> set streams then Some 1 else None),
        dIndexed := (\<lambda>st. if st \<in> set streams then Some 1 else None), dStoreID := Some ''0f''\<rparr>,
     sNext = one_per_stream, sLWM = one_per_stream, sBytes = (\<lambda>_. 0), sHoles = (\<lambda>_. 0), sHeads = (\<lambda>_ _. 0),
     sHWMs = (\<lambda>_. None), sAdopted = (\<lambda>_. None), sPolicies = [], sSigFrom = one_per_stream,
     sTargetFrom = one_per_stream, sMaxRecordBytes = 0, sID = ''0f'', sIDMinted = True\<rparr>"
proof -
  have r: "restored (dMeta empty_disk) 1 = one_per_stream" "restored (dLWM empty_disk) 1 = one_per_stream"
    "restored (dBytes empty_disk) 0 = (\<lambda>_. 0)"
    by (auto simp: restored_def readCounter_def empty_disk_def)
  have "list_all (refresh_valid empty_disk) streams" by (simp add: list_all_iff refresh_valid_def empty_disk_def)
  then show ?thesis
    unfolding new_store_def OpenWithOptions_def Let_def r openIndexes_new
    by (simp add: loadOrMintStoreID_def) (simp add: empty_disk_def)
qed

end
