(* ===== verification/Store_Append.thy ===== *)
theory Store_Append
  imports Store_Open
begin

text \<open>
  What an append does: the fields of the disk one record and a list of records change, the policy
  cache as a pure cache, and the group commit of concurrent appends, which is shown to leave what
  the same requests leave when each is a commit of its own.
\<close>

section \<open>Fields after a write\<close>

lemma project_kv_simps [store_simps]:
  "dRecs (project_kv off r b) = dRecs b" "dMeta (project_kv off r b) = dMeta b"
  "dIndexed (project_kv off r b) = dIndexed b" "dLWM (project_kv off r b) = dLWM b"
  "dBytes (project_kv off r b) = dBytes b" "dSig (project_kv off r b) = dSig b"
  "dTarget (project_kv off r b) = dTarget b" "dCursor (project_kv off r b) = dCursor b"
  "dCT (project_kv off r b) = dCT b" "dHWM (project_kv off r b) = dHWM b"
  "dChildStore (project_kv off r b) = dChildStore b" "dJournal (project_kv off r b) = dJournal b"
  "dRefresh (project_kv off r b) = dRefresh b" "dAcked (project_kv off r b) = dAcked b"
  by (simp_all add: project_kv_def setKV_def deleteKV_def)

lemma encode_record_simps [simp]:
  "xSignalID (encode_record off r) = record_signal r" "xTopic (encode_record off r) = rTopic r"
  "xPayload (encode_record off r) = rPayload r" "xTS (encode_record off r) = rTS r"
  by (simp_all add: encode_record_def)

lemma addRecord_simps [store_simps]:
  "dRecs (fst (addRecord st off r b)) = (dRecs b)(st := (dRecs b st)(off \<mapsto> encode_record off r))"
  "dMeta (fst (addRecord st off r b)) = dMeta b" "dIndexed (fst (addRecord st off r b)) = dIndexed b"
  "dLWM (fst (addRecord st off r b)) = dLWM b" "dBytes (fst (addRecord st off r b)) = dBytes b"
  "dSig (fst (addRecord st off r b)) =
     (if record_signal r = '''' then dSig b else insert (st, record_signal r, off) (dSig b))"
  "dTarget (fst (addRecord st off r b)) =
     (if recordTarget (rTopic r) = '''' then dTarget b else insert (st, recordTarget (rTopic r), off) (dTarget b))"
  "dKV (fst (addRecord st off r b)) = dKV (project_kv off r b)"
  "dKVIndex (fst (addRecord st off r b)) = dKVIndex (project_kv off r b)"
  "dCursor (fst (addRecord st off r b)) = dCursor b" "dCT (fst (addRecord st off r b)) = dCT b"
  "dHWM (fst (addRecord st off r b)) = dHWM b" "dChildStore (fst (addRecord st off r b)) = dChildStore b"
  "dJournal (fst (addRecord st off r b)) = dJournal b" "dRefresh (fst (addRecord st off r b)) = dRefresh b"
  "dAcked (fst (addRecord st off r b)) = dAcked b"
  "snd (addRecord st off r b) = rec_size st (encode_record off r)"
  by (simp_all add: addRecord_def Let_def project_kv_simps)
    (simp_all add: project_kv_def setKV_def deleteKV_def split: option.split)

text \<open>What \<^verbatim>\<open>writeAppend\<close> returns, without its batch, and its batch as a fold of \<^verbatim>\<open>addRecord\<close>.\<close>

definition add_records :: "string \<Rightarrow> nat \<Rightarrow> Record list \<Rightarrow> Disk \<Rightarrow> Disk" where
  "add_records st off recs b = snd (snd (writeAppend st recs off b))"

fun records_size :: "string \<Rightarrow> nat \<Rightarrow> Record list \<Rightarrow> nat" where
  "records_size st off [] = 0"
| "records_size st off (r # rs) = rec_size st (encode_record off r) + records_size st (Suc off) rs"

lemma add_records_Nil [simp]: "add_records st off [] b = b"
  by (simp add: add_records_def)

lemma add_records_Cons [simp]:
  "add_records st off (r # rs) b = add_records st (Suc off) rs (fst (addRecord st off r b))"
  by (simp add: add_records_def case_prod_beta)

lemma writeAppend_eq:
  "writeAppend st recs off b = (off + length recs, records_size st off recs, add_records st off recs b)"
proof (induction recs arbitrary: off b)
  case (Cons r rs)
  show ?case
    by (simp add: case_prod_beta Cons addRecord_simps(17))
qed simp

lemma add_records_simps [store_simps]:
  "dMeta (add_records st off recs b) = dMeta b" "dIndexed (add_records st off recs b) = dIndexed b"
  "dLWM (add_records st off recs b) = dLWM b" "dBytes (add_records st off recs b) = dBytes b"
  "dCursor (add_records st off recs b) = dCursor b" "dCT (add_records st off recs b) = dCT b"
  "dHWM (add_records st off recs b) = dHWM b" "dChildStore (add_records st off recs b) = dChildStore b"
  "dJournal (add_records st off recs b) = dJournal b" "dRefresh (add_records st off recs b) = dRefresh b"
  "dAcked (add_records st off recs b) = dAcked b"
  by (induction recs arbitrary: off b) (simp_all add: addRecord_simps)

lemma add_records_dRecs:
  "dRecs (add_records st off recs b) st' o' =
     (if st' = st \<and> off \<le> o' \<and> o' < off + length recs then Some (encode_record o' (recs ! (o' - off)))
      else dRecs b st' o')"
proof (induction recs arbitrary: off b)
  case (Cons r rs)
  show ?case
    by (auto simp: Cons addRecord_simps nth_Cons' Suc_diff_le not_less le_Suc_eq)
qed auto

lemma add_records_KV_untouched:
  "(\<And>r. r \<in> set recs \<Longrightarrow> rKVPath r \<noteq> '''' \<Longrightarrow> kv_key r \<noteq> k) \<Longrightarrow>
   map_of (dKV (add_records st off recs b)) k = map_of (dKV b) k"
proof (induction recs arbitrary: off b)
  case (Cons r rs)
  then have "map_of (dKV (project_kv off r b)) k = map_of (dKV b) k"
    by (auto simp: project_kv_def setKV_def deleteKV_def)
  then show ?case using Cons by (simp add: addRecord_simps)
qed simp

section \<open>The policy cache\<close>

text \<open>The decision without the cache, and the cache's invariant: what it holds for a value is the
  decision that value gives.\<close>

definition policy_of :: "string \<Rightarrow> Record \<Rightarrow> Store \<Rightarrow> policy_error + bool" where
  "policy_of rt rec s =
     (case MetricSignalKey rt (rTopic rec) of
        None \<Rightarrow> Inr False
      | Some k \<Rightarrow> (case map_of (dKV (sDisk s)) k of
            None \<Rightarrow> Inr False | Some v \<Rightarrow> SignalSourceLocalOnly (slice_bytes (vPayload v))))"

definition policies_ok :: "(kvkey, kvEnc \<times> bool) table \<Rightarrow> bool" where
  "policies_ok pol \<longleftrightarrow>
     (\<forall>k v b. map_of pol k = Some (v, b) \<longrightarrow> SignalSourceLocalOnly (slice_bytes (vPayload v)) = Inr b)"

lemma metricSourceLocalOnly_cached:
  assumes "policies_ok (sPolicies s)" "metricSourceLocalOnly rt rec s = (res, s')"
  shows "res = policy_of rt rec s \<and> policies_ok (sPolicies s') \<and> (\<exists>pol. s' = s\<lparr>sPolicies := pol\<rparr>)"
proof -
  have self: "\<exists>pol. s = s\<lparr>sPolicies := pol\<rparr>" by (rule exI [of _ "sPolicies s"]) simp
  show ?thesis
    using assms self
    by (auto simp: metricSourceLocalOnly_def policy_of_def policies_ok_def Let_def
        split: option.splits sum.splits if_splits)
qed

lemma metrics_local_only_cached:
  "policies_ok (sPolicies s) \<Longrightarrow> metrics_local_only rt recs s = (res, s') \<Longrightarrow>
   policies_ok (sPolicies s') \<and> (\<exists>pol. s' = s\<lparr>sPolicies := pol\<rparr>) \<and>
   (\<forall>bs. res = Inr bs \<longrightarrow> length bs = length recs)"
proof (induction recs arbitrary: s res s')
  case Nil
  then show ?case by (auto intro: exI [of _ "sPolicies s"])
next
  case (Cons r rs)
  obtain x s1 where 1: "metricSourceLocalOnly rt r s = (x, s1)" by fastforce
  obtain y s2 where 2: "metrics_local_only rt rs s1 = (y, s2)" by fastforce
  obtain pol where s1: "s1 = s\<lparr>sPolicies := pol\<rparr>" "policies_ok (sPolicies s1)"
    using metricSourceLocalOnly_cached [OF Cons.prems(1) 1] by auto
  show ?case
    using Cons.IH [OF s1(2) 2] Cons.prems(2) 1 2 s1 by (cases x; cases y) auto
qed

section \<open>Checks on stores that agree\<close>

text \<open>What a check reads: the cap, the cache and the signals of the metrics it is asked about.\<close>

definition check_agree :: "string \<Rightarrow> string \<Rightarrow> Record list \<Rightarrow> Store \<Rightarrow> Store \<Rightarrow> bool" where
  "check_agree rt st recs s q \<longleftrightarrow>
     sMaxRecordBytes s = sMaxRecordBytes q \<and> sPolicies s = sPolicies q \<and>
     (st = ''metrics'' \<longrightarrow> (\<forall>r \<in> set recs. \<forall>k. MetricSignalKey rt (rTopic r) = Some k \<longrightarrow>
        map_of (dKV (sDisk s)) k = map_of (dKV (sDisk q)) k))"

lemma same_policies:
  "sPolicies s = sPolicies q \<Longrightarrow> \<exists>pol. s = s\<lparr>sPolicies := pol\<rparr> \<and> q = q\<lparr>sPolicies := pol\<rparr>"
  by (rule exI [of _ "sPolicies q"]) (metis Store.surjective Store.update_convs(9))

lemma metricSourceLocalOnly_agree:
  assumes "sPolicies s = sPolicies q"
    and "\<And>k. MetricSignalKey rt (rTopic r) = Some k \<Longrightarrow> map_of (dKV (sDisk s)) k = map_of (dKV (sDisk q)) k"
  shows "\<exists>x pol. metricSourceLocalOnly rt r s = (x, s\<lparr>sPolicies := pol\<rparr>) \<and>
    metricSourceLocalOnly rt r q = (x, q\<lparr>sPolicies := pol\<rparr>)"
proof (cases "MetricSignalKey rt (rTopic r)")
  case None
  then show ?thesis using same_policies [OF assms(1)] by (auto simp: metricSourceLocalOnly_def)
next
  case (Some k)
  then show ?thesis
    using assms(2) [OF Some] assms(1) same_policies [OF assms(1)]
    by (auto simp: metricSourceLocalOnly_def Let_def split: option.split sum.split)
qed

lemma metrics_local_only_agree:
  assumes "sPolicies s = sPolicies q"
    and "\<And>r k. r \<in> set recs \<Longrightarrow> MetricSignalKey rt (rTopic r) = Some k \<Longrightarrow>
      map_of (dKV (sDisk s)) k = map_of (dKV (sDisk q)) k"
  shows "\<exists>x pol. metrics_local_only rt recs s = (x, s\<lparr>sPolicies := pol\<rparr>) \<and>
    metrics_local_only rt recs q = (x, q\<lparr>sPolicies := pol\<rparr>)"
  using assms
proof (induction recs arbitrary: s q)
  case Nil
  then have "s = s\<lparr>sPolicies := sPolicies q\<rparr>" by simp
  then show ?case by (auto intro!: exI [of _ "sPolicies q"])
next
  case (Cons r rs)
  obtain x pol where 1: "metricSourceLocalOnly rt r s = (x, s\<lparr>sPolicies := pol\<rparr>)"
    "metricSourceLocalOnly rt r q = (x, q\<lparr>sPolicies := pol\<rparr>)"
    using metricSourceLocalOnly_agree [of s q rt r] Cons.prems(1) Cons.prems(2) [of r] by (metis list.set_intros(1))
  have "\<exists>y pol'. metrics_local_only rt rs (s\<lparr>sPolicies := pol\<rparr>) = (y, s\<lparr>sPolicies := pol, sPolicies := pol'\<rparr>) \<and>
      metrics_local_only rt rs (q\<lparr>sPolicies := pol\<rparr>) = (y, q\<lparr>sPolicies := pol, sPolicies := pol'\<rparr>)"
  proof (rule Cons.IH)
    fix r' k assume "r' \<in> set rs" "MetricSignalKey rt (rTopic r') = Some k"
    then show "map_of (dKV (sDisk (s\<lparr>sPolicies := pol\<rparr>))) k = map_of (dKV (sDisk (q\<lparr>sPolicies := pol\<rparr>))) k"
      using Cons.prems(2) [of r' k] by simp
  qed simp
  then obtain y pol' where
    "metrics_local_only rt rs (s\<lparr>sPolicies := pol\<rparr>) = (y, s\<lparr>sPolicies := pol, sPolicies := pol'\<rparr>) \<and>
     metrics_local_only rt rs (q\<lparr>sPolicies := pol\<rparr>) = (y, q\<lparr>sPolicies := pol, sPolicies := pol'\<rparr>)"
    by blast
  then have 2: "metrics_local_only rt rs (s\<lparr>sPolicies := pol\<rparr>) = (y, s\<lparr>sPolicies := pol'\<rparr>)"
    "metrics_local_only rt rs (q\<lparr>sPolicies := pol\<rparr>) = (y, q\<lparr>sPolicies := pol'\<rparr>)"
    by simp_all
  show ?case
  proof (cases x)
    case (Inl err)
    then show ?thesis using 1 by auto
  next
    case (Inr b)
    then show ?thesis using 1 2 by (cases y) auto
  qed
qed

lemma checkAppend_agree:
  assumes "check_agree rt st recs s q"
  shows "\<exists>x pol. checkAppend rt st recs s = (x, s\<lparr>sPolicies := pol\<rparr>) \<and>
    checkAppend rt st recs q = (x, q\<lparr>sPolicies := pol\<rparr>)"
proof -
  have a: "sMaxRecordBytes s = sMaxRecordBytes q" "sPolicies s = sPolicies q"
    using assms by (auto simp: check_agree_def)
  show ?thesis
  proof (cases "list_ex (too_large (sMaxRecordBytes q)) recs \<or> st \<noteq> ''metrics''")
    case True
    then show ?thesis using a same_policies [OF a(2)] unfolding checkAppend_def by auto
  next
    case False
    obtain x pol where "metrics_local_only rt recs s = (x, s\<lparr>sPolicies := pol\<rparr>)"
      "metrics_local_only rt recs q = (x, q\<lparr>sPolicies := pol\<rparr>)"
      using metrics_local_only_agree [of s q recs rt] assms False by (auto simp: check_agree_def)
    then show ?thesis using False a by (cases x) (auto simp: checkAppend_def)
  qed
qed

section \<open>A group as a sequence of commits\<close>

text \<open>The reference: every request of a group is a commit of its own, in queue order.\<close>

fun seq_appends :: "string \<Rightarrow> appendRequest list \<Rightarrow> Store \<Rightarrow> (store_error + nat \<times> nat) list \<times> Store" where
  "seq_appends rt [] s = ([], s)"
| "seq_appends rt (r # rs) s =
     (case appendLocked rt True (aqStream r) (aqRecs r) s of (x, s1) \<Rightarrow>
        case seq_appends rt rs s1 of (xs, s2) \<Rightarrow> (x # xs, s2))"

lemma heads_fold:
  "fold (\<lambda>st b. setBytes st (y st) (setHead st (n st) b)) sts b =
     b\<lparr>dMeta := (\<lambda>st. if st \<in> set sts then Some (n st) else dMeta b st),
       dIndexed := (\<lambda>st. if st \<in> set sts then Some (n st) else dIndexed b st),
       dBytes := (\<lambda>st. if st \<in> set sts then Some (y st) else dBytes b st)\<rparr>"
proof (induction sts arbitrary: b)
  case (Cons st sts)
  show ?case
    unfolding fold_Cons comp_def Cons.IH
    by (rule Disk.equality) (auto simp: setBytes_def setHead_def)
qed simp

lemma addRecord_heads:
  "addRecord st off r (b\<lparr>dMeta := m, dIndexed := i, dBytes := y\<rparr>) =
     (fst (addRecord st off r b)\<lparr>dMeta := m, dIndexed := i, dBytes := y\<rparr>, snd (addRecord st off r b))"
  by (cases b) (simp add: addRecord_def project_kv_def setKV_def deleteKV_def Let_def split: option.split)

lemma add_records_heads:
  "add_records st off recs (b\<lparr>dMeta := m, dIndexed := i, dBytes := y\<rparr>) =
     (add_records st off recs b)\<lparr>dMeta := m, dIndexed := i, dBytes := y\<rparr>"
  by (induction recs arbitrary: off b) (simp_all add: addRecord_heads)

text \<open>The effect of one successful append on the store.\<close>

definition appended :: "string \<Rightarrow> Record list \<Rightarrow> bool list option \<Rightarrow> Store \<Rightarrow> Store" where
  "appended st recs lo s =
     (let rs = with_local_only lo recs; off = sNext s st + length rs;
          live = sBytes s st + records_size st (sNext s st) rs in
      s\<lparr>sDisk := setBytes st live (setHead st off (add_records st (sNext s st) rs (sDisk s))),
        sNext := (sNext s)(st := off), sBytes := (sBytes s)(st := live),
        sHeads := noteContracts st off recs (sHeads s)\<rparr>)"

lemma appendLocked_cases:
  assumes "checkAppend rt st recs s = (x, s1)"
  shows "appendLocked rt ok st recs s =
    (if sNext s st = 0 then (Inl (UnknownStream st), s)
     else case x of Inl err \<Rightarrow> (Inl err, s1)
       | Inr lo \<Rightarrow> if \<not> ok then (Inl ApplyFailed, s1)
           else (Inr (sNext s st, sNext s st + length (with_local_only lo recs) - 1), appended st recs lo s1))"
proof -
  have "check_agree rt st recs s s" by (simp add: check_agree_def)
  then obtain pol where "s1 = s\<lparr>sPolicies := pol\<rparr>"
    using checkAppend_agree [of rt st recs s s] assms by auto
  then show ?thesis
    using assms
    by (cases x) (simp_all add: appendLocked_def appendAdvancingLocked_def writeAppend_eq appended_def Let_def)
qed

lemma metrics_local_only_length:
  "metrics_local_only rt recs s = (Inr bs, s') \<Longrightarrow> length bs = length recs"
  by (induction recs arbitrary: s bs) (auto split: prod.split_asm sum.split_asm)

lemma checkAppend_length:
  assumes "checkAppend rt st recs s = (Inr lo, s')"
  shows "length (with_local_only lo recs) = length recs" "\<exists>pol. s' = s\<lparr>sPolicies := pol\<rparr>"
proof -
  show "length (with_local_only lo recs) = length recs"
    using assms by (auto simp: checkAppend_def with_local_only_def dest: metrics_local_only_length
        split: if_split_asm prod.split_asm sum.split_asm)
  have "check_agree rt st recs s s" by (simp add: check_agree_def)
  then show "\<exists>pol. s' = s\<lparr>sPolicies := pol\<rparr>" using checkAppend_agree [of rt st recs s s] assms by auto
qed

text \<open>The current state after a list of records.\<close>

definition kv_put :: "nat \<Rightarrow> Record \<Rightarrow> (kvkey \<rightharpoonup> kvEnc) \<Rightarrow> (kvkey \<rightharpoonup> kvEnc)" where
  "kv_put off r m =
     (if rKVPath r = '''' then m else if rDelete r then m(kv_key r := None) else m(kv_key r \<mapsto> encode_kv off r))"

fun kv_puts :: "nat \<Rightarrow> Record list \<Rightarrow> (kvkey \<rightharpoonup> kvEnc) \<Rightarrow> (kvkey \<rightharpoonup> kvEnc)" where
  "kv_puts off [] m = m"
| "kv_puts off (r # rs) m = kv_puts (Suc off) rs (kv_put off r m)"

lemma add_records_KV: "map_of (dKV (add_records st off recs b)) = kv_puts off recs (map_of (dKV b))"
proof (induction recs arbitrary: off b)
  case (Cons r rs)
  have "map_of (dKV (project_kv off r b)) = kv_put off r (map_of (dKV b))"
    by (simp add: project_kv_def setKV_def deleteKV_def kv_put_def)
  then show ?case by (simp add: Cons addRecord_simps)
qed simp

lemma kv_puts_append: "kv_puts off (xs @ ys) m = kv_puts (off + length xs) ys (kv_puts off xs m)"
  by (induction xs arbitrary: off m) simp_all

lemma kv_puts_local_only:
  assumes "length (with_local_only lo recs) = length recs"
  shows "kv_puts off (with_local_only lo recs) m = kv_puts off recs m"
proof -
  have put: "kv_put off (r\<lparr>rSourceLocalOnly := b\<rparr>) m = kv_put off r m" for off r b m
    by (simp add: kv_put_def kv_key_def encode_kv_def record_origin_def)
  have "kv_puts off (map2 (\<lambda>r b. r\<lparr>rSourceLocalOnly := b\<rparr>) recs bs) m = kv_puts off recs m"
    if "length recs \<le> length bs" for bs
    using that by (induction recs bs arbitrary: off m rule: list_induct2') (simp_all add: put)
  then show ?thesis using assms by (cases lo) (simp_all add: with_local_only_def)
qed

lemma append_KV:
  assumes "appendLocked rt ok st recs s = (Inr (first, final), s')"
  shows "map_of (dKV (sDisk s')) = kv_puts (sNext s st) recs (map_of (dKV (sDisk s)))" "first = sNext s st"
proof -
  obtain x s1 where x: "checkAppend rt st recs s = (x, s1)" by fastforce
  then obtain lo where lo: "x = Inr lo" "first = sNext s st" "s' = appended st recs lo s1"
    using assms unfolding appendLocked_cases [OF x] by (cases x) (auto split: if_split_asm)
  show "first = sNext s st" by (rule lo(2))
  show "map_of (dKV (sDisk s')) = kv_puts (sNext s st) recs (map_of (dKV (sDisk s)))"
    using checkAppend_length [OF x [unfolded lo(1)]] kv_puts_local_only
    by (auto simp: lo(3) appended_def Let_def setBytes_def setHead_def add_records_KV)
qed

text \<open>The leader's state after a prefix of the group, and the store the same prefix leaves as a
  sequence of commits.\<close>

definition same_rest :: "Store \<Rightarrow> Store \<Rightarrow> bool" where
  "same_rest s q \<longleftrightarrow>
     q\<lparr>sDisk := sDisk s, sNext := sNext s, sBytes := sBytes s, sPolicies := sPolicies s, sHeads := sHeads s\<rparr> = s"

definition group_next :: "Store \<Rightarrow> append_group \<Rightarrow> string \<Rightarrow> nat" where
  "group_next s g st = (if st \<in> set (acGrown g) then the (acNext g st) else sNext s st)"

definition group_bytes :: "Store \<Rightarrow> append_group \<Rightarrow> string \<Rightarrow> nat" where
  "group_bytes s g st = (if st \<in> set (acGrown g) then the (acBytes g st) else sBytes s st)"

definition group_sim :: "Store \<Rightarrow> append_group \<Rightarrow> Store \<Rightarrow> bool" where
  "group_sim s0 g q \<longleftrightarrow>
     acStore g = s0\<lparr>sPolicies := sPolicies q\<rparr> \<and> same_rest s0 q \<and>
     sDisk q = set_heads g (acBatch g) \<and> sNext q = group_next s0 g \<and> sBytes q = group_bytes s0 g \<and>
     set (acGrown g) \<subseteq> dom (acNext g) \<and>
     (\<forall>st n. acNext g st = Some n \<longrightarrow> n = sNext q st \<and> n \<noteq> 0 \<and> acBytes g st = Some (sBytes q st)) \<and>
     (acCommitted g = [] \<longrightarrow> acGrown g = [] \<and> acBatch g = sDisk s0)"

lemma same_rest_eq:
  "same_rest s q \<Longrightarrow>
    s\<lparr>sPolicies := sPolicies q, sDisk := sDisk q, sNext := sNext q, sBytes := sBytes q, sHeads := h\<rparr> = q\<lparr>sHeads := h\<rparr>"
  by (cases q; cases s) (simp add: same_rest_def)

lemma same_rest_limit: "same_rest s q \<Longrightarrow> sMaxRecordBytes q = sMaxRecordBytes s"
  by (cases q; cases s) (simp add: same_rest_def)

lemma group_sim_start: "group_sim s (group_start s) s"
  by (auto simp: group_sim_def group_start_def set_heads_def same_rest_def group_next_def group_bytes_def)

lemma group_sim_next:
  assumes "group_sim s0 g q"
  shows "acNext g st = None \<Longrightarrow> sNext q st = sNext s0 st \<and> sBytes q st = sBytes s0 st"
    and "acNext g st = Some n \<Longrightarrow> n = sNext q st \<and> n \<noteq> 0 \<and> acBytes g st = Some (sBytes q st)"
    and "acStore g = s0\<lparr>sPolicies := sPolicies q\<rparr>"
    and "sDisk q = set_heads g (acBatch g)"
proof -
  show "sNext q st = sNext s0 st \<and> sBytes q st = sBytes s0 st" if "acNext g st = None"
    using assms that by (auto simp: group_sim_def group_next_def group_bytes_def)
  show "n = sNext q st \<and> n \<noteq> 0 \<and> acBytes g st = Some (sBytes q st)" if "acNext g st = Some n"
    using assms that unfolding group_sim_def by blast
qed (use assms in \<open>simp_all add: group_sim_def\<close>)

lemma set_heads_eq:
  "set_heads g b =
     b\<lparr>dMeta := (\<lambda>st. if st \<in> set (acGrown g) then Some (the (acNext g st)) else dMeta b st),
       dIndexed := (\<lambda>st. if st \<in> set (acGrown g) then Some (the (acNext g st)) else dIndexed b st),
       dBytes := (\<lambda>st. if st \<in> set (acGrown g) then Some (the (acBytes g st)) else dBytes b st)\<rparr>"
  unfolding set_heads_def by (rule heads_fold)

lemma set_heads_step:
  assumes "acNext g' = (acNext g)(st \<mapsto> off)" "acBytes g' = (acBytes g)(st \<mapsto> live)"
    and "set (acGrown g') = insert st (set (acGrown g))"
  shows "setBytes st live (setHead st off (add_records st first rs (set_heads g b))) =
    set_heads g' (add_records st first rs b)"
  unfolding set_heads_eq add_records_heads
  by (rule Disk.equality)
    (auto simp: assms setBytes_def setHead_def add_records_simps fun_eq_iff)

text \<open>A request whose stream the group meets for the first time.\<close>

definition group_touch :: "string \<Rightarrow> append_group \<Rightarrow> append_group" where
  "group_touch st g =
     (if acNext g st = None
      then g\<lparr>acNext := (acNext g)(st \<mapsto> sNext (acStore g) st),
             acBytes := (acBytes g)(st \<mapsto> sBytes (acStore g) st)\<rparr> else g)"

lemma group_touch_fields [simp]:
  "acGrown (group_touch st g) = acGrown g" "acBatch (group_touch st g) = acBatch g"
  "acStore (group_touch st g) = acStore g" "acCommitted (group_touch st g) = acCommitted g"
  "acDone (group_touch st g) = acDone g"
  by (simp_all add: group_touch_def)

lemma group_sim_touch:
  assumes sim: "group_sim s0 g q" and "sNext q st \<noteq> 0"
  shows "group_sim s0 (group_touch st g) q"
    and "acNext (group_touch st g) st = Some (sNext q st)"
    and "acBytes (group_touch st g) st = Some (sBytes q st)"
proof -
  have none: "acNext g st = None \<Longrightarrow> sNext (acStore g) st = sNext q st \<and> sBytes (acStore g) st = sBytes q st"
    using group_sim_next(1,3) [OF sim] by simp
  show "acNext (group_touch st g) st = Some (sNext q st)"
    "acBytes (group_touch st g) st = Some (sBytes q st)"
    using none group_sim_next(2) [OF sim, of st] by (cases "acNext g st"; simp add: group_touch_def)+
  show "group_sim s0 (group_touch st g) q"
  proof (cases "acNext g st = None")
    case True
    then have grown: "st \<notin> set (acGrown g)" using sim by (auto simp: group_sim_def)
    then have "set_heads (group_touch st g) (acBatch g) = set_heads g (acBatch g)"
      unfolding set_heads_eq using True by (intro Disk.equality) (auto simp: group_touch_def fun_eq_iff)
    moreover have "group_next s0 (group_touch st g) = group_next s0 g"
      "group_bytes s0 (group_touch st g) = group_bytes s0 g"
      using grown by (auto simp: fun_eq_iff group_next_def group_bytes_def group_touch_def)
    moreover have "set (acGrown g) \<subseteq> dom (acNext (group_touch st g))"
      using sim by (auto simp: group_sim_def group_touch_def)
    moreover have "\<forall>s n. acNext (group_touch st g) s = Some n \<longrightarrow>
        n = sNext q s \<and> n \<noteq> 0 \<and> acBytes (group_touch st g) s = Some (sBytes q s)"
      using group_sim_next(2) [OF sim] none True assms(2) by (auto simp: group_touch_def)
    ultimately show ?thesis
      using sim unfolding group_sim_def group_touch_fields by simp
  next
    case False
    then have "group_touch st g = g" by (auto simp: group_touch_def)
    then show ?thesis using sim by simp
  qed
qed

lemma group_done_fields:
  "group_next s (g\<lparr>acStore := x\<rparr>) = group_next s g" "group_bytes s (g\<lparr>acStore := x\<rparr>) = group_bytes s g"
  "set_heads (g\<lparr>acStore := x\<rparr>) b = set_heads g b"
  "group_next s (g\<lparr>acDone := d\<rparr>) = group_next s g" "group_bytes s (g\<lparr>acDone := d\<rparr>) = group_bytes s g"
  "set_heads (g\<lparr>acDone := d\<rparr>) b = set_heads g b"
  by (simp_all add: fun_eq_iff group_next_def group_bytes_def set_heads_def)

lemma group_sim_policies:
  assumes "group_sim s0 g q"
  shows "group_sim s0 (g\<lparr>acStore := (acStore g)\<lparr>sPolicies := pol\<rparr>, acDone := d\<rparr>) (q\<lparr>sPolicies := pol\<rparr>)"
  using assms by (auto simp: group_sim_def group_done_fields same_rest_def)

lemma group_sim_unknown:
  assumes "group_sim s0 g q"
  shows "group_sim s0 (g\<lparr>acDone := d\<rparr>) q"
  using assms by (auto simp: group_sim_def group_done_fields)

text \<open>One request: what the group adds to its batch is an append to the store it stands for, with the
  decision its check takes.\<close>

definition group_effect :: "string \<Rightarrow> Record list \<Rightarrow> store_error + bool list option \<Rightarrow> Store \<Rightarrow> (store_error + nat \<times> nat) \<times> Store" where
  "group_effect st recs y q =
     (if sNext q st = 0 then (Inl (UnknownStream st), q)
      else case y of Inl err \<Rightarrow> (Inl err, q)
        | Inr lo \<Rightarrow> (Inr (sNext q st, sNext q st + length (with_local_only lo recs) - 1), appended st recs lo q))"

lemma group_request_known:
  assumes sim: "group_sim s0 g q" and st: "st = aqStream r" and known: "sNext q st \<noteq> 0"
    and ck: "checkAppend rt st (aqRecs r) (acStore g) = (y, (acStore g)\<lparr>sPolicies := pol\<rparr>)"
  shows "group_request rt r g =
    (case y of
       Inl err \<Rightarrow> (group_touch st g)\<lparr>acStore := (acStore g)\<lparr>sPolicies := pol\<rparr>, acDone := acDone g @ [Inl err]\<rparr>
     | Inr lo \<Rightarrow>
         let rs = with_local_only lo (aqRecs r); g1 = group_touch st g; first = sNext q st in
         g1\<lparr>acNext := (acNext g1)(st \<mapsto> first + length rs),
            acBytes := (acBytes g1)(st \<mapsto> sBytes q st + records_size st first rs),
            acGrown := (if st \<in> set (acGrown g1) then acGrown g1 else acGrown g1 @ [st]),
            acBatch := add_records st first rs (acBatch g1), acStore := (acStore g)\<lparr>sPolicies := pol\<rparr>,
            acCommitted := acCommitted g1 @ [r],
            acDone := acDone g @ [Inr (first, first + length rs - 1)]\<rparr>)"
proof -
  have new: "\<not> (acNext g st = None \<and> sNext (acStore g) st = 0)"
    using group_sim_next(1,3) [OF sim] known by (cases "acNext g st") auto
  note touched = group_sim_touch(2,3) [OF sim known]
  show ?thesis
    unfolding group_request_def Let_def st [symmetric] if_not_P [OF new] group_touch_def [symmetric]
    using ck touched by (simp add: writeAppend_eq split: sum.split)
qed

lemma group_step_append:
  assumes sim: "group_sim s0 g q" and st: "st = aqStream r" and known: "sNext q st \<noteq> 0"
    and ck: "checkAppend rt st (aqRecs r) (acStore g) = (Inr lo, (acStore g)\<lparr>sPolicies := pol\<rparr>)"
  shows "group_sim s0 (group_request rt r g) (appended st (aqRecs r) lo (q\<lparr>sPolicies := pol\<rparr>))"
proof -
  note touched = group_sim_touch [OF sim known]
  define rs where "rs = with_local_only lo (aqRecs r)"
  define g' where "g' = group_request rt r g"
  define q' where "q' = appended st (aqRecs r) lo (q\<lparr>sPolicies := pol\<rparr>)"
  have g': "acNext g' = (acNext (group_touch st g))(st \<mapsto> sNext q st + length rs)"
    "acBytes g' = (acBytes (group_touch st g))(st \<mapsto> sBytes q st + records_size st (sNext q st) rs)"
    "set (acGrown g') = insert st (set (acGrown g))"
    "acBatch g' = add_records st (sNext q st) rs (acBatch g)"
    "acStore g' = (acStore g)\<lparr>sPolicies := pol\<rparr>" "acCommitted g' \<noteq> []"
    using group_request_known [OF sim st known ck] by (auto simp: g'_def rs_def Let_def)
  have "sDisk q' = set_heads g' (acBatch g')"
    using set_heads_step [OF g'(1,2), of "sNext q st" rs "acBatch g"] g'(3,4)
      group_sim_next(4) [OF touched(1)]
    by (simp add: q'_def appended_def Let_def rs_def)
  moreover have "sNext q' = group_next s0 g'" "sBytes q' = group_bytes s0 g'"
    using touched(1) g'(1-3)
    by (auto simp: q'_def appended_def Let_def rs_def group_sim_def group_next_def group_bytes_def fun_eq_iff)
  moreover have "same_rest s0 q'"
    using sim by (simp add: q'_def appended_def Let_def group_sim_def same_rest_def)
  moreover have "acStore g' = s0\<lparr>sPolicies := sPolicies q'\<rparr>"
    using g'(5) group_sim_next(3) [OF sim] by (simp add: q'_def appended_def Let_def)
  moreover have "set (acGrown g') \<subseteq> dom (acNext g')"
    using touched(1) g'(1,3) by (auto simp: group_sim_def)
  moreover have "\<forall>s n. acNext g' s = Some n \<longrightarrow> n = sNext q' s \<and> n \<noteq> 0 \<and> acBytes g' s = Some (sBytes q' s)"
    using group_sim_next(2) [OF touched(1)] known g'(1,2)
    by (auto simp: q'_def appended_def Let_def rs_def)
  ultimately show ?thesis
    using g'(6) unfolding group_sim_def g'_def q'_def by blast
qed

lemma group_step_effect:
  assumes sim: "group_sim s0 g q"
    and ck: "checkAppend rt (aqStream r) (aqRecs r) (acStore g) = (y, (acStore g)\<lparr>sPolicies := pol\<rparr>)"
    and eff: "group_effect (aqStream r) (aqRecs r) y (if sNext q (aqStream r) = 0 then q else q\<lparr>sPolicies := pol\<rparr>) = (x, q')"
  shows "group_sim s0 (group_request rt r g) q' \<and> acDone (group_request rt r g) = acDone g @ [x]"
proof -
  define st where "st = aqStream r"
  show ?thesis
  proof (cases "sNext q st = 0")
    case True
    then have "x = Inl (UnknownStream st)" "q' = q" using eff by (auto simp: group_effect_def st_def)
    moreover have "acNext g st = None \<and> sNext (acStore g) st = 0"
      using group_sim_next(1-3) [OF sim] True by (cases "acNext g st") auto
    ultimately show ?thesis
      using group_sim_unknown [OF sim] by (simp add: group_request_def st_def Let_def)
  next
    case known: False
    note req = group_request_known [OF sim st_def known ck [folded st_def]]
    show ?thesis
    proof (cases y)
      case (Inl err)
      then have "x = Inl err" "q' = q\<lparr>sPolicies := pol\<rparr>" using eff known by (auto simp: group_effect_def st_def)
      then show ?thesis
        using group_sim_policies [OF group_sim_touch(1) [OF sim known], where pol = pol] req Inl by simp
    next
      case (Inr lo)
      then have "x = Inr (sNext q st, sNext q st + length (with_local_only lo (aqRecs r)) - 1)"
        "q' = appended st (aqRecs r) lo (q\<lparr>sPolicies := pol\<rparr>)"
        using eff known by (auto simp: group_effect_def st_def)
      then show ?thesis
        using group_step_append [OF sim st_def known ck [folded st_def, unfolded Inr]] req Inr by (simp add: Let_def)
    qed
  qed
qed

text \<open>The group and the sequence take the same branch, with the same result.\<close>

lemma group_step:
  assumes sim: "group_sim s0 g q"
    and agree: "check_agree rt (aqStream r) (aqRecs r) (acStore g) q"
    and seq: "appendLocked rt True (aqStream r) (aqRecs r) q = (x, q')"
  shows "group_sim s0 (group_request rt r g) q' \<and> acDone (group_request rt r g) = acDone g @ [x]"
proof -
  obtain y pol where ck: "checkAppend rt (aqStream r) (aqRecs r) (acStore g) = (y, (acStore g)\<lparr>sPolicies := pol\<rparr>)"
    "checkAppend rt (aqStream r) (aqRecs r) q = (y, q\<lparr>sPolicies := pol\<rparr>)"
    using checkAppend_agree [OF agree] by auto
  have "group_effect (aqStream r) (aqRecs r) y (if sNext q (aqStream r) = 0 then q else q\<lparr>sPolicies := pol\<rparr>) = (x, q')"
    using seq unfolding appendLocked_cases [OF ck(2), of True] by (cases y) (auto simp: group_effect_def)
  then show ?thesis by (rule group_step_effect [OF sim ck(1)])
qed

text \<open>Records that write current state carry topics of the grammar: the engine parses a topic before it
  projects it.\<close>

definition topics_ok :: "appendRequest list \<Rightarrow> bool" where
  "topics_ok reqs \<longleftrightarrow>
     list_all (\<lambda>r. list_all (\<lambda>rec. rKVPath rec = '''' \<or> \<not> isl (Parse (rTopic rec))) (aqRecs r)) reqs"

definition signals_same :: "string \<Rightarrow> Store \<Rightarrow> Store \<Rightarrow> bool" where
  "signals_same rt s q \<longleftrightarrow>
     (\<forall>t k. MetricSignalKey rt t = Some k \<longrightarrow> map_of (dKV (sDisk s)) k = map_of (dKV (sDisk q)) k)"

lemma with_local_only_kv:
  assumes "r \<in> set (with_local_only lo recs)"
  shows "\<exists>r0 \<in> set recs. rKVPath r = rKVPath r0 \<and> kv_key r = kv_key r0 \<and> rTopic r = rTopic r0"
  using assms
  by (auto simp: with_local_only_def kv_key_def set_zip split: option.splits)

lemma appended_KV_untouched:
  assumes "\<And>r. r \<in> set (with_local_only lo recs) \<Longrightarrow> rKVPath r \<noteq> '''' \<Longrightarrow> kv_key r \<noteq> k"
  shows "map_of (dKV (sDisk (appended st recs lo s))) k = map_of (dKV (sDisk s)) k"
  using assms by (simp add: appended_def Let_def setBytes_def setHead_def add_records_KV_untouched)

lemma appendLocked_signals:
  assumes "appendLocked rt True (aqStream r) (aqRecs r) q = (x, q')"
    and "topics_ok [r]" "slash_free rt" "\<not> writesSignal (aqRecs r)"
  shows "signals_same rt q q'"
  unfolding signals_same_def
proof (intro allI impI)
  fix t k assume k: "MetricSignalKey rt t = Some k"
  obtain y q1 where ck: "checkAppend rt (aqStream r) (aqRecs r) q = (y, q1)" by fastforce
  have "check_agree rt (aqStream r) (aqRecs r) q q" by (simp add: check_agree_def)
  then have q1: "sDisk q1 = sDisk q" using checkAppend_agree ck by fastforce
  have untouched: "kv_key r' \<noteq> k" if wr: "r' \<in> set (with_local_only lo (aqRecs r)) \<and> rKVPath r' \<noteq> ''''" for r' lo
  proof
    assume "kv_key r' = k"
    obtain r0 where r0: "r0 \<in> set (aqRecs r)" "rKVPath r0 \<noteq> ''''" "kv_key r0 = k"
      using with_local_only_kv [OF conjunct1 [OF wr]] wr \<open>kv_key r' = k\<close> by metis
    obtain p where p: "Parse (rTopic r0) = Inr p"
      using assms(2) r0(1,2) by (cases "Parse (rTopic r0)") (auto simp: topics_ok_def list_all_iff)
    have "DecidesReplication (rTopic r0)"
      using MetricSignalKey_decides [of rt t _ _ "rTopic r0", OF _ p assms(3)] k r0(3)
      by (auto simp: kv_key_def)
    then show False using assms(4) r0 by (auto simp: writesSignal_def list_ex_iff)
  qed
  have "q' = q \<or> q' = q1 \<or> (\<exists>lo. q' = appended (aqStream r) (aqRecs r) lo q1)"
    using assms(1) appendLocked_cases [OF ck, of True] by (cases y) (auto split: if_splits)
  then show "map_of (dKV (sDisk q)) k = map_of (dKV (sDisk q')) k"
    using q1 untouched appended_KV_untouched [of _ "aqRecs r" k "aqStream r" q1] by metis
qed

lemma group_run:
  assumes "group_sim s0 g q" "\<not> signal \<longrightarrow> signals_same rt s0 q"
    and "batch_len signal reqs = length reqs" "topics_ok reqs" "slash_free rt"
    and "seq_appends rt reqs q = (res, q')"
  shows "group_sim s0 (fold (group_request rt) reqs g) q' \<and>
    acDone (fold (group_request rt) reqs g) = acDone g @ res"
  using assms
proof (induction reqs arbitrary: g q signal res)
  case (Cons r rs)
  obtain x q1 where 1: "appendLocked rt True (aqStream r) (aqRecs r) q = (x, q1)" by fastforce
  obtain xs where 2: "seq_appends rt rs q1 = (xs, q')" "res = x # xs"
    using Cons.prems(6) 1 by (auto split: prod.splits)
  have taken: "\<not> signal \<or> aqStream r \<noteq> ''metrics''"
    "batch_len (signal \<or> writesSignal (aqRecs r)) rs = length rs"
    using Cons.prems(3) by (auto split: if_splits)
  have topics: "topics_ok [r]" "topics_ok rs" using Cons.prems(4) by (auto simp: topics_ok_def)
  have "check_agree rt (aqStream r) (aqRecs r) (acStore g) q"
  proof -
    have "same_rest s0 q" using Cons.prems(1) by (simp add: group_sim_def)
    moreover have "\<not> signal" if "aqStream r = ''metrics''" using taken(1) that by blast
    ultimately show ?thesis
      using Cons.prems(2) unfolding check_agree_def signals_same_def group_sim_next(3) [OF Cons.prems(1)]
      by (simp add: same_rest_limit)
  qed
  note step = group_step [OF Cons.prems(1) this 1]
  have "\<not> (signal \<or> writesSignal (aqRecs r)) \<longrightarrow> signals_same rt s0 q1"
    using Cons.prems(2) appendLocked_signals [OF 1 topics(1) Cons.prems(5)]
    by (auto simp: signals_same_def)
  then show ?case
    using Cons.IH [OF conjunct1 [OF step] _ taken(2) topics(2) Cons.prems(5) 2(1)] step 2(2) by simp
qed simp

lemma commit_batch_sim:
  assumes g_def: "g = fold (group_request rt) reqs (group_start s)" and sim: "group_sim s g q"
  shows "\<exists>h. commitAppendBatch rt True reqs s = (acDone g, q\<lparr>sHeads := h\<rparr>)"
proof -
  have eq: "q\<lparr>sHeads := h\<rparr> =
      (acStore g)\<lparr>sDisk := set_heads g (acBatch g), sNext := group_next s g, sBytes := group_bytes s g, sHeads := h\<rparr>" for h
    using sim same_rest_eq [of s q h] by (simp add: group_sim_def)
  have fields: "sNext (acStore g) = sNext s" "sBytes (acStore g) = sBytes s" "sDisk (acStore g) = sDisk s"
    using group_sim_next(3) [OF sim] by simp_all
  have ext: "group_next (acStore g) g = group_next s g" "group_bytes (acStore g) g = group_bytes s g"
    using fields by (simp_all add: fun_eq_iff group_next_def group_bytes_def)
  show ?thesis
  proof (cases "acCommitted g = []")
    case True
    then have "set_heads g (acBatch g) = sDisk s" "group_next s g = sNext s" "group_bytes s g = sBytes s"
      using sim by (auto simp: group_sim_def set_heads_def group_next_def group_bytes_def fun_eq_iff)
    then have "q\<lparr>sHeads := sHeads (acStore g)\<rparr> = acStore g"
      using eq [of "sHeads (acStore g)"] fields by simp
    then show ?thesis
      using True by (auto simp: commitAppendBatch_def g_def [symmetric] Let_def intro!: exI [of _ "sHeads (acStore g)"])
  next
    case False
    then show ?thesis
      unfolding commitAppendBatch_def g_def [symmetric] Let_def group_next_def [symmetric]
        group_bytes_def [symmetric] ext eq
      by (simp only: if_False not_True_eq_False) blast
  qed
qed

lemma commit_batch_seq:
  assumes "batch_len False reqs = length reqs" "topics_ok reqs" "slash_free rt"
    and "seq_appends rt reqs s = (res, q)"
  shows "\<exists>h. commitAppendBatch rt True reqs s = (res, q\<lparr>sHeads := h\<rparr>)"
  using group_run [OF group_sim_start _ assms] commit_batch_sim [OF refl, of s rt reqs q]
  by (auto simp: signals_same_def group_start_def)

lemma batch_len_take:
  "batch_len signal (take (batch_len signal reqs) reqs) = length (take (batch_len signal reqs) reqs)"
  by (induction reqs arbitrary: signal) auto

lemma seq_appends_append:
  "seq_appends rt (xs @ ys) s =
     (fst (seq_appends rt xs s) @ fst (seq_appends rt ys (snd (seq_appends rt xs s))),
      snd (seq_appends rt ys (snd (seq_appends rt xs s))))"
  by (induction xs arbitrary: s) (auto split: prod.split)

text \<open>The per-contract heads are hints of the read path: no append looks at them.\<close>

lemma appendLocked_heads_hint:
  assumes "appendLocked rt ok st recs s = (x, s')"
  shows "\<exists>h'. appendLocked rt ok st recs (s\<lparr>sHeads := h\<rparr>) = (x, s'\<lparr>sHeads := h'\<rparr>)"
proof -
  have "check_agree rt st recs s (s\<lparr>sHeads := h\<rparr>)" by (simp add: check_agree_def)
  then obtain y pol where ck: "checkAppend rt st recs s = (y, s\<lparr>sPolicies := pol\<rparr>)"
    "checkAppend rt st recs (s\<lparr>sHeads := h\<rparr>) = (y, s\<lparr>sHeads := h, sPolicies := pol\<rparr>)"
    using checkAppend_agree by blast
  have app: "\<exists>h'. appended st recs lo (s\<lparr>sPolicies := pol, sHeads := h\<rparr>) =
      (appended st recs lo (s\<lparr>sPolicies := pol\<rparr>))\<lparr>sHeads := h'\<rparr>" for lo
    by (auto simp: appended_def Let_def)
  have swap: "s\<lparr>sHeads := h, sPolicies := pol\<rparr> = s\<lparr>sPolicies := pol, sHeads := h\<rparr>" by simp
  show ?thesis
    using assms app unfolding appendLocked_cases [OF ck(1)] appendLocked_cases [OF ck(2)] swap
    by (cases y) (auto split: if_splits)
qed

lemma seq_appends_heads_hint:
  "\<exists>h'. seq_appends rt reqs (s\<lparr>sHeads := h\<rparr>) =
     (fst (seq_appends rt reqs s), snd (seq_appends rt reqs s)\<lparr>sHeads := h'\<rparr>)"
proof (induction reqs arbitrary: s h)
  case (Cons r rs)
  obtain x s1 where 1: "appendLocked rt True (aqStream r) (aqRecs r) s = (x, s1)" by fastforce
  obtain h1 where 2: "appendLocked rt True (aqStream r) (aqRecs r) (s\<lparr>sHeads := h\<rparr>) = (x, s1\<lparr>sHeads := h1\<rparr>)"
    using appendLocked_heads_hint [OF 1] by blast
  obtain h' where "seq_appends rt rs (s1\<lparr>sHeads := h1\<rparr>) =
      (fst (seq_appends rt rs s1), snd (seq_appends rt rs s1)\<lparr>sHeads := h'\<rparr>)"
    using Cons.IH by blast
  then show ?case using 1 2 by (simp add: case_prod_beta) blast
qed auto

text \<open>C5: Group commit is invisible. Appends that wait while a sync is in flight share one batch and
  one sync (\<^verbatim>\<open>commitAppends\<close>); whatever the group - several streams, several requests of one
  stream, metrics whose signal policy an earlier request of the same group changes - every request gets the
  result, and the store ends in the state, of the requests committed one by one in queue order. Only the
  per-contract read hints (\<^verbatim>\<open>contractHeads\<close>) may differ. The records that write current
  state carry topics of the grammar, as the publishing engine guarantees.\<close>

theorem group_commit_is_sequential:
  assumes "slash_free rt" "topics_ok reqs"
  shows "\<exists>h. commitAppends rt (\<lambda>_. True) i reqs s =
    (fst (seq_appends rt reqs s), snd (seq_appends rt reqs s)\<lparr>sHeads := h\<rparr>)"
  using assms(2)
proof (induction reqs arbitrary: i s rule: length_induct)
  case (1 reqs)
  show ?case
  proof (cases "reqs = []")
    case True
    then show ?thesis by (auto simp: commitAppends.simps intro!: exI [of _ "sHeads s"])
  next
    case False
    define n where "n = batch_len False reqs"
    have topics: "topics_ok (take n reqs)" "topics_ok (drop n reqs)"
      using "1.prems" by (auto simp: topics_ok_def list_all_iff dest: in_set_takeD in_set_dropD)
    obtain h where b: "commitAppendBatch rt True (take n reqs) s =
        (fst (seq_appends rt (take n reqs) s), snd (seq_appends rt (take n reqs) s)\<lparr>sHeads := h\<rparr>)"
      using commit_batch_seq [OF _ topics(1) assms(1), of s] batch_len_take [of False reqs]
      by (metis n_def prod.collapse)
    obtain h1 where c: "commitAppends rt (\<lambda>_. True) (Suc i) (drop n reqs) (snd (seq_appends rt (take n reqs) s)\<lparr>sHeads := h\<rparr>) =
        (fst (seq_appends rt (drop n reqs) (snd (seq_appends rt (take n reqs) s)\<lparr>sHeads := h\<rparr>)),
         snd (seq_appends rt (drop n reqs) (snd (seq_appends rt (take n reqs) s)\<lparr>sHeads := h\<rparr>))\<lparr>sHeads := h1\<rparr>)"
      using "1.IH" [rule_format, of "drop n reqs" "Suc i"] topics(2) False batch_len_pos [OF False] n_def
      by fastforce
    obtain h2 where d: "seq_appends rt (drop n reqs) (snd (seq_appends rt (take n reqs) s)\<lparr>sHeads := h\<rparr>) =
        (fst (seq_appends rt (drop n reqs) (snd (seq_appends rt (take n reqs) s))),
         snd (seq_appends rt (drop n reqs) (snd (seq_appends rt (take n reqs) s)))\<lparr>sHeads := h2\<rparr>)"
      using seq_appends_heads_hint by blast
    have "commitAppends rt (\<lambda>_. True) i reqs s =
        (fst (seq_appends rt (take n reqs @ drop n reqs) s),
         snd (seq_appends rt (take n reqs @ drop n reqs) s)\<lparr>sHeads := h1\<rparr>)"
      unfolding seq_appends_append commitAppends.simps [of rt _ i reqs] Let_def n_def [symmetric] b
        prod.case c d using False by simp
    then show ?thesis by (simp add: exI [of _ h1])
  qed
qed

text \<open>A group of three: a metric, the definition that makes its signal local, and a metric of the
  same signal, which the policy now keeps on the node and which therefore starts a batch of its own.\<close>

definition demo_signal :: "string \<Rightarrow> Record" where
  "demo_signal policy =
     zero_record\<lparr>rTopic := ''colca/v1/_Signal/N1/line/temp'', rKVPath := ''line/temp'', rKVNode := ''N1'',
       rPayload := Some (''{\"id\":\"S1\",\"replication_policy\":\"'' @ policy @ ''\"}'')\<rparr>"

definition demo_metric :: Record where
  "demo_metric =
     zero_record\<lparr>rTopic := ''colca/v1/_Metric/N1/line/temp'', rKVPath := ''line/temp'', rKVNode := ''N1'',
       rPayload := Some ''{\"signal_id\":\"S1\",\"value\":1}''\<rparr>"

definition demo_group :: "appendRequest list" where
  "demo_group =
     [\<lparr>aqStream = ''metrics'', aqRecs = [demo_metric]\<rparr>,
      \<lparr>aqStream = ''definitions'', aqRecs = [demo_signal ''source_local_only'']\<rparr>,
      \<lparr>aqStream = ''metrics'', aqRecs = [demo_metric]\<rparr>]"

theorem group_commit_is_sequential_witness:
  "slash_free ''colca'' \<and> topics_ok demo_group \<and> batch_len False demo_group = 2 \<and>
   (\<exists>h. commitAppends ''colca'' (\<lambda>_. True) 0 demo_group new_store =
     (fst (seq_appends ''colca'' demo_group new_store), snd (seq_appends ''colca'' demo_group new_store)\<lparr>sHeads := h\<rparr>))"
proof -
  have "slash_free ''colca''" by simp
  moreover have "topics_ok demo_group" by code_simp
  moreover have "batch_len False demo_group = 2" by code_simp
  ultimately show ?thesis
    using group_commit_is_sequential [of "''colca''" demo_group 0 new_store] by blast
qed

end
