(* ===== verification/Store_Cursor.thy ===== *)
theory Store_Cursor
  imports Store_Open
begin

text \<open>
  Consumer cursors, what the uplink sets aside, and the store's incarnation (\<^verbatim>\<open>internal/store\<close>:
  \<^verbatim>\<open>cursorgroup.go\<close>, \<^verbatim>\<open>setaside.go\<close>, \<^verbatim>\<open>incarnation.go\<close> and the cursor part of \<^verbatim>\<open>store.go\<close>).
  What an operation does under \<^verbatim>\<open>cursorMu\<close> is one step. The lemmas show that concurrent acks that
  share one synced commit behave as the acks one after the other, and that a cursor only ever moves
  forward by them.
\<close>

section \<open>Reading cursors\<close>

definition CursorGet :: "string \<Rightarrow> string \<Rightarrow> Store \<Rightarrow> nat" where
  "CursorGet name stream s = tget 1 (name, stream) (dCursor (sDisk s))"

definition CursorLookup :: "string \<Rightarrow> string \<Rightarrow> Store \<Rightarrow> nat \<times> bool" where
  "CursorLookup name stream s =
     (case map_of (dCursor (sDisk s)) (name, stream) of None \<Rightarrow> (1, False) | Some v \<Rightarrow> (v, True))"

definition LWM :: "string \<Rightarrow> Store \<Rightarrow> nat" where "LWM stream s = sLWM s stream"

definition StreamBytes :: "string \<Rightarrow> Store \<Rightarrow> nat" where "StreamBytes stream s = sBytes s stream"

definition CursorStart :: "string \<Rightarrow> string \<Rightarrow> Store \<Rightarrow> nat \<times> bool" where
  "CursorStart name stream s =
     (if snd (CursorLookup name stream s) then (fst (CursorLookup name stream s), True)
      else (LWM stream s, False))"

record CursorInfo =
  ciName :: string
  ciStream :: string
  ciPosition :: nat
  ciLastAdvanceMS :: int

definition Cursors :: "Store \<Rightarrow> CursorInfo list" where
  "Cursors s =
     map (\<lambda>((name, stream), v). \<lparr>ciName = name, ciStream = stream, ciPosition = v,
            ciLastAdvanceMS = tget 0 (name, stream) (dCT (sDisk s))\<rparr>) (dCursor (sDisk s))"

text \<open>Times and durations are nanoseconds; \<^verbatim>\<open>time.Time.Sub\<close> saturates at the range of a duration.\<close>

definition saturate :: "int \<Rightarrow> int" where
  "saturate d = max (- (2 ^ 63)) (min (2 ^ 63 - 1) d)"

definition UnixMilli :: "int \<Rightarrow> int" where "UnixMilli now = now div 1000000"

definition cursor_stale :: "int \<Rightarrow> int \<Rightarrow> CursorInfo \<Rightarrow> bool" where
  "cursor_stale now window c =
     (let last = (if ciLastAdvanceMS c = 0 then UnixMilli now else ciLastAdvanceMS c) in
      window > 0 \<and> saturate (now - last * 1000000) > window)"

definition ProtectedCursors :: "string \<Rightarrow> int \<Rightarrow> int \<Rightarrow> Store \<Rightarrow> CursorInfo list \<times> CursorInfo list" where
  "ProtectedCursors stream now window s =
     (let cs = filter (\<lambda>c. ciStream c = stream) (Cursors s) in
      (filter (\<lambda>c. \<not> cursor_stale now window c) cs, filter (cursor_stale now window) cs))"

definition HWMs :: "Store \<Rightarrow> ((string \<times> string) \<times> nat) list" where
  "HWMs s = dHWM (sDisk s)"

definition AckedMark :: "string \<Rightarrow> string \<Rightarrow> Store \<Rightarrow> nat" where
  "AckedMark parent stream s = tget 0 (parent, stream) (dAcked (sDisk s))"

section \<open>Acks\<close>

record ackRequest =
  akName :: string
  akStream :: string
  akOff :: nat
  akMarked :: bool
  akParent :: string
  akMark :: nat

text \<open>What the leader has decided so far: the batch, the positions and marks the group is about to
  write, and for each request whether its cursor moves.\<close>

record ack_group =
  agBatch :: Disk
  agPositions :: "string \<times> string \<rightharpoonup> nat"
  agMarks :: "string \<times> string \<rightharpoonup> nat"
  agMoved :: "bool list"

definition ack_step :: "int \<Rightarrow> Store \<Rightarrow> ackRequest \<Rightarrow> ack_group \<Rightarrow> ack_group" where
  "ack_step now s r g =
     (let key = (akName r, akStream r);
          cur = (case agPositions g key of Some p \<Rightarrow> p | None \<Rightarrow> tget 1 key (dCursor (sDisk s)));
          moved = (akOff r > cur);
          g1 = (if moved
                then g\<lparr>agPositions := (agPositions g)(key \<mapsto> akOff r),
                       agBatch := setCursor (akName r) (akStream r) (akOff r) now (agBatch g)\<rparr>
                else g);
          ak = (akParent r, akStream r);
          prev = (case agMarks g1 ak of Some m \<Rightarrow> m | None \<Rightarrow> tget 0 ak (dAcked (sDisk s)));
          g2 = (if akMarked r \<and> akMark r \<noteq> prev
                then g1\<lparr>agMarks := (agMarks g1)(ak \<mapsto> akMark r),
                        agBatch := (agBatch g1)\<lparr>dAcked := tput ak (akMark r) (dAcked (agBatch g1))\<rparr>\<rparr>
                else g1)
      in g2\<lparr>agMoved := agMoved g2 @ [moved]\<rparr>)"

definition ack_start :: "Store \<Rightarrow> ack_group" where
  "ack_start s = \<lparr>agBatch = sDisk s, agPositions = (\<lambda>_. None), agMarks = (\<lambda>_. None), agMoved = []\<rparr>"

text \<open>Writing to a batch in memory does not fail, so the commit is the only error.\<close>

definition batch_written :: "ack_group \<Rightarrow> bool" where
  "batch_written g \<longleftrightarrow> agPositions g \<noteq> (\<lambda>_. None) \<or> agMarks g \<noteq> (\<lambda>_. None)"

definition commitAcks :: "int \<Rightarrow> bool \<Rightarrow> ackRequest list \<Rightarrow> Store \<Rightarrow> (store_error + bool) list \<times> Store" where
  "commitAcks now ok reqs s =
     (let g = fold (ack_step now s) reqs (ack_start s) in
      if \<not> batch_written g then (map Inr (agMoved g), s)
      else if \<not> ok then (map (\<lambda>_. Inl ApplyFailed) reqs, s)
      else (map Inr (agMoved g), s\<lparr>sDisk := agBatch g\<rparr>))"

definition CursorAck :: "int \<Rightarrow> bool \<Rightarrow> string \<Rightarrow> string \<Rightarrow> nat \<Rightarrow> Store \<Rightarrow> bool \<times> Store" where
  "CursorAck now ok name stream off s =
     (case commitAcks now ok
        [\<lparr>akName = name, akStream = stream, akOff = off, akMarked = False, akParent = '''', akMark = 0\<rparr>] s of
        (res, s') \<Rightarrow> (hd res = Inr True, s'))"

definition CursorAckMarked ::
    "int \<Rightarrow> bool \<Rightarrow> string \<Rightarrow> string \<Rightarrow> nat \<Rightarrow> string \<Rightarrow> nat \<Rightarrow> Store \<Rightarrow> (store_error + bool) \<times> Store" where
  "CursorAckMarked now ok name stream off parent mark s =
     (case commitAcks now ok
        [\<lparr>akName = name, akStream = stream, akOff = off, akMarked = True, akParent = parent, akMark = mark\<rparr>] s of
        (res, s') \<Rightarrow> (hd res, s'))"

section \<open>Other cursor writes\<close>

definition CursorSetIfAbsent ::
    "int \<Rightarrow> bool \<Rightarrow> string \<Rightarrow> string \<Rightarrow> nat \<Rightarrow> Store \<Rightarrow> (store_error + bool) \<times> Store" where
  "CursorSetIfAbsent now ok name stream off s =
     (case map_of (dCursor (sDisk s)) (name, stream) of
        Some _ \<Rightarrow> (Inr False, s)
      | None \<Rightarrow> if \<not> ok then (Inl ApplyFailed, s)
                else (Inr True, s\<lparr>sDisk := setCursor name stream off now (sDisk s)\<rparr>))"

definition CursorDelete :: "bool \<Rightarrow> string \<Rightarrow> string \<Rightarrow> Store \<Rightarrow> store_error option \<times> Store" where
  "CursorDelete ok name stream s =
     (if \<not> ok then (Some ApplyFailed, s)
      else (None, s\<lparr>sDisk := (sDisk s)\<lparr>dCursor := tdel (name, stream) (dCursor (sDisk s)),
                                      dCT := tdel (name, stream) (dCT (sDisk s))\<rparr>\<rparr>))"

definition CursorMarkSeen :: "bool \<Rightarrow> string \<Rightarrow> string \<Rightarrow> int \<Rightarrow> Store \<Rightarrow> Store" where
  "CursorMarkSeen ok name stream ts s =
     (if tget 0 (name, stream) (dCT (sDisk s)) \<noteq> 0 \<or> \<not> ok then s
      else s\<lparr>sDisk := (sDisk s)\<lparr>dCT := tput (name, stream) ts (dCT (sDisk s))\<rparr>\<rparr>)"

section \<open>Records the uplink sets aside\<close>

definition SetAsideUplink ::
    "int \<Rightarrow> bool \<Rightarrow> string \<Rightarrow> SetAsideRecord \<Rightarrow> Store \<Rightarrow> (store_error + bool) \<times> Store" where
  "SetAsideUplink now ok cursor r s =
     (if tget 1 (cursor, aaStream r) (dCursor (sDisk s)) > aaOffset r then (Inr False, s)
      else if \<not> ok then (Inl ApplyFailed, s)
      else (Inr True,
        s\<lparr>sDisk := setCursor cursor (aaStream r) (aaOffset r + 1) now
            ((sDisk s)\<lparr>dSetAside := tput (aaParent r, aaStream r, aaOffset r) r (dSetAside (sDisk s))\<rparr>)\<rparr>))"

definition SetAsideRecords :: "string \<Rightarrow> Store \<Rightarrow> SetAsideRecord list" where
  "SetAsideRecords parent s = map snd (filter (\<lambda>e. fst (fst e) = parent) (dSetAside (sDisk s)))"

definition ClearSetAside ::
    "bool \<Rightarrow> string \<Rightarrow> string \<Rightarrow> nat \<Rightarrow> Store \<Rightarrow> (bool \<times> store_error option) \<times> Store" where
  "ClearSetAside ok parent stream off s =
     (case map_of (dSetAside (sDisk s)) (parent, stream, off) of
        None \<Rightarrow> ((False, None), s)
      | Some _ \<Rightarrow>
          if \<not> ok then ((True, Some ApplyFailed), s)
          else ((True, None),
            s\<lparr>sDisk := (sDisk s)\<lparr>dSetAside := tdel (parent, stream, off) (dSetAside (sDisk s))\<rparr>\<rparr>))"

section \<open>Incarnation and parents\<close>

definition StoreID :: "Store \<Rightarrow> string" where "StoreID s = sID s"

definition MayHaveRegressed :: "Store \<Rightarrow> bool" where "MayHaveRegressed s \<longleftrightarrow> \<not> sIDMinted s"

text \<open>\<^verbatim>\<open>minted\<close> is the id the random source returns.\<close>

definition reincarnate ::
    "int \<Rightarrow> bool \<Rightarrow> string \<Rightarrow> string \<Rightarrow> string \<Rightarrow> Store \<Rightarrow> (string \<times> bool \<times> store_error option) \<times> Store" where
  "reincarnate now ok minted onlyFrom reason s =
     (let previous = StoreID s in
      if onlyFrom \<noteq> '''' \<and> onlyFrom \<noteq> previous then ((previous, False, None), s)
      else if \<not> ok then ((previous, False, Some ApplyFailed), s)
      else ((minted, True, None),
        s\<lparr>sDisk := (sDisk s)\<lparr>dStoreID := Some minted,
             dIncarnation := Some \<lparr>icPrevious = previous, icReason = reason, icAtMS = now\<rparr>, dAcked := []\<rparr>,
           sID := minted, sIDMinted := True\<rparr>))"

definition Reincarnate ::
    "int \<Rightarrow> bool \<Rightarrow> string \<Rightarrow> string \<Rightarrow> Store \<Rightarrow> (string \<times> bool \<times> store_error option) \<times> Store" where
  "Reincarnate now ok minted reason s = reincarnate now ok minted '''' reason s"

definition ReincarnateFrom ::
    "int \<Rightarrow> bool \<Rightarrow> string \<Rightarrow> string \<Rightarrow> string \<Rightarrow> Store \<Rightarrow> (string \<times> bool \<times> store_error option) \<times> Store" where
  "ReincarnateFrom now ok minted current reason s = reincarnate now ok minted current reason s"

definition LastIncarnationChange :: "Store \<Rightarrow> IncarnationChange option" where
  "LastIncarnationChange s = dIncarnation (sDisk s)"

definition ChildStore :: "string \<Rightarrow> Store \<Rightarrow> string" where
  "ChildStore child s =
     (case sAdopted s child of Some known \<Rightarrow> known
      | None \<Rightarrow> (case dChildStore (sDisk s) child of Some v \<Rightarrow> v | None \<Rightarrow> ''''))"

definition ParentState :: "string \<Rightarrow> Store \<Rightarrow> bytes option" where
  "ParentState parent s = dParentState (sDisk s) parent"

definition SetParentState :: "bool \<Rightarrow> string \<Rightarrow> bytes \<Rightarrow> Store \<Rightarrow> store_error option \<times> Store" where
  "SetParentState ok parent state s =
     (if \<not> ok then (Some ApplyFailed, s)
      else (None, s\<lparr>sDisk := (sDisk s)\<lparr>dParentState := (dParentState (sDisk s))(parent \<mapsto> state)\<rparr>\<rparr>))"

text \<open>\<^verbatim>\<open>CursorPlacement\<close> has the fields of \<^verbatim>\<open>CursorAdvance\<close>; a placement may be behind.\<close>

definition ResyncParent ::
    "int \<Rightarrow> bool \<Rightarrow> string \<Rightarrow> bytes \<Rightarrow> CursorAdvance list \<Rightarrow> (string \<times> nat) list \<Rightarrow> Store \<Rightarrow>
     store_error option \<times> Store" where
  "ResyncParent now ok parent state cursors marks s =
     (let b1 = fold (\<lambda>c. setCursor (cName c) (cStream c) (cTo c) now) cursors (sDisk s);
          b2 = fold (\<lambda>(stream, mark) b. b\<lparr>dAcked := tput (parent, stream) mark (dAcked b)\<rparr>) marks b1;
          b3 = b2\<lparr>dParentState := (dParentState b2)(parent \<mapsto> state)\<rparr>
      in if \<not> ok then (Some ApplyFailed, s) else (None, s\<lparr>sDisk := b3\<rparr>))"

section \<open>A group of acks is the acks one by one\<close>

fun seq_acks :: "int \<Rightarrow> ackRequest list \<Rightarrow> Store \<Rightarrow> (store_error + bool) list \<times> Store" where
  "seq_acks now [] s = ([], s)"
| "seq_acks now (r # rs) s =
     (case commitAcks now True [r] s of (x, s1) \<Rightarrow>
        case seq_acks now rs s1 of (xs, s2) \<Rightarrow> (x @ xs, s2))"

definition overlaid :: "('k \<rightharpoonup> 'v) \<Rightarrow> 'v \<Rightarrow> ('k, 'v) table \<Rightarrow> ('k, 'v) table \<Rightarrow> bool" where
  "overlaid m dflt t t' \<longleftrightarrow> (\<forall>k. (case m k of Some v \<Rightarrow> v | None \<Rightarrow> tget dflt k t) = tget dflt k t')"

lemma overlaid_start [simp]: "overlaid (\<lambda>_. None) d t t"
  by (simp add: overlaid_def)

lemma overlaid_put [simp]: "overlaid m d t t' \<Longrightarrow> overlaid (m(k \<mapsto> v)) d t (tput k v t')"
  by (auto simp: overlaid_def)

lemma overlaid_get: "overlaid m d t t' \<Longrightarrow> (case m k of Some v \<Rightarrow> v | None \<Rightarrow> tget d k t) = tget d k t'"
  by (simp add: overlaid_def)

definition ack_sim :: "Store \<Rightarrow> ack_group \<Rightarrow> Store \<Rightarrow> bool" where
  "ack_sim s g q \<longleftrightarrow> q = s\<lparr>sDisk := agBatch g\<rparr> \<and>
     overlaid (agPositions g) 1 (dCursor (sDisk s)) (dCursor (agBatch g)) \<and>
     overlaid (agMarks g) 0 (dAcked (sDisk s)) (dAcked (agBatch g)) \<and>
     (\<not> batch_written g \<longrightarrow> agBatch g = sDisk s)"

text \<open>One ack on the disk it reads.\<close>

definition ack_moves :: "ackRequest \<Rightarrow> Disk \<Rightarrow> bool" where
  "ack_moves r d \<longleftrightarrow> akOff r > tget 1 (akName r, akStream r) (dCursor d)"

definition ack_marks :: "ackRequest \<Rightarrow> Disk \<Rightarrow> bool" where
  "ack_marks r d \<longleftrightarrow> akMarked r \<and> akMark r \<noteq> tget 0 (akParent r, akStream r) (dAcked d)"

definition ack_disk :: "int \<Rightarrow> ackRequest \<Rightarrow> Disk \<Rightarrow> Disk" where
  "ack_disk now r d =
     (let d1 = (if ack_moves r d then setCursor (akName r) (akStream r) (akOff r) now d else d) in
      if ack_marks r d then d1\<lparr>dAcked := tput (akParent r, akStream r) (akMark r) (dAcked d1)\<rparr> else d1)"

lemma ack_step_eq:
  assumes "overlaid (agPositions g) 1 (dCursor (sDisk s)) (dCursor (agBatch g))"
    and "overlaid (agMarks g) 0 (dAcked (sDisk s)) (dAcked (agBatch g))"
  shows "ack_step now s r g =
    g\<lparr>agBatch := ack_disk now r (agBatch g),
      agPositions := (if ack_moves r (agBatch g) then (agPositions g)((akName r, akStream r) \<mapsto> akOff r) else agPositions g),
      agMarks := (if ack_marks r (agBatch g) then (agMarks g)((akParent r, akStream r) \<mapsto> akMark r) else agMarks g),
      agMoved := agMoved g @ [ack_moves r (agBatch g)]\<rparr>"
proof -
  note cur = overlaid_get [OF assms(1), of "(akName r, akStream r)"]
  note prev = overlaid_get [OF assms(2), of "(akParent r, akStream r)"]
  define g1 where "g1 = (if ack_moves r (agBatch g)
    then g\<lparr>agPositions := (agPositions g)((akName r, akStream r) \<mapsto> akOff r),
           agBatch := setCursor (akName r) (akStream r) (akOff r) now (agBatch g)\<rparr> else g)"
  have g1: "agMarks g1 = agMarks g" "agMoved g1 = agMoved g"
    "agBatch g1 = (if ack_moves r (agBatch g) then setCursor (akName r) (akStream r) (akOff r) now (agBatch g) else agBatch g)"
    "agPositions g1 = (if ack_moves r (agBatch g) then (agPositions g)((akName r, akStream r) \<mapsto> akOff r) else agPositions g)"
    by (simp_all add: g1_def)
  have "ack_step now s r g =
    (let g2 = (if ack_marks r (agBatch g)
               then g1\<lparr>agMarks := (agMarks g1)((akParent r, akStream r) \<mapsto> akMark r),
                       agBatch := (agBatch g1)\<lparr>dAcked := tput (akParent r, akStream r) (akMark r) (dAcked (agBatch g1))\<rparr>\<rparr>
               else g1) in g2\<lparr>agMoved := agMoved g2 @ [ack_moves r (agBatch g)]\<rparr>)"
    unfolding ack_step_def Let_def cur ack_moves_def [symmetric] g1_def [symmetric] g1(1) prev ack_marks_def ..
  then show ?thesis
    by (cases "ack_marks r (agBatch g)") (auto intro!: ack_group.equality simp: g1 ack_disk_def Let_def)
qed

lemma ack_one: "commitAcks now True [r] q = ([Inr (ack_moves r (sDisk q))], q\<lparr>sDisk := ack_disk now r (sDisk q)\<rparr>)"
proof -
  have "ack_step now q r (ack_start q) =
    (ack_start q)\<lparr>agBatch := ack_disk now r (sDisk q),
      agPositions := (if ack_moves r (sDisk q) then [(akName r, akStream r) \<mapsto> akOff r] else Map.empty),
      agMarks := (if ack_marks r (sDisk q) then [(akParent r, akStream r) \<mapsto> akMark r] else Map.empty),
      agMoved := [ack_moves r (sDisk q)]\<rparr>"
    by (subst ack_step_eq) (simp_all add: ack_start_def)
  then show ?thesis
    by (cases "ack_moves r (sDisk q)"; cases "ack_marks r (sDisk q)")
      (simp_all add: commitAcks_def batch_written_def ack_disk_def)
qed

lemma ack_disk_overlaid:
  "overlaid pos 1 t (dCursor d) \<Longrightarrow>
     overlaid (if ack_moves r d then pos((akName r, akStream r) \<mapsto> akOff r) else pos) 1 t (dCursor (ack_disk now r d))"
  "overlaid mk 0 t' (dAcked d) \<Longrightarrow>
     overlaid (if ack_marks r d then mk((akParent r, akStream r) \<mapsto> akMark r) else mk) 0 t' (dAcked (ack_disk now r d))"
  by (simp_all add: ack_disk_def Let_def setCursor_def)

lemma ack_step_sim:
  assumes "ack_sim s g q"
  shows "ack_sim s (ack_step now s r g) (snd (commitAcks now True [r] q))"
    and "map Inr (agMoved (ack_step now s r g)) = map Inr (agMoved g) @ fst (commitAcks now True [r] q)"
proof -
  have q: "q = s\<lparr>sDisk := agBatch g\<rparr>" and same: "\<not> batch_written g \<Longrightarrow> agBatch g = sDisk s"
    using assms by (auto simp: ack_sim_def)
  note step = ack_step_eq [of g s now r] and over = ack_disk_overlaid [of "agPositions g" "dCursor (sDisk s)"]
    ack_disk_overlaid(2) [of "agMarks g" "dAcked (sDisk s)"]
  show "map Inr (agMoved (ack_step now s r g)) = map Inr (agMoved g) @ fst (commitAcks now True [r] q)"
    using step assms by (simp add: ack_sim_def ack_one q)
  have "agBatch (ack_step now s r g) = sDisk s" if "\<not> batch_written (ack_step now s r g)"
  proof -
    have "\<not> ack_moves r (agBatch g) \<and> \<not> ack_marks r (agBatch g) \<and> \<not> batch_written g"
      using that step assms by (auto simp: batch_written_def ack_sim_def split: if_splits)
    then show ?thesis using same step assms by (simp add: ack_disk_def ack_sim_def)
  qed
  then show "ack_sim s (ack_step now s r g) (snd (commitAcks now True [r] q))"
    using step over assms by (simp add: ack_sim_def ack_one q)
qed

lemma acks_run:
  "ack_sim s g q \<Longrightarrow> seq_acks now reqs q = (res, q') \<Longrightarrow>
   ack_sim s (fold (ack_step now s) reqs g) q' \<and> map Inr (agMoved (fold (ack_step now s) reqs g)) = map Inr (agMoved g) @ res"
proof (induction reqs arbitrary: g q res)
  case (Cons r rs)
  obtain x q1 where 1: "commitAcks now True [r] q = (x, q1)" by fastforce
  obtain xs where 2: "seq_acks now rs q1 = (xs, q')" "res = x @ xs"
    using Cons.prems(2) 1 by (auto split: prod.splits)
  show ?case
    using Cons.IH [OF _ 2(1)] ack_step_sim [OF Cons.prems(1), where now = now and r = r] 1 2(2) by simp
qed simp

lemma commitAcks_seq: "commitAcks now True reqs s = seq_acks now reqs s"
proof -
  obtain res q where q: "seq_acks now reqs s = (res, q)" by fastforce
  define g where "g = fold (ack_step now s) reqs (ack_start s)"
  have "ack_sim s (ack_start s) s" by (simp add: ack_sim_def ack_start_def)
  then have sim: "ack_sim s g q" and moved: "map Inr (agMoved g) = res"
    using acks_run [OF _ q, of s "ack_start s"] by (auto simp: g_def ack_start_def)
  show ?thesis
  proof (cases "batch_written g")
    case True
    then show ?thesis using sim moved q by (simp add: commitAcks_def g_def [symmetric] ack_sim_def)
  next
    case False
    then have "q = s" using sim by (simp add: ack_sim_def)
    then show ?thesis using False moved q by (simp add: commitAcks_def g_def [symmetric])
  qed
qed

text \<open>C21: Concurrent cursor acks share one synced commit. Whatever the group - several acks of one
  cursor, in any order, with or without the mark a parent confirmed - every consumer gets the answer, and
  the store ends in the state, of the acks committed one after the other in queue order at that time.\<close>

theorem acks_are_sequential: "commitAcks now True reqs s = seq_acks now reqs s"
  by (rule commitAcks_seq)

lemma ack_one_position:
  "CursorGet n st (s\<lparr>sDisk := ack_disk now r (sDisk s)\<rparr>) =
     (if akName r = n \<and> akStream r = st then max (CursorGet n st s) (akOff r) else CursorGet n st s)"
  by (auto simp: CursorGet_def ack_disk_def Let_def setCursor_def ack_moves_def)

lemma seq_acks_position:
  "CursorGet n st (snd (seq_acks now reqs s)) =
     fold max (map akOff (filter (\<lambda>r. akName r = n \<and> akStream r = st) reqs)) (CursorGet n st s)"
proof (induction reqs arbitrary: s)
  case (Cons r rs)
  show ?case
    using Cons.IH [of "s\<lparr>sDisk := ack_disk now r (sDisk s)\<rparr>"]
    by (simp add: ack_one case_prod_beta ack_one_position max.commute)
qed simp

text \<open>C22: A cursor only moves forward by acks, to the furthest offset acked: after a group of acks it
  stands at the maximum of where it stood and the offsets the group acked on it, whatever their order,
  and a group whose commit fails moves nothing and reports every ack as failed (unless it had nothing to
  write).\<close>

theorem ack_position:
  "CursorGet n st (snd (commitAcks now True reqs s)) =
     fold max (map akOff (filter (\<lambda>r. akName r = n \<and> akStream r = st) reqs)) (CursorGet n st s) \<and>
   snd (commitAcks now False reqs s) = s \<and>
   (fst (commitAcks now False reqs s) = map (\<lambda>_. Inl ApplyFailed) reqs \<or>
    commitAcks now False reqs s = commitAcks now True reqs s)"
proof (intro conjI)
  show "CursorGet n st (snd (commitAcks now True reqs s)) =
     fold max (map akOff (filter (\<lambda>r. akName r = n \<and> akStream r = st) reqs)) (CursorGet n st s)"
    unfolding commitAcks_seq by (rule seq_acks_position)
qed (simp_all add: commitAcks_def Let_def)

end
