(* ===== verification/Store_Repl.thy ===== *)
theory Store_Repl
  imports Store_Append
begin

text \<open>
  Replicated batches at a parent (\<^verbatim>\<open>internal/store\<close>: \<^verbatim>\<open>replgroup.go\<close>, the high-water marks and
  \<^verbatim>\<open>AdoptChildStore\<close> of \<^verbatim>\<open>store.go\<close>). A child pushes the records of a stream under its own
  offsets; the parent appends what is above the high-water mark of (child, stream) under offsets of its
  own and moves the mark in the same batch.
\<close>

section \<open>High-water marks\<close>

definition hwm_on_disk :: "string \<times> string \<Rightarrow> Disk \<Rightarrow> nat" where
  "hwm_on_disk key d = tget 0 key (dHWM d)"

definition HWMGet :: "string \<Rightarrow> string \<Rightarrow> Store \<Rightarrow> nat \<times> Store" where
  "HWMGet child stream s =
     (case sHWMs s (child, stream) of
        Some v \<Rightarrow> (v, s)
      | None \<Rightarrow> let v = hwm_on_disk (child, stream) (sDisk s)
                in (v, s\<lparr>sHWMs := (sHWMs s)((child, stream) \<mapsto> v)\<rparr>))"

definition hwmsCommitted :: "(string \<times> string, nat) table \<Rightarrow> Store \<Rightarrow> Store" where
  "hwmsCommitted marks s = s\<lparr>sHWMs := sHWMs s ++ map_of marks\<rparr>"

definition hwmsDropped :: "string \<Rightarrow> Store \<Rightarrow> Store" where
  "hwmsDropped child s = s\<lparr>sHWMs := (\<lambda>k. if fst k = child then None else sHWMs s k)\<rparr>"

definition AdoptChildStore :: "bool \<Rightarrow> string \<Rightarrow> string \<Rightarrow> Store \<Rightarrow> (store_error + bool) \<times> Store" where
  "AdoptChildStore ok child sid s =
     (if sid = '''' then (Inr False, s)
      else if sAdopted s child = Some sid then (Inr False, s)
      else
        let prev = (case dChildStore (sDisk s) child of Some v \<Rightarrow> v | None \<Rightarrow> '''') in
        if prev = sid then (Inr False, s\<lparr>sAdopted := (sAdopted s)(child \<mapsto> sid)\<rparr>)
        else
          let reset = (prev \<noteq> '''');
              b = (if reset then (sDisk s)\<lparr>dHWM := filter (\<lambda>e. fst (fst e) \<noteq> child) (dHWM (sDisk s))\<rparr> else sDisk s);
              b1 = b\<lparr>dChildStore := (dChildStore b)(child \<mapsto> sid)\<rparr>
          in if \<not> ok then (Inl ApplyFailed, s)
             else
               let s1 = s\<lparr>sDisk := b1\<rparr>; s2 = (if reset then hwmsDropped child s1 else s1)
               in (Inr reset, s2\<lparr>sAdopted := (sAdopted s2)(child \<mapsto> sid)\<rparr>))"

section \<open>One replicated request\<close>

definition invalid_skip :: "string \<Rightarrow> ReplRecord \<Rightarrow> bool" where
  "invalid_skip stream r \<longleftrightarrow>
     qSkipFrom r \<noteq> 0 \<and>
     (stream \<noteq> ''metrics'' \<or> qSkipFrom r > qChildOffset r \<or> qTopic r \<noteq> '''' \<or> slice_bytes (qPayload r) \<noteq> [])"

text \<open>Compatibility with a direct child: at the first hop its child offset is the coordinate its owner
  gave the record.\<close>

definition with_origin :: "ReplRecord \<Rightarrow> ReplRecord" where
  "with_origin r = (if qOriginOffset r = 0 then r\<lparr>qOriginOffset := qChildOffset r\<rparr> else r)"

definition repl_record :: "ReplRecord \<Rightarrow> Record" where
  "repl_record r =
     \<lparr>rSourceLocalOnly = False, rTopic = qTopic r, rPayload = qPayload r, rTS = qTS r, rWrittenBy = qWrittenBy r,
      rOriginOffset = qOriginOffset r, rActorID = qActorID r, rActorLabel = qActorLabel r,
      rActorKind = qActorKind r, rActorGroups = qActorGroups r, rActorClient = qActorClient r,
      rActorEmail = qActorEmail r, rActorClasses = qActorClasses r, rActorCredential = qActorCredential r,
      rDoor = '''', rKVPath = qKVPath r, rKVNode = qKVNode r, rDelete = qDelete r\<rparr>"

record replRequest =
  gChild :: string
  gStream :: string
  gRecs :: "ReplRecord list"

text \<open>The records above the mark \<^verbatim>\<open>hwm\<close>, added to the batch from offset \<^verbatim>\<open>off\<close>: the applied
  records, the new mark, the next offset, the bytes added and the batch.\<close>

fun buildReplicated ::
    "string \<Rightarrow> ReplRecord list \<Rightarrow> nat \<Rightarrow> nat \<Rightarrow> Disk \<Rightarrow>
     store_error + ReplRecord list \<times> nat \<times> nat \<times> nat \<times> Disk" where
  "buildReplicated stream [] hwm off b = Inr ([], hwm, off, 0, b)"
| "buildReplicated stream (r # rs) hwm off b =
     (if invalid_skip stream r then Inl BadSkipRange
      else if qChildOffset r \<le> hwm then buildReplicated stream rs hwm off b
      else if qSkipFrom r \<noteq> 0 then
        (case buildReplicated stream rs (qChildOffset r) off b of
           Inl e \<Rightarrow> Inl e
         | Inr (applied, hwm', next, added, b') \<Rightarrow> Inr (r # applied, hwm', next, added, b'))
      else
        let r' = with_origin r in
        case addRecord stream off (repl_record r') b of (b1, n) \<Rightarrow>
          (case buildReplicated stream rs (qChildOffset r) (off + 1) b1 of
             Inl e \<Rightarrow> Inl e
           | Inr (applied, hwm', next, added, b') \<Rightarrow> Inr (r' # applied, hwm', next, n + added, b')))"

section \<open>Group commit of replicated requests\<close>

record repl_result =
  reApplied :: "ReplRecord list"
  reHWM :: nat
  reErr :: "store_error option"

text \<open>What the leader of a group has built so far; each result comes with its request and whether the
  request is in the batch.\<close>

record repl_group =
  rgStore :: Store
  rgStreams :: "(string, nat \<times> nat) table"
  rgHWMs :: "(string \<times> string, nat) table"
  rgBatch :: Disk
  rgDone :: "(replRequest \<times> bool \<times> repl_result) list"

definition repl_answer :: "replRequest \<Rightarrow> bool \<Rightarrow> repl_result \<Rightarrow> repl_group \<Rightarrow> repl_group" where
  "repl_answer r committed res g = g\<lparr>rgDone := rgDone g @ [(r, committed, res)]\<rparr>"

definition repl_request :: "replRequest \<Rightarrow> repl_group \<Rightarrow> repl_group" where
  "repl_request r g =
     (let s = rgStore g; stream = gStream r; key = (gChild r, stream) in
      if map_of (rgStreams g) stream = None \<and> sNext s stream = 0
      then (case HWMGet (gChild r) stream s of (hwm, s1) \<Rightarrow>
        repl_answer r False \<lparr>reApplied = [], reHWM = hwm, reErr = Some (UnknownStream stream)\<rparr> (g\<lparr>rgStore := s1\<rparr>))
      else
        let start = (case map_of (rgStreams g) stream of None \<Rightarrow> (sNext s stream, sBytes s stream) | Some p \<Rightarrow> p);
            g1 = g\<lparr>rgStreams := tput stream start (rgStreams g)\<rparr> in
        case (case map_of (rgHWMs g) key of Some h \<Rightarrow> (h, s) | None \<Rightarrow> HWMGet (gChild r) stream s) of (prev, s1) \<Rightarrow>
          (case buildReplicated stream (gRecs r) prev (fst start) (rgBatch g) of
             Inl e \<Rightarrow> repl_answer r False \<lparr>reApplied = [], reHWM = prev, reErr = Some e\<rparr> (g1\<lparr>rgStore := s1\<rparr>)
           | Inr (applied, hwm, off, added, b) \<Rightarrow>
               if applied = []
               then repl_answer r False \<lparr>reApplied = [], reHWM = hwm, reErr = None\<rparr> (g1\<lparr>rgStore := s1\<rparr>)
               else repl_answer r True \<lparr>reApplied = applied, reHWM = hwm, reErr = None\<rparr>
                 (g1\<lparr>rgStore := s1, rgStreams := tput stream (off, snd start + added) (rgStreams g1),
                     rgHWMs := tput key hwm (rgHWMs g1), rgBatch := b\<rparr>)))"

definition repl_start :: "Store \<Rightarrow> repl_group" where
  "repl_start s = \<lparr>rgStore = s, rgStreams = [], rgHWMs = [], rgBatch = sDisk s, rgDone = []\<rparr>"

definition repl_heads :: "Store \<Rightarrow> (string, nat \<times> nat) table \<Rightarrow> Disk \<Rightarrow> Disk" where
  "repl_heads s grown b =
     fold (\<lambda>(stream, off, live) b. if off = sNext s stream then b else setBytes stream live (setHead stream off b))
       grown b"

definition repl_marks :: "(string \<times> string, nat) table \<Rightarrow> Disk \<Rightarrow> Disk" where
  "repl_marks marks b = fold (\<lambda>(key, hwm) b. b\<lparr>dHWM := tput key hwm (dHWM b)\<rparr>) marks b"

text \<open>The answer of a request in a batch whose apply failed.\<close>

definition repl_failed :: "Store \<Rightarrow> replRequest \<times> bool \<times> repl_result \<Rightarrow> repl_result" where
  "repl_failed s = (\<lambda>(r, committed, res).
     if committed
     then res\<lparr>reApplied := [], reErr := Some ApplyFailed, reHWM := fst (HWMGet (gChild r) (gStream r) s)\<rparr>
     else res)"

definition note_applied :: "(string \<Rightarrow> nat) \<Rightarrow> replRequest \<times> bool \<times> repl_result \<Rightarrow>
    (string \<Rightarrow> string \<Rightarrow> nat) \<Rightarrow> (string \<Rightarrow> string \<Rightarrow> nat)" where
  "note_applied next = (\<lambda>(r, committed, res) heads.
     if \<not> committed then heads
     else fold (\<lambda>rec heads. if qSkipFrom rec = 0 then noteContract (gStream r) (next (gStream r)) (qTopic rec) heads else heads)
       (reApplied res) heads)"

definition commitReplicated :: "bool \<Rightarrow> replRequest list \<Rightarrow> Store \<Rightarrow> repl_result list \<times> Store" where
  "commitReplicated ok reqs s =
     (let g = fold repl_request reqs (repl_start s); s1 = rgStore g in
      if list_all (\<lambda>d. \<not> fst (snd d)) (rgDone g) then (map (snd \<circ> snd) (rgDone g), s1)
      else if \<not> ok
      then (map (repl_failed s1) (rgDone g),
            fold (\<lambda>(r, committed, res) s. if committed then snd (HWMGet (gChild r) (gStream r) s) else s) (rgDone g) s1)
      else
        let next = (\<lambda>st. case map_of (rgStreams g) st of Some p \<Rightarrow> fst p | None \<Rightarrow> sNext s1 st);
            live = (\<lambda>st. case map_of (rgStreams g) st of Some p \<Rightarrow> snd p | None \<Rightarrow> sBytes s1 st);
            s2 = hwmsCommitted (rgHWMs g) s1
        in (map (snd \<circ> snd) (rgDone g),
            s2\<lparr>sDisk := repl_marks (rgHWMs g) (repl_heads s1 (rgStreams g) (rgBatch g)),
               sNext := next, sBytes := live, sHeads := fold (note_applied next) (rgDone g) (sHeads s2)\<rparr>))"

definition ApplyReplicated ::
    "bool \<Rightarrow> string \<Rightarrow> string \<Rightarrow> ReplRecord list \<Rightarrow> Store \<Rightarrow> repl_result \<times> Store" where
  "ApplyReplicated ok child stream recs s =
     (case commitReplicated ok [\<lparr>gChild = child, gStream = stream, gRecs = recs\<rparr>] s of (res, s') \<Rightarrow> (hd res, s'))"

section \<open>Building a request\<close>

lemma invalid_skip_origin [simp]: "invalid_skip st (with_origin r) = invalid_skip st r"
  "qChildOffset (with_origin r) = qChildOffset r" "qSkipFrom (with_origin r) = qSkipFrom r"
  by (auto simp: invalid_skip_def with_origin_def)

lemma build_append:
  "buildReplicated st (xs @ ys) hwm off b =
     (case buildReplicated st xs hwm off b of
        Inl e \<Rightarrow> Inl e
      | Inr (a, h, n, y, b1) \<Rightarrow>
          (case buildReplicated st ys h n b1 of
             Inl e \<Rightarrow> Inl e
           | Inr (a', h', n', y', b2) \<Rightarrow> Inr (a @ a', h', n', y + y', b2)))"
proof (induction xs arbitrary: hwm off b)
  case Nil
  show ?case by (auto split: sum.split)
next
  case (Cons r rs)
  show ?case
    unfolding append_Cons buildReplicated.simps Cons.IH Let_def case_prod_beta
    by (simp split: sum.split prod.split)
qed

lemma build_duplicates:
  "list_all (\<lambda>r. \<not> invalid_skip st r \<and> qChildOffset r \<le> hwm) rs \<Longrightarrow>
   buildReplicated st rs hwm off b = Inr ([], hwm, off, 0, b)"
  by (induction rs) auto

lemma build_valid:
  "list_all (\<lambda>r. \<not> invalid_skip st r) rs \<Longrightarrow> \<exists>x. buildReplicated st rs hwm off b = Inr x"
proof (induction rs arbitrary: hwm off b)
  case (Cons r rs)
  then have "\<exists>x. buildReplicated st rs h o' b' = Inr x" for h o' b' by simp
  then show ?case using Cons.prems
    by (simp add: Let_def case_prod_beta split: sum.split) (metis Inl_Inr_False)
qed simp

lemma build_monotone:
  "buildReplicated st rs hwm off b = Inr (a, h, n, y, b1) \<Longrightarrow>
   hwm \<le> h \<and> off \<le> n \<and> (n = off \<longrightarrow> y = 0) \<and> (a = [] \<longrightarrow> h = hwm \<and> n = off \<and> y = 0 \<and> b1 = b)"
proof (induction rs arbitrary: hwm off b a h n y b1)
  case (Cons r rs)
  show ?case
    using Cons.prems Cons.IH
    by (fastforce simp: Let_def case_prod_beta split: if_splits sum.splits prod.splits)
qed simp

lemma build_mark:
  assumes "buildReplicated st rs hwm off b = Inr (a, h, n, y, b1)" "sorted (map qChildOffset rs)"
  shows "rs \<noteq> [] \<Longrightarrow> h = max hwm (qChildOffset (last rs))"
  using assms
proof (induction rs arbitrary: hwm off b a h n y b1)
  case (Cons r rs)
  have le: "rs \<noteq> [] \<Longrightarrow> qChildOffset r \<le> qChildOffset (last rs)"
    using Cons.prems(3) by simp
  have nil: "rs = [] \<Longrightarrow> ?case"
    using Cons.prems by (auto simp: Let_def case_prod_beta split: if_splits)
  have "?case" if "rs \<noteq> []"
  proof -
    consider (old) "qChildOffset r \<le> hwm" "buildReplicated st rs hwm off b = Inr (a, h, n, y, b1)"
      | (new) o' b' a' y' where "hwm < qChildOffset r" "buildReplicated st rs (qChildOffset r) o' b' = Inr (a', h, n, y', b1)"
      using Cons.prems(2) by (auto simp: Let_def case_prod_beta split: if_splits sum.splits prod.splits)
    then show ?thesis
    proof cases
      case old
      then show ?thesis using Cons.IH [OF that old(2)] Cons.prems(3) that by simp
    next
      case new
      then have "hwm \<le> qChildOffset (last rs)" using le [OF that] by simp
      then show ?thesis
        using Cons.IH [OF that new(2)] Cons.prems(3) le [OF that] that by (simp add: max.absorb2)
    qed
  qed
  then show ?case using nil by blast
qed simp

text \<open>The counters and marks of the disk are not part of what a request builds.\<close>

definition put_marks ::
    "(string \<rightharpoonup> nat) \<Rightarrow> (string \<rightharpoonup> nat) \<Rightarrow> (string \<rightharpoonup> nat) \<Rightarrow> (string \<times> string, nat) table \<Rightarrow> Disk \<Rightarrow> Disk" where
  "put_marks m i y h b = b\<lparr>dMeta := m, dIndexed := i, dBytes := y, dHWM := h\<rparr>"

lemma put_marks_put_marks [simp]: "put_marks m i y h (put_marks m' i' y' h' b) = put_marks m i y h b"
  by (cases b) (simp add: put_marks_def)

lemma put_marks_self [simp]: "put_marks (dMeta b) (dIndexed b) (dBytes b) (dHWM b) b = b"
  by (cases b) (simp add: put_marks_def)

lemma put_marks_fields [simp]:
  "dMeta (put_marks m i y h b) = m" "dIndexed (put_marks m i y h b) = i" "dBytes (put_marks m i y h b) = y"
  "dHWM (put_marks m i y h b) = h"
  by (simp_all add: put_marks_def)

lemma addRecord_put_marks:
  "addRecord st off r (put_marks m i y h b) = (put_marks m i y h (fst (addRecord st off r b)), snd (addRecord st off r b))"
  by (cases b) (simp add: put_marks_def addRecord_def project_kv_def setKV_def deleteKV_def Let_def split: option.split)

lemma addRecord_keeps_marks:
  "dMeta (fst (addRecord st off r b)) = dMeta b" "dIndexed (fst (addRecord st off r b)) = dIndexed b"
  "dBytes (fst (addRecord st off r b)) = dBytes b" "dHWM (fst (addRecord st off r b)) = dHWM b"
  by (simp_all add: addRecord_def project_kv_def setKV_def deleteKV_def Let_def split: option.split)

lemma build_put_marks:
  "buildReplicated st rs hwm off (put_marks m i y h b) =
     map_sum (\<lambda>e. e) (\<lambda>(a, h', n, z, b1). (a, h', n, z, put_marks m i y h b1)) (buildReplicated st rs hwm off b)"
proof (induction rs arbitrary: hwm off b)
  case (Cons r rs)
  show ?case
    by (simp add: Cons.IH Let_def addRecord_put_marks case_prod_beta split: sum.split)
qed simp

lemma build_keeps_marks:
  "buildReplicated st rs hwm off b = Inr (a, h, n, y, b1) \<Longrightarrow>
   dMeta b1 = dMeta b \<and> dIndexed b1 = dIndexed b \<and> dBytes b1 = dBytes b \<and> dHWM b1 = dHWM b"
proof (induction rs arbitrary: hwm off b a h n y b1)
  case (Cons r rs)
  show ?case
    using Cons.prems Cons.IH addRecord_keeps_marks
    by (fastforce simp: Let_def case_prod_beta split: if_splits sum.splits prod.splits)
qed simp

section \<open>One request is one commit\<close>

text \<open>The effect of a request that is a commit of its own; the read hints are left out.\<close>

definition repl_one :: "replRequest \<Rightarrow> Store \<Rightarrow> repl_result \<times> Store" where
  "repl_one r s =
     (case HWMGet (gChild r) (gStream r) s of (prev, s1) \<Rightarrow>
        let st = gStream r; off = sNext s st in
        if off = 0 then (\<lparr>reApplied = [], reHWM = prev, reErr = Some (UnknownStream st)\<rparr>, s1)
        else case buildReplicated st (gRecs r) prev off (sDisk s) of
          Inl e \<Rightarrow> (\<lparr>reApplied = [], reHWM = prev, reErr = Some e\<rparr>, s1)
        | Inr (applied, hwm, next, added, b) \<Rightarrow>
            (\<lparr>reApplied = applied, reHWM = hwm, reErr = None\<rparr>,
             if applied = [] then s1
             else
               let b1 = (if next = off then b else setBytes st (sBytes s st + added) (setHead st next b))
               in s1\<lparr>sHWMs := (sHWMs s1)((gChild r, st) \<mapsto> hwm),
                     sDisk := b1\<lparr>dHWM := tput (gChild r, st) hwm (dHWM b1)\<rparr>,
                     sNext := (sNext s)(st := next), sBytes := (sBytes s)(st := sBytes s st + added)\<rparr>))"

lemma HWMGet_cases:
  "HWMGet child st s = (v, s1) \<Longrightarrow>
     s1 = s\<lparr>sHWMs := (sHWMs s)((child, st) \<mapsto> v)\<rparr> \<and>
     v = (case sHWMs s (child, st) of Some v \<Rightarrow> v | None \<Rightarrow> tget 0 (child, st) (dHWM (sDisk s)))"
  by (cases s) (auto simp: HWMGet_def hwm_on_disk_def Let_def fun_upd_idem split: option.splits)

lemma commit_one:
  "\<exists>h. commitReplicated True [r] s = ([fst (repl_one r s)], snd (repl_one r s)\<lparr>sHeads := h\<rparr>)"
proof -
  obtain v s1 where get: "HWMGet (gChild r) (gStream r) s = (v, s1)" by fastforce
  have s1: "s1 = s\<lparr>sHWMs := (sHWMs s)((gChild r, gStream r) \<mapsto> v)\<rparr>" using HWMGet_cases [OF get] by blast
  let ?st = "gStream r"
  show ?thesis
  proof (cases "sNext s ?st = 0")
    case True
    then show ?thesis
      by (auto simp: commitReplicated_def repl_one_def repl_start_def repl_request_def repl_answer_def get Let_def
          intro!: exI [of _ "sHeads s1"])
  next
    case False
    note unf = commitReplicated_def repl_one_def repl_start_def repl_request_def repl_answer_def get Let_def
    show ?thesis
    proof (cases "buildReplicated ?st (gRecs r) v (sNext s ?st) (sDisk s)")
      case (Inl e)
      then show ?thesis using False by (auto simp: unf intro!: exI [of _ "sHeads s1"])
    next
      case (Inr x)
      obtain a h n y b where x: "x = (a, h, n, y, b)" by (cases x)
      show ?thesis
      proof (cases "a = []")
        case True
        then show ?thesis
          using False Inr x build_monotone by (auto simp: unf intro!: exI [of _ "sHeads s1"])
      next
        case nonempty: False
        let ?g = "fold repl_request [r] (repl_start s)"
        have "rgStreams ?g = [(?st, n, sBytes s ?st + y)]" "rgHWMs ?g = [((gChild r, ?st), h)]" "rgBatch ?g = b" "rgStore ?g = s1"
          "rgDone ?g = [(r, True, \<lparr>reApplied = a, reHWM = h, reErr = None\<rparr>)]"
          using False Inr x nonempty by (simp_all add: unf)
        note g = this
        have next': "(\<lambda>st. case map_of [(?st, n, sBytes s ?st + y)] st of Some p \<Rightarrow> fst p | None \<Rightarrow> sNext s1 st) = (sNext s)(?st := n)"
          "(\<lambda>st. case map_of [(?st, n, sBytes s ?st + y)] st of Some p \<Rightarrow> snd p | None \<Rightarrow> sBytes s1 st) = (sBytes s)(?st := sBytes s ?st + y)"
          using s1 by (auto simp: fun_eq_iff)
        have "sHWMs s1 ++ map_of [((gChild r, ?st), h)] = (sHWMs s1)((gChild r, ?st) \<mapsto> h)" by (simp add: map_add_def fun_eq_iff)
        then show ?thesis
          using False Inr x nonempty s1
          unfolding commitReplicated_def g Let_def next'
          by (auto simp: repl_one_def get Let_def repl_heads_def repl_marks_def hwmsCommitted_def)
      qed
    qed
  qed
qed

section \<open>A group is the requests one by one\<close>

text \<open>The counters on disk once the heads of a group are written: those of the streams that grew.\<close>

definition grown_marks :: "Store \<Rightarrow> (string \<Rightarrow> nat) \<Rightarrow> (string \<Rightarrow> nat) \<Rightarrow> (string \<times> string, nat) table \<Rightarrow> Disk \<Rightarrow> Disk" where
  "grown_marks s next live h b =
     put_marks (\<lambda>st. if next st = sNext s st then dMeta (sDisk s) st else Some (next st))
       (\<lambda>st. if next st = sNext s st then dIndexed (sDisk s) st else Some (next st))
       (\<lambda>st. if next st = sNext s st then dBytes (sDisk s) st else Some (live st)) h b"

definition repl_rest :: "Store \<Rightarrow> Store \<Rightarrow> bool" where
  "repl_rest s q \<longleftrightarrow> sLWM q = sLWM s \<and> sHoles q = sHoles s \<and> sHeads q = sHeads s \<and> sAdopted q = sAdopted s \<and>
     sPolicies q = sPolicies s \<and> sSigFrom q = sSigFrom s \<and> sTargetFrom q = sTargetFrom s \<and>
     sMaxRecordBytes q = sMaxRecordBytes s \<and> sID q = sID s \<and> sIDMinted q = sIDMinted s"

definition same_marks :: "Disk \<Rightarrow> Disk \<Rightarrow> bool" where
  "same_marks b d \<longleftrightarrow> dMeta b = dMeta d \<and> dIndexed b = dIndexed d \<and> dBytes b = dBytes d \<and> dHWM b = dHWM d"

definition repl_streams_sim :: "Store \<Rightarrow> repl_group \<Rightarrow> Store \<Rightarrow> bool" where
  "repl_streams_sim s g q \<longleftrightarrow>
     (\<forall>st. sNext s st \<le> sNext q st \<and> (sNext q st = sNext s st \<longrightarrow> sBytes q st = sBytes s st) \<and>
       (map_of (rgStreams g) st \<noteq> None \<longrightarrow>
          map_of (rgStreams g) st = Some (sNext q st, sBytes q st) \<and> sNext s st \<noteq> 0) \<and>
       (map_of (rgStreams g) st = None \<longrightarrow> sNext q st = sNext s st))"

definition repl_marks_sim :: "Store \<Rightarrow> repl_group \<Rightarrow> Store \<Rightarrow> bool" where
  "repl_marks_sim s g q \<longleftrightarrow>
     table_ok (rgHWMs g) \<and> table_ok (dHWM (sDisk s)) \<and> table_ok (dHWM (sDisk q)) \<and>
     map_of (dHWM (sDisk q)) = map_of (dHWM (sDisk s)) ++ map_of (rgHWMs g) \<and>
     sHWMs q = sHWMs (rgStore g) ++ map_of (rgHWMs g) \<and>
     (\<forall>c st. map_of (rgHWMs g) (c, st) \<noteq> None \<longrightarrow> map_of (rgStreams g) st \<noteq> None)"

definition repl_sim :: "Store \<Rightarrow> repl_group \<Rightarrow> Store \<Rightarrow> bool" where
  "repl_sim s g q \<longleftrightarrow>
     (\<exists>c. rgStore g = s\<lparr>sHWMs := c\<rparr>) \<and> repl_rest s q \<and> table_ok (rgStreams g) \<and>
     repl_streams_sim s g q \<and> repl_marks_sim s g q \<and> same_marks (rgBatch g) (sDisk s) \<and>
     sDisk q = grown_marks s (sNext q) (sBytes q) (dHWM (sDisk q)) (rgBatch g) \<and>
     (list_all (\<lambda>d. \<not> fst (snd d)) (rgDone g) \<longrightarrow>
        rgBatch g = sDisk s \<and> rgHWMs g = [] \<and> sNext q = sNext s)"

lemma repl_sim_start: "table_ok (dHWM (sDisk s)) \<Longrightarrow> repl_sim s (repl_start s) s"
  by (auto simp: repl_sim_def repl_start_def repl_rest_def repl_streams_sim_def repl_marks_sim_def same_marks_def
      grown_marks_def intro!: exI [of _ "sHWMs s"])

definition repl_prev :: "replRequest \<Rightarrow> repl_group \<Rightarrow> nat \<times> Store" where
  "repl_prev r g =
     (case map_of (rgHWMs g) (gChild r, gStream r) of
        Some h \<Rightarrow> (h, rgStore g) | None \<Rightarrow> HWMGet (gChild r) (gStream r) (rgStore g))"

lemma repl_prev_sim:
  assumes "repl_sim s g q" "repl_prev r g = (v, s1)"
  shows "HWMGet (gChild r) (gStream r) q = (v, q\<lparr>sHWMs := sHWMs s1 ++ map_of (rgHWMs g)\<rparr>)"
    and "\<exists>c. s1 = s\<lparr>sHWMs := c\<rparr>"
proof -
  obtain c where c: "rgStore g = s\<lparr>sHWMs := c\<rparr>" using assms(1) by (auto simp: repl_sim_def)
  let ?k = "(gChild r, gStream r)"
  have m: "sHWMs q = c ++ map_of (rgHWMs g)" "map_of (dHWM (sDisk q)) = map_of (dHWM (sDisk s)) ++ map_of (rgHWMs g)"
    using assms(1) c by (auto simp: repl_sim_def repl_marks_sim_def)
  obtain v' q1 where get: "HWMGet (gChild r) (gStream r) q = (v', q1)" by fastforce
  note q1 = HWMGet_cases [OF get]
  have "v' = v \<and> (sHWMs q)(?k \<mapsto> v') = sHWMs s1 ++ map_of (rgHWMs g) \<and> (\<exists>c. s1 = s\<lparr>sHWMs := c\<rparr>)"
  proof (cases "map_of (rgHWMs g) ?k")
    case None
    then have "HWMGet (gChild r) (gStream r) (rgStore g) = (v, s1)" using assms(2) by (simp add: repl_prev_def)
    note s1 = HWMGet_cases [OF this]
    have "v' = v" using q1 s1 None m c by (simp add: tget_def map_add_def split: option.splits)
    moreover have "(sHWMs q)(?k \<mapsto> v) = sHWMs s1 ++ map_of (rgHWMs g)"
      using s1 c m(1) None map_add_upd_left [of ?k "map_of (rgHWMs g)" c v] by (simp add: dom_def)
    ultimately show ?thesis using s1 c by auto
  next
    case (Some h)
    then have "v = h" "s1 = rgStore g" using assms(2) by (auto simp: repl_prev_def)
    then show ?thesis using Some m(1) q1 c by (auto simp: map_add_def fun_eq_iff)
  qed
  then show "HWMGet (gChild r) (gStream r) q = (v, q\<lparr>sHWMs := sHWMs s1 ++ map_of (rgHWMs g)\<rparr>)"
    "\<exists>c. s1 = s\<lparr>sHWMs := c\<rparr>"
    using get q1 by auto
qed

lemma repl_sim_touch:
  assumes "repl_sim s g q" "sNext s st \<noteq> 0"
  shows "repl_sim s (g\<lparr>rgStreams := tput st (sNext q st, sBytes q st) (rgStreams g)\<rparr>) q"
  using assms
  by (auto simp: repl_sim_def repl_streams_sim_def repl_marks_sim_def)

lemma repl_sim_answer:
  assumes "repl_sim s g q" "\<exists>c. s1 = s\<lparr>sHWMs := c\<rparr>"
  shows "repl_sim s (repl_answer r False res (g\<lparr>rgStore := s1\<rparr>)) (q\<lparr>sHWMs := sHWMs s1 ++ map_of (rgHWMs g)\<rparr>)"
  using assms
  by (auto simp: repl_sim_def repl_streams_sim_def repl_marks_sim_def repl_answer_def repl_rest_def)

lemma grown_marks_step:
  assumes "sNext s st \<le> off" "off \<le> off'" "live' = (if off' = off then live st else live')"
    and "nx st = off"
  shows "(let b1 = (if off' = off then grown_marks s nx live h b
                    else setBytes st live' (setHead st off' (grown_marks s nx live h b)))
          in b1\<lparr>dHWM := tput k v (dHWM b1)\<rparr>) =
    grown_marks s (nx(st := off')) (live(st := live')) (tput k v h) b"
proof (cases "off' = off")
  case True
  then have "nx(st := off') = nx" "live(st := live') = live" using assms(3,4) by auto
  then show ?thesis using True by (simp add: grown_marks_def put_marks_def)
next
  case False
  then show ?thesis
    using assms(1,2)
    by (auto simp: grown_marks_def put_marks_def setBytes_def setHead_def fun_eq_iff intro!: Disk.equality)
qed

lemma repl_sim_commit:
  assumes sim: "repl_sim s g q" and s1: "\<exists>c. s1 = s\<lparr>sHWMs := c\<rparr>" and known: "sNext s st \<noteq> 0"
    and build: "buildReplicated st recs v (sNext q st) (rgBatch g) = Inr (a, h, n, y, b)"
    and g': "g' = g\<lparr>rgStore := s1, rgStreams := tput st (n, sBytes q st + y) (rgStreams g),
      rgHWMs := tput (c, st) h (rgHWMs g), rgBatch := b\<rparr>"
    and q': "q' = q\<lparr>sHWMs := (sHWMs s1 ++ map_of (rgHWMs g))((c, st) \<mapsto> h),
      sDisk := grown_marks s ((sNext q)(st := n)) ((sBytes q)(st := sBytes q st + y)) (tput (c, st) h (dHWM (sDisk q))) b,
      sNext := (sNext q)(st := n), sBytes := (sBytes q)(st := sBytes q st + y)\<rparr>"
  shows "repl_sim s (repl_answer r True res g') q'"
proof -
  note mono = build_monotone [OF build] and keep = build_keeps_marks [OF build]
  have streams: "repl_streams_sim s g q" and marks: "repl_marks_sim s g q" and rest: "repl_rest s q"
    and tab: "table_ok (rgStreams g)" and same: "same_marks (rgBatch g) (sDisk s)"
    using sim by (auto simp: repl_sim_def)
  have "repl_streams_sim s (repl_answer r True res g') q'"
    unfolding repl_streams_sim_def
  proof
    fix x
    show "sNext s x \<le> sNext q' x \<and> (sNext q' x = sNext s x \<longrightarrow> sBytes q' x = sBytes s x) \<and>
      (map_of (rgStreams (repl_answer r True res g')) x \<noteq> None \<longrightarrow>
        map_of (rgStreams (repl_answer r True res g')) x = Some (sNext q' x, sBytes q' x) \<and> sNext s x \<noteq> 0) \<and>
      (map_of (rgStreams (repl_answer r True res g')) x = None \<longrightarrow> sNext q' x = sNext s x)"
      using streams [unfolded repl_streams_sim_def, rule_format, of x] mono known
      by (cases "x = st") (auto simp: repl_answer_def g' q')
  qed
  moreover have "repl_marks_sim s (repl_answer r True res g') q'"
    using marks by (auto simp: repl_marks_sim_def repl_answer_def g' q' grown_marks_def)
  moreover have "same_marks (rgBatch (repl_answer r True res g')) (sDisk s)"
    using same keep by (simp add: same_marks_def repl_answer_def g')
  moreover have "sDisk q' = grown_marks s (sNext q') (sBytes q') (dHWM (sDisk q')) (rgBatch (repl_answer r True res g'))"
    by (simp add: q' g' repl_answer_def grown_marks_def)
  moreover have "repl_rest s q'" using rest by (simp add: repl_rest_def q')
  ultimately show ?thesis
    using s1 tab by (simp add: repl_sim_def repl_answer_def g')
qed

lemma repl_request_known:
  assumes "\<not> (map_of (rgStreams g) (gStream r) = None \<and> sNext (rgStore g) (gStream r) = 0)"
    and "repl_prev r g = (v, s1)"
    and "(case map_of (rgStreams g) (gStream r) of
       None \<Rightarrow> (sNext (rgStore g) (gStream r), sBytes (rgStore g) (gStream r)) | Some p \<Rightarrow> p) = start"
    and g1: "g1 = g\<lparr>rgStreams := tput (gStream r) start (rgStreams g)\<rparr>"
  shows "repl_request r g =
    (case buildReplicated (gStream r) (gRecs r) v (fst start) (rgBatch g) of
       Inl e \<Rightarrow> repl_answer r False \<lparr>reApplied = [], reHWM = v, reErr = Some e\<rparr> (g1\<lparr>rgStore := s1\<rparr>)
     | Inr (applied, hwm, off, added, b) \<Rightarrow>
         if applied = []
         then repl_answer r False \<lparr>reApplied = [], reHWM = hwm, reErr = None\<rparr> (g1\<lparr>rgStore := s1\<rparr>)
         else repl_answer r True \<lparr>reApplied = applied, reHWM = hwm, reErr = None\<rparr>
           (g1\<lparr>rgStore := s1, rgStreams := tput (gStream r) (off, snd start + added) (rgStreams g1),
               rgHWMs := tput (gChild r, gStream r) hwm (rgHWMs g1), rgBatch := b\<rparr>))"
  unfolding repl_request_def Let_def assms(3) repl_prev_def [symmetric] assms(2) prod.case g1
  using assms(1) by (simp only: if_False)

lemma repl_step:
  assumes sim: "repl_sim s g q"
  shows "repl_sim s (repl_request r g) (snd (repl_one r q)) \<and>
    map (snd \<circ> snd) (rgDone (repl_request r g)) = map (snd \<circ> snd) (rgDone g) @ [fst (repl_one r q)]"
proof -
  define st where "st = gStream r"
  obtain v s1 where prev: "repl_prev r g = (v, s1)" by fastforce
  define q1 where "q1 = q\<lparr>sHWMs := sHWMs s1 ++ map_of (rgHWMs g)\<rparr>"
  note get = repl_prev_sim(1) [OF sim prev, folded st_def q1_def] and s1 = repl_prev_sim(2) [OF sim prev]
  obtain c0 where store: "rgStore g = s\<lparr>sHWMs := c0\<rparr>" using sim by (auto simp: repl_sim_def)
  have streams: "repl_streams_sim s g q" and disk: "sDisk q = grown_marks s (sNext q) (sBytes q) (dHWM (sDisk q)) (rgBatch g)"
    using sim by (auto simp: repl_sim_def)
  note at = streams [unfolded repl_streams_sim_def, rule_format, of st]
  show ?thesis
  proof (cases "map_of (rgStreams g) st = None \<and> sNext s st = 0")
    case True
    moreover have "\<forall>c st. map_of (rgHWMs g) (c, st) \<noteq> None \<longrightarrow> map_of (rgStreams g) st \<noteq> None"
      using sim by (simp add: repl_sim_def repl_marks_sim_def)
    ultimately have "map_of (rgHWMs g) (gChild r, st) = None" "sNext q st = 0" using at by metis+
    then show ?thesis
      using True prev get repl_sim_answer [OF sim s1] store
      by (simp add: repl_request_def repl_one_def repl_prev_def st_def [symmetric] Let_def q1_def repl_answer_def)
  next
    case False
    then have known: "sNext s st \<noteq> 0" using at by auto
    define g1 where "g1 = g\<lparr>rgStreams := tput st (sNext q st, sBytes q st) (rgStreams g)\<rparr>"
    have start: "(case map_of (rgStreams g) st of None \<Rightarrow> (sNext (rgStore g) st, sBytes (rgStore g) st) | Some p \<Rightarrow> p) =
        (sNext q st, sBytes q st)"
      using at store by (cases "map_of (rgStreams g) st") auto
    have sim1: "repl_sim s g1 q" using repl_sim_touch [OF sim known] by (simp add: g1_def)
    have req: "repl_request r g =
        (case buildReplicated st (gRecs r) v (sNext q st) (rgBatch g) of
             Inl e \<Rightarrow> repl_answer r False \<lparr>reApplied = [], reHWM = v, reErr = Some e\<rparr> (g1\<lparr>rgStore := s1\<rparr>)
           | Inr (applied, hwm, off, added, b) \<Rightarrow>
               if applied = []
               then repl_answer r False \<lparr>reApplied = [], reHWM = hwm, reErr = None\<rparr> (g1\<lparr>rgStore := s1\<rparr>)
               else repl_answer r True \<lparr>reApplied = applied, reHWM = hwm, reErr = None\<rparr>
                 (g1\<lparr>rgStore := s1, rgStreams := tput st (off, sBytes q st + added) (rgStreams g1),
                     rgHWMs := tput (gChild r, st) hwm (rgHWMs g1), rgBatch := b\<rparr>))"
      using repl_request_known [OF _ prev start [unfolded st_def] g1_def [unfolded st_def], unfolded fst_conv snd_conv]
        False store unfolding st_def by simp
    have one: "sNext q st \<noteq> 0" using known at by auto
    have build: "buildReplicated st (gRecs r) v (sNext q st) (sDisk q) =
        map_sum (\<lambda>e. e) (\<lambda>(a, h', n, z, b1). (a, h', n, z, grown_marks s (sNext q) (sBytes q) (dHWM (sDisk q)) b1))
          (buildReplicated st (gRecs r) v (sNext q st) (rgBatch g))"
      using disk build_put_marks unfolding grown_marks_def by metis
    note answer = repl_sim_answer [OF sim1 s1, where r = r]
    show ?thesis
    proof (cases "buildReplicated st (gRecs r) v (sNext q st) (rgBatch g)")
      case (Inl e)
      then show ?thesis
        using answer get one by (simp add: req repl_one_def st_def [symmetric] build Let_def q1_def g1_def repl_answer_def)
    next
      case (Inr x)
      obtain a h n y b where x: "x = (a, h, n, y, b)" by (cases x)
      note b = Inr [unfolded x]
      show ?thesis
      proof (cases "a = []")
        case True
        then show ?thesis
          using answer get one b
          by (simp add: req repl_one_def st_def [symmetric] build Let_def q1_def g1_def repl_answer_def)
      next
        case nonempty: False
        define g2 where "g2 = g1\<lparr>rgStore := s1, rgStreams := tput st (n, sBytes q st + y) (rgStreams g1),
          rgHWMs := tput (gChild r, st) h (rgHWMs g1), rgBatch := b\<rparr>"
        define q2 where "q2 = q\<lparr>sHWMs := (sHWMs s1 ++ map_of (rgHWMs g1))((gChild r, st) \<mapsto> h),
          sDisk := grown_marks s ((sNext q)(st := n)) ((sBytes q)(st := sBytes q st + y))
            (tput (gChild r, st) h (dHWM (sDisk q))) b,
          sNext := (sNext q)(st := n), sBytes := (sBytes q)(st := sBytes q st + y)\<rparr>"
        have b': "buildReplicated st (gRecs r) v (sNext q st) (rgBatch g1) = Inr (a, h, n, y, b)" using b by (simp add: g1_def)
        have marks: "(let b1 = (if n = sNext q st then grown_marks s (sNext q) (sBytes q) (dHWM (sDisk q)) b
              else setBytes st (sBytes q st + y) (setHead st n (grown_marks s (sNext q) (sBytes q) (dHWM (sDisk q)) b)))
            in b1\<lparr>dHWM := tput (gChild r, st) h (dHWM b1)\<rparr>) = sDisk q2"
          unfolding q2_def using grown_marks_step [of s st "sNext q st" n "sBytes q st + y" "sBytes q" "sNext q"]
            at build_monotone [OF b] by simp
        have "repl_one r q = (\<lparr>reApplied = a, reHWM = h, reErr = None\<rparr>, q2)"
          using get one b nonempty marks
          by (simp add: repl_one_def st_def [symmetric] build q1_def q2_def g1_def Let_def)
        moreover have "repl_request r g = repl_answer r True \<lparr>reApplied = a, reHWM = h, reErr = None\<rparr> g2"
          using b nonempty by (simp add: req g2_def)
        moreover have "repl_sim s (repl_answer r True res g2) q2" for res
          by (rule repl_sim_commit [OF sim1 s1 known b' g2_def q2_def])
        ultimately show ?thesis by (simp add: repl_answer_def g2_def g1_def)
      qed
    qed
  qed
qed

fun seq_repl :: "replRequest list \<Rightarrow> Store \<Rightarrow> repl_result list \<times> Store" where
  "seq_repl [] s = ([], s)"
| "seq_repl (r # rs) s =
     (case commitReplicated True [r] s of (x, s1) \<Rightarrow> case seq_repl rs s1 of (xs, s2) \<Rightarrow> (x @ xs, s2))"

fun seq_one :: "replRequest list \<Rightarrow> Store \<Rightarrow> repl_result list \<times> Store" where
  "seq_one [] s = ([], s)"
| "seq_one (r # rs) s =
     (fst (repl_one r s) # fst (seq_one rs (snd (repl_one r s))), snd (seq_one rs (snd (repl_one r s))))"

lemma repl_one_heads:
  "repl_one r (s\<lparr>sHeads := h\<rparr>) = (fst (repl_one r s), snd (repl_one r s)\<lparr>sHeads := h\<rparr>)"
proof -
  have "HWMGet (gChild r) (gStream r) (s\<lparr>sHeads := h\<rparr>) =
      (fst (HWMGet (gChild r) (gStream r) s), snd (HWMGet (gChild r) (gStream r) s)\<lparr>sHeads := h\<rparr>)"
    by (cases s) (simp add: HWMGet_def Let_def split: option.split)
  then show ?thesis
    by (cases "snd (HWMGet (gChild r) (gStream r) s)")
      (simp add: repl_one_def case_prod_beta Let_def split: sum.split)
qed

lemma seq_one_heads:
  "seq_one rs (s\<lparr>sHeads := h\<rparr>) = (fst (seq_one rs s), snd (seq_one rs s)\<lparr>sHeads := h\<rparr>)"
  by (induction rs arbitrary: s) (simp_all add: repl_one_heads)

lemma seq_repl_one: "\<exists>h. seq_repl rs s = (fst (seq_one rs s), snd (seq_one rs s)\<lparr>sHeads := h\<rparr>)"
proof (induction rs arbitrary: s)
  case Nil
  show ?case by (auto intro!: exI [of _ "sHeads s"])
next
  case (Cons r rs)
  obtain h where h: "commitReplicated True [r] s = ([fst (repl_one r s)], snd (repl_one r s)\<lparr>sHeads := h\<rparr>)"
    using commit_one by blast
  obtain h' where "seq_repl rs (snd (repl_one r s)\<lparr>sHeads := h\<rparr>) =
      (fst (seq_one rs (snd (repl_one r s))), snd (seq_one rs (snd (repl_one r s)))\<lparr>sHeads := h'\<rparr>)"
    using Cons.IH [of "snd (repl_one r s)\<lparr>sHeads := h\<rparr>"] by (auto simp: seq_one_heads)
  then show ?case using h by auto
qed

lemma repl_run:
  "repl_sim s g q \<Longrightarrow>
   repl_sim s (fold repl_request rs g) (snd (seq_one rs q)) \<and>
   map (snd \<circ> snd) (rgDone (fold repl_request rs g)) = map (snd \<circ> snd) (rgDone g) @ fst (seq_one rs q)"
proof (induction rs arbitrary: g q)
  case (Cons r rs)
  note step = repl_step [OF Cons.prems, of r]
  show ?case using Cons.IH [OF conjunct1 [OF step]] step by (simp add: comp_def)
qed simp

lemma repl_heads_eq:
  assumes "distinct (map fst t)"
  shows "repl_heads s t b = b
    \<lparr>dMeta := (\<lambda>st. case map_of t st of Some p \<Rightarrow> (if fst p = sNext s st then dMeta b st else Some (fst p)) | None \<Rightarrow> dMeta b st),
     dIndexed := (\<lambda>st. case map_of t st of Some p \<Rightarrow> (if fst p = sNext s st then dIndexed b st else Some (fst p)) | None \<Rightarrow> dIndexed b st),
     dBytes := (\<lambda>st. case map_of t st of Some p \<Rightarrow> (if fst p = sNext s st then dBytes b st else Some (snd p)) | None \<Rightarrow> dBytes b st)\<rparr>"
  using assms
proof (induction t arbitrary: b)
  case (Cons e t)
  obtain st off live where e: "e = (st, off, live)" by (cases e)
  have none: "map_of t st = None" using Cons.prems e by (simp add: map_of_eq_None_iff)
  define b1 where "b1 = (if off = sNext s st then b else setBytes st live (setHead st off b))"
  have "repl_heads s (e # t) b = repl_heads s t b1" by (simp add: repl_heads_def e b1_def)
  also note Cons.IH [of b1]
  finally show ?case
    using Cons.prems none by (auto simp: e b1_def setBytes_def setHead_def fun_eq_iff intro!: Disk.equality split: option.split)
qed (simp add: repl_heads_def)

lemma repl_marks_eq: "repl_marks m b = b\<lparr>dHWM := fold (\<lambda>(k, h). tput k h) m (dHWM b)\<rparr>"
  unfolding repl_marks_def by (induction m arbitrary: b) (auto simp: case_prod_beta)

lemma fold_tput:
  "table_ok t \<Longrightarrow> table_ok (fold (\<lambda>(k, h). tput k h) m t)"
  "distinct (map fst m) \<Longrightarrow> map_of (fold (\<lambda>(k, h). tput k h) m t) = map_of t ++ map_of m"
proof (induction m arbitrary: t)
  case (Cons e m)
  { case 1 then show ?case using Cons.IH(1) by (simp add: case_prod_beta) }
  { case 2
    then have "fst e \<notin> dom (map_of m)" by (auto simp: dom_map_of_conv_image_fst)
    then show ?case
      using 2 Cons.IH(2) [of "tput (fst e) (snd e) t"]
      by (auto simp: case_prod_beta fun_eq_iff map_add_def split: option.split) }
qed simp_all

lemma group_disk:
  assumes sim: "repl_sim s g q"
  shows "repl_marks (rgHWMs g) (repl_heads (rgStore g) (rgStreams g) (rgBatch g)) = sDisk q"
    and "(\<lambda>st. case map_of (rgStreams g) st of Some p \<Rightarrow> fst p | None \<Rightarrow> sNext (rgStore g) st) = sNext q"
    and "(\<lambda>st. case map_of (rgStreams g) st of Some p \<Rightarrow> snd p | None \<Rightarrow> sBytes (rgStore g) st) = sBytes q"
proof -
  obtain c where store: "rgStore g = s\<lparr>sHWMs := c\<rparr>" using sim by (auto simp: repl_sim_def)
  have at: "sNext q st = sNext s st \<Longrightarrow> sBytes q st = sBytes s st"
    "map_of (rgStreams g) st = None \<or> map_of (rgStreams g) st = Some (sNext q st, sBytes q st)"
    "map_of (rgStreams g) st = None \<Longrightarrow> sNext q st = sNext s st" for st
    using sim unfolding repl_sim_def repl_streams_sim_def by metis+
  have marks: "repl_marks_sim s g q" and same: "same_marks (rgBatch g) (sDisk s)"
    and disk: "sDisk q = grown_marks s (sNext q) (sBytes q) (dHWM (sDisk q)) (rgBatch g)"
    and tab: "table_ok (rgStreams g)" using sim by (auto simp: repl_sim_def)
  have next': "(case map_of (rgStreams g) st of Some p \<Rightarrow> fst p | None \<Rightarrow> sNext (rgStore g) st) = sNext q st"
    "(case map_of (rgStreams g) st of Some p \<Rightarrow> snd p | None \<Rightarrow> sBytes (rgStore g) st) = sBytes q st" for st
  proof -
    have "map_of (rgStreams g) st = None \<Longrightarrow> sNext q st = sNext s st \<and> sBytes q st = sBytes s st" using at by blast
    then show "(case map_of (rgStreams g) st of Some p \<Rightarrow> fst p | None \<Rightarrow> sNext (rgStore g) st) = sNext q st"
      "(case map_of (rgStreams g) st of Some p \<Rightarrow> snd p | None \<Rightarrow> sBytes (rgStore g) st) = sBytes q st"
      using at(2) [of st] by (auto simp: store)
  qed
  then show "(\<lambda>st. case map_of (rgStreams g) st of Some p \<Rightarrow> fst p | None \<Rightarrow> sNext (rgStore g) st) = sNext q"
    "(\<lambda>st. case map_of (rgStreams g) st of Some p \<Rightarrow> snd p | None \<Rightarrow> sBytes (rgStore g) st) = sBytes q"
    by (simp_all add: fun_eq_iff)
  define H where "H = dHWM (sDisk q)"
  have "fold (\<lambda>(k, h). tput k h) (rgHWMs g) (dHWM (sDisk s)) = H"
    unfolding H_def
  proof (rule table_ok_eqI)
    have "distinct (map fst (rgHWMs g))" using marks table_ok_distinct unfolding repl_marks_sim_def by blast
    then show "map_of (fold (\<lambda>(k, h). tput k h) (rgHWMs g) (dHWM (sDisk s))) = map_of (dHWM (sDisk q))"
      using marks fold_tput(2) unfolding repl_marks_sim_def by metis
  qed (use marks fold_tput(1) in \<open>auto simp: repl_marks_sim_def\<close>)
  moreover have pick: "(case map_of (rgStreams g) st of Some p \<Rightarrow> (if fst p = sNext (rgStore g) st then x else f p) | None \<Rightarrow> x) =
      (if sNext q st = sNext s st then x else f (sNext q st, sBytes q st))" for st and x :: "nat option" and f
    using at(2,3) [of st] by (auto simp: store)
  ultimately have "repl_marks (rgHWMs g) (repl_heads (rgStore g) (rgStreams g) (rgBatch g)) =
      grown_marks s (sNext q) (sBytes q) H (rgBatch g)"
    using same unfolding repl_marks_eq repl_heads_eq [OF table_ok_distinct [OF tab]] grown_marks_def put_marks_def pick
    by (intro Disk.equality) (auto simp: same_marks_def)
  then show "repl_marks (rgHWMs g) (repl_heads (rgStore g) (rgStreams g) (rgBatch g)) = sDisk q"
    using disk H_def by simp
qed

lemma commitReplicated_seq_one:
  assumes "table_ok (dHWM (sDisk s))"
  shows "\<exists>h. commitReplicated True reqs s = (fst (seq_one reqs s), snd (seq_one reqs s)\<lparr>sHeads := h\<rparr>)"
proof -
  define g where "g = fold repl_request reqs (repl_start s)"
  define q where "q = snd (seq_one reqs s)"
  have sim: "repl_sim s g q" and dn: "map (snd \<circ> snd) (rgDone g) = fst (seq_one reqs s)"
    using repl_run [OF repl_sim_start [OF assms], of reqs] by (auto simp: g_def q_def repl_start_def)
  obtain c where store: "rgStore g = s\<lparr>sHWMs := c\<rparr>" using sim by (auto simp: repl_sim_def)
  have rest: "repl_rest s q" and hw: "sHWMs q = sHWMs (rgStore g) ++ map_of (rgHWMs g)"
    using sim by (auto simp: repl_sim_def repl_marks_sim_def)
  show ?thesis
  proof (cases "list_all (\<lambda>d. \<not> fst (snd d)) (rgDone g)")
    case True
    then have unchanged: "rgBatch g = sDisk s" "rgHWMs g = []" "sNext q = sNext s" using sim by (auto simp: repl_sim_def)
    have "map_of (dHWM (sDisk q)) = map_of (dHWM (sDisk s))" "table_ok (dHWM (sDisk q))"
      using sim unchanged(2) by (simp_all add: repl_sim_def repl_marks_sim_def)
    then have "dHWM (sDisk q) = dHWM (sDisk s)" using assms table_ok_eqI by blast
    moreover have "sDisk q = grown_marks s (sNext q) (sBytes q) (dHWM (sDisk q)) (rgBatch g)"
      using sim unfolding repl_sim_def by blast
    ultimately have "sDisk q = sDisk s" by (simp add: unchanged grown_marks_def)
    moreover have "sBytes q = sBytes s"
      using sim unchanged(3) by (auto simp: repl_sim_def repl_streams_sim_def fun_eq_iff)
    ultimately have "q\<lparr>sHeads := sHeads s\<rparr> = rgStore g"
      using rest hw unchanged by (intro Store.equality) (simp_all add: store repl_rest_def)
    then show ?thesis
      using True dn by (auto simp: commitReplicated_def g_def [symmetric] q_def [symmetric] intro!: exI [of _ "sHeads s"])
  next
    case False
    have "hwmsCommitted (rgHWMs g) (rgStore g)\<lparr>sDisk := sDisk q, sNext := sNext q, sBytes := sBytes q, sHeads := h\<rparr> =
        q\<lparr>sHeads := h\<rparr>" for h
      using rest hw by (intro Store.equality) (simp_all add: store repl_rest_def hwmsCommitted_def)
    then show ?thesis
      using False dn unfolding commitReplicated_def g_def [symmetric] q_def [symmetric] Let_def group_disk [OF sim]
      by (auto simp: dn)
  qed
qed

text \<open>C26: Group commit of replicated batches is invisible. Concurrent pushes, of one child or of many,
  share one batch and one sync; every push gets the answer, and the store ends in the state, of the
  pushes committed one by one in queue order, the high-water marks and their cache included. Only the
  per-contract read hints may differ.\<close>

theorem replicated_group_is_sequential:
  assumes "table_ok (dHWM (sDisk s))"
  shows "\<exists>h. commitReplicated True reqs s = (fst (seq_repl reqs s), snd (seq_repl reqs s)\<lparr>sHeads := h\<rparr>)"
proof -
  obtain h1 where 1: "commitReplicated True reqs s = (fst (seq_one reqs s), snd (seq_one reqs s)\<lparr>sHeads := h1\<rparr>)"
    using commitReplicated_seq_one [OF assms] by blast
  obtain h2 where 2: "seq_repl reqs s = (fst (seq_one reqs s), snd (seq_one reqs s)\<lparr>sHeads := h2\<rparr>)"
    using seq_repl_one by blast
  show ?thesis by (rule exI [of _ h1]) (simp add: 1 2)
qed

text \<open>Two pushes of one child, the second a resend that overlaps the first.\<close>

definition demo_repl :: "nat \<Rightarrow> ReplRecord" where
  "demo_repl off =
     \<lparr>qSkipFrom = 0, qChildOffset = off, qOriginOffset = 0, qTopic = ''colca/v1/_Event/N1/line'', qPayload = Some ''{}'',
      qTS = 0, qWrittenBy = '''', qActorID = '''', qActorLabel = '''', qActorKind = '''', qActorGroups = [],
      qActorClient = '''', qActorEmail = '''', qActorClasses = [], qActorCredential = '''', qKVPath = '''', qKVNode = '''',
      qDelete = False\<rparr>"

definition demo_push :: "ReplRecord list \<Rightarrow> replRequest" where
  "demo_push recs = \<lparr>gChild = ''C1'', gStream = ''entities'', gRecs = recs\<rparr>"


theorem replicated_group_is_sequential_witness:
  "table_ok (dHWM (sDisk new_store)) \<and>
   (\<exists>h. commitReplicated True [demo_push [demo_repl 1, demo_repl 2], demo_push [demo_repl 2, demo_repl 3]] new_store =
     (fst (seq_repl [demo_push [demo_repl 1, demo_repl 2], demo_push [demo_repl 2, demo_repl 3]] new_store),
      snd (seq_repl [demo_push [demo_repl 1, demo_repl 2], demo_push [demo_repl 2, demo_repl 3]] new_store)\<lparr>sHeads := h\<rparr>))"
  using replicated_group_is_sequential [of new_store] by (simp only: new_store_eq empty_disk_def Store.simps Disk.simps table_ok_Nil)

section \<open>Exactly once\<close>

definition hwm_of :: "string \<Rightarrow> string \<Rightarrow> Store \<Rightarrow> nat" where
  "hwm_of child st s = fst (HWMGet child st s)"

text \<open>What a push of a child on a stream can read and change.\<close>

definition repl_core :: "string \<Rightarrow> string \<Rightarrow> Store \<Rightarrow> Disk \<times> (string \<Rightarrow> nat) \<times> (string \<Rightarrow> nat) \<times> nat" where
  "repl_core child st s = (sDisk s, sNext s, sBytes s, hwm_of child st s)"

lemma hwm_of_cached: "sHWMs s (c, st) = Some v \<Longrightarrow> hwm_of c st s = v"
  by (simp add: hwm_of_def HWMGet_def)

lemma repl_one_core:
  assumes "sNext s st \<noteq> 0" "buildReplicated st recs (hwm_of c st s) (sNext s st) (sDisk s) = Inr (a, h, n, y, b)"
  shows "repl_core c st (snd (repl_one \<lparr>gChild = c, gStream = st, gRecs = recs\<rparr> s)) =
    (if a = [] then repl_core c st s
     else (grown_marks s ((sNext s)(st := n)) ((sBytes s)(st := sBytes s st + y)) (tput (c, st) h (dHWM (sDisk s))) b,
           (sNext s)(st := n), (sBytes s)(st := sBytes s st + y), h))"
proof -
  obtain v s1 where get: "HWMGet c st s = (v, s1)" by fastforce
  have v: "v = hwm_of c st s" using get by (simp add: hwm_of_def)
  have s1: "s1 = s\<lparr>sHWMs := (sHWMs s)((c, st) \<mapsto> v)\<rparr>" using HWMGet_cases [OF get] by blast
  note mono = build_monotone [OF assms(2)] and keep = build_keeps_marks [OF assms(2)]
  show ?thesis
  proof (cases "a = []")
    case True
    then show ?thesis using assms get v s1 by (simp add: repl_one_def repl_core_def Let_def hwm_of_cached)
  next
    case False
    have self: "grown_marks s (sNext s) (sBytes s) (dHWM (sDisk s)) b = b"
      using keep by (cases b) (simp add: grown_marks_def put_marks_def)
    have p: "sBytes s st + y = (if n = sNext s st then sBytes s st else sBytes s st + y)" using mono by auto
    have "(let b1 = (if n = sNext s st then b else setBytes st (sBytes s st + y) (setHead st n b))
        in b1\<lparr>dHWM := tput (c, st) h (dHWM b1)\<rparr>) =
      grown_marks s ((sNext s)(st := n)) ((sBytes s)(st := sBytes s st + y)) (tput (c, st) h (dHWM (sDisk s))) b"
      using grown_marks_step [where s = s and st = st and nx = "sNext s" and live = "sBytes s" and h = "dHWM (sDisk s)"
          and b = b and k = "(c, st)" and v = h, unfolded self, OF order_refl _ p refl] mono by blast
    then show ?thesis
      using False assms get v s1 by (simp add: repl_one_def repl_core_def Let_def hwm_of_cached)
  qed
qed

lemma tput_tput [simp]: "tput k v (tput k w t) = tput k v t"
  by (induction k w t rule: tput.induct) auto

lemma grown_marks_cong:
  assumes "sDisk s' = sDisk s" "sNext s' = sNext s"
  shows "grown_marks s' = grown_marks s"
  unfolding fun_eq_iff grown_marks_def assms by blast

lemma grown_marks_twice:
  assumes "sNext s st \<le> n" "n = sNext s st \<longrightarrow> y = 0" "n \<le> n'" "n' = n \<longrightarrow> y' = 0"
    and "sDisk s1 = grown_marks s (sNext s1) (sBytes s1) H b" "sNext s1 = (sNext s)(st := n)"
    and "sBytes s1 = (sBytes s)(st := sBytes s st + y)"
  shows "grown_marks s1 ((sNext s1)(st := n')) ((sBytes s1)(st := sBytes s1 st + y')) H'
      (grown_marks s (sNext s1) (sBytes s1) H b') =
    grown_marks s ((sNext s)(st := n')) ((sBytes s)(st := sBytes s st + (y + y'))) H' b'"
  unfolding grown_marks_def [of s1] assms(5)
  unfolding grown_marks_def put_marks_put_marks put_marks_fields
  by (rule arg_cong3 [where f = "\<lambda>m i y. put_marks m i y H' b'"]) (use assms(1-4) in \<open>auto simp: assms(6,7)\<close>)

lemma repl_one_core_cong:
  assumes "repl_core c st s = repl_core c st s'" "sNext s st \<noteq> 0" "list_all (\<lambda>r. \<not> invalid_skip st r) recs"
  shows "repl_core c st (snd (repl_one \<lparr>gChild = c, gStream = st, gRecs = recs\<rparr> s)) =
    repl_core c st (snd (repl_one \<lparr>gChild = c, gStream = st, gRecs = recs\<rparr> s'))"
proof -
  have eq: "sDisk s' = sDisk s" "sNext s' = sNext s" "sBytes s' = sBytes s" "hwm_of c st s' = hwm_of c st s"
    using assms(1) by (auto simp: repl_core_def)
  obtain a h n y b where build: "buildReplicated st recs (hwm_of c st s) (sNext s st) (sDisk s) = Inr (a, h, n, y, b)"
    using build_valid [OF assms(3)] by (metis prod_cases5)
  show ?thesis
    using repl_one_core [OF assms(2) build] repl_one_core [of s' st recs c a h n y b] assms build
    by (simp add: eq grown_marks_cong [OF eq(1,2)])
qed

text \<open>A batch may be pushed in pieces.\<close>

lemma repl_one_split:
  assumes "sNext s st \<noteq> 0" "list_all (\<lambda>r. \<not> invalid_skip st r) (xs @ ys)"
  shows "repl_core c st (snd (repl_one \<lparr>gChild = c, gStream = st, gRecs = ys\<rparr>
      (snd (repl_one \<lparr>gChild = c, gStream = st, gRecs = xs\<rparr> s)))) =
    repl_core c st (snd (repl_one \<lparr>gChild = c, gStream = st, gRecs = xs @ ys\<rparr> s))"
proof -
  define s1 where "s1 = snd (repl_one \<lparr>gChild = c, gStream = st, gRecs = xs\<rparr> s)"
  obtain a h n y b where bx: "buildReplicated st xs (hwm_of c st s) (sNext s st) (sDisk s) = Inr (a, h, n, y, b)"
    using build_valid [of st xs] assms(2) by (metis list_all_append prod_cases5)
  obtain a' h' n' y' b' where by': "buildReplicated st ys h n b = Inr (a', h', n', y', b')"
    using build_valid [of st ys] assms(2) by (metis list_all_append prod_cases5)
  have bxy: "buildReplicated st (xs @ ys) (hwm_of c st s) (sNext s st) (sDisk s) = Inr (a @ a', h', n', y + y', b')"
    using bx by' by (simp add: build_append)
  note mono = build_monotone [OF bx] build_monotone [OF by'] and whole = repl_one_core [OF assms(1) bxy]
  note core1 = repl_one_core [OF assms(1) bx, folded s1_def]
  show ?thesis
  proof (cases "a = []")
    case True
    then have "repl_core c st s1 = repl_core c st s" using core1 by simp
    then have "repl_core c st (snd (repl_one \<lparr>gChild = c, gStream = st, gRecs = ys\<rparr> s1)) =
        repl_core c st (snd (repl_one \<lparr>gChild = c, gStream = st, gRecs = ys\<rparr> s))"
      using repl_one_core_cong [of c st s1 s] assms by (auto simp: repl_core_def)
    moreover have "buildReplicated st ys (hwm_of c st s) (sNext s st) (sDisk s) = Inr (a', h', n', y', b')"
      using True mono by' by simp
    ultimately show ?thesis
      using repl_one_core [OF assms(1)] whole True mono unfolding s1_def by simp
  next
    case False
    define H where "H = tput (c, st) h (dHWM (sDisk s))"
    have s1: "sDisk s1 = grown_marks s (sNext s1) (sBytes s1) H b" "sNext s1 = (sNext s)(st := n)"
      "sBytes s1 = (sBytes s)(st := sBytes s st + y)" "hwm_of c st s1 = h"
      using core1 False by (auto simp: repl_core_def H_def)
    have next1: "sNext s1 st \<noteq> 0" using s1(2) assms(1) mono by simp
    have build1: "buildReplicated st ys (hwm_of c st s1) (sNext s1 st) (sDisk s1) =
        Inr (a', h', n', y', grown_marks s (sNext s1) (sBytes s1) H b')"
      using by' unfolding s1(1,4) grown_marks_def build_put_marks by (simp add: s1(2))
    note core2 = repl_one_core [OF next1 build1]
    show ?thesis
    proof (cases "a' = []")
      case True
      then show ?thesis using core2 whole core1 False mono unfolding s1_def [symmetric] by simp
    next
      case False': False
      have "grown_marks s1 ((sNext s1)(st := n')) ((sBytes s1)(st := sBytes s1 st + y')) (tput (c, st) h' (dHWM (sDisk s1)))
          (grown_marks s (sNext s1) (sBytes s1) H b') =
        grown_marks s ((sNext s)(st := n')) ((sBytes s)(st := sBytes s st + (y + y'))) (tput (c, st) h' (dHWM (sDisk s))) b'"
        using grown_marks_twice [of s st n y n' y' s1 H b] s1 mono by (simp add: H_def grown_marks_def)
      then show ?thesis
        using core2 whole False False' s1 unfolding s1_def [symmetric] by (simp add: add.assoc)
    qed
  qed
qed

lemma repl_core_heads [simp]: "repl_core c st (s\<lparr>sHeads := h\<rparr>) = repl_core c st s"
  by (simp add: repl_core_def hwm_of_def HWMGet_def hwm_on_disk_def Let_def split: option.split)

lemma repl_core_HWMGet [simp]: "repl_core c st (snd (HWMGet c' st' s)) = repl_core c st s"
  by (auto simp: repl_core_def hwm_of_def HWMGet_def hwm_on_disk_def Let_def split: option.splits)

lemma Apply_core:
  "repl_core c st (snd (ApplyReplicated True c st recs s)) =
     repl_core c st (snd (repl_one \<lparr>gChild = c, gStream = st, gRecs = recs\<rparr> s))"
proof -
  obtain h where "commitReplicated True [\<lparr>gChild = c, gStream = st, gRecs = recs\<rparr>] s =
      ([fst (repl_one \<lparr>gChild = c, gStream = st, gRecs = recs\<rparr> s)],
       snd (repl_one \<lparr>gChild = c, gStream = st, gRecs = recs\<rparr> s)\<lparr>sHeads := h\<rparr>)"
    using commit_one by blast
  then show ?thesis by (simp add: ApplyReplicated_def)
qed

lemma failed_marks_core:
  "repl_core c st (fold (\<lambda>(r, committed, res) s. if committed then snd (HWMGet (gChild r) (gStream r) s) else s) ds x) =
     repl_core c st x"
  by (induction ds arbitrary: x) (auto simp: case_prod_beta)

lemma failed_push_core: "repl_core c st (snd (ApplyReplicated False c st recs s)) = repl_core c st s"
proof -
  have "rgStore (repl_request r (repl_start s)) = snd (HWMGet (gChild r) (gStream r) s)" for r
    by (simp add: repl_request_def repl_start_def repl_answer_def Let_def case_prod_beta split: sum.split)
  moreover have "snd (ApplyReplicated False c st recs s) =
      snd (commitReplicated False [\<lparr>gChild = c, gStream = st, gRecs = recs\<rparr>] s)"
    by (simp add: ApplyReplicated_def case_prod_beta)
  ultimately show ?thesis by (simp add: commitReplicated_def Let_def failed_marks_core)
qed

lemma push_known:
  assumes "sNext s st \<noteq> 0" "list_all (\<lambda>r. \<not> invalid_skip st r) recs"
  shows "sNext (snd (repl_one \<lparr>gChild = c, gStream = st, gRecs = recs\<rparr> s)) st \<noteq> 0"
proof -
  obtain a h n y b where build: "buildReplicated st recs (hwm_of c st s) (sNext s st) (sDisk s) = Inr (a, h, n, y, b)"
    using build_valid [OF assms(2)] by (metis prod_cases5)
  show ?thesis
    using repl_one_core [OF assms(1) build] build_monotone [OF build] assms(1)
    by (auto simp: repl_core_def split: if_splits)
qed

lemma push_duplicates:
  assumes "sNext s st \<noteq> 0" "list_all (\<lambda>r. \<not> invalid_skip st r \<and> qChildOffset r \<le> hwm_of c st s) recs"
  shows "repl_core c st (snd (repl_one \<lparr>gChild = c, gStream = st, gRecs = recs\<rparr> s)) = repl_core c st s"
  using repl_one_core [OF assms(1) build_duplicates [OF assms(2)]] by simp

lemma drop_split: "i \<le> m \<Longrightarrow> drop i xs = drop i (take m xs) @ drop m xs"
  using drop_append [of i "take m xs" "drop m xs"] by (cases "m \<le> length xs") auto

lemma hwm_after:
  assumes "sNext s st \<noteq> 0" "list_all (\<lambda>r. \<not> invalid_skip st r) recs" "sorted (map qChildOffset recs)" "x \<in> set recs"
  shows "qChildOffset x \<le> hwm_of c st (snd (repl_one \<lparr>gChild = c, gStream = st, gRecs = recs\<rparr> s))"
proof -
  obtain a h n y b where build: "buildReplicated st recs (hwm_of c st s) (sNext s st) (sDisk s) = Inr (a, h, n, y, b)"
    using build_valid [OF assms(2)] by (metis prod_cases5)
  have "hwm_of c st (snd (repl_one \<lparr>gChild = c, gStream = st, gRecs = recs\<rparr> s)) = h"
    using repl_one_core [OF assms(1) build] build_monotone [OF build] by (auto simp: repl_core_def split: if_splits)
  moreover have "qChildOffset x \<le> qChildOffset (last recs)"
    using assms(3,4) by (induction recs) (auto split: if_splits)
  ultimately show ?thesis using build_mark [OF build assms(3)] assms(4) by fastforce
qed

lemma push_window:
  assumes full: "sNext s st \<noteq> 0" "list_all (\<lambda>r. \<not> invalid_skip st r) full" "sorted (map qChildOffset full)"
    and t: "repl_core c st t = repl_core c st (snd (repl_one \<lparr>gChild = c, gStream = st, gRecs = take m full\<rparr> s))"
    and i: "i \<le> m"
  shows "repl_core c st (snd (repl_one \<lparr>gChild = c, gStream = st, gRecs = drop i (take j full)\<rparr> t)) =
    repl_core c st (snd (repl_one \<lparr>gChild = c, gStream = st, gRecs = take (max m j) full\<rparr> s))"
proof -
  let ?push = "\<lambda>recs s. snd (repl_one \<lparr>gChild = c, gStream = st, gRecs = recs\<rparr> s)"
  define old where "old = drop i (take (min m j) full)"
  define new where "new = drop m (take j full)"
  have w: "drop i (take j full) = old @ new"
    using drop_split [OF i, of "take j full"] by (simp add: old_def new_def)
  have whole: "take (max m j) full = take m full @ new"
    using append_take_drop_id [of m "take j full"] by (cases "j \<le> m") (auto simp: new_def max_def min_def)
  have valid: "list_all (\<lambda>r. \<not> invalid_skip st r) (take k full)" "list_all (\<lambda>r. \<not> invalid_skip st r) old"
    "list_all (\<lambda>r. \<not> invalid_skip st r) new" for k
    using full(2) by (auto simp: list_all_iff old_def new_def dest: in_set_takeD in_set_dropD)
  have nextm: "sNext (?push (take m full) s) st \<noteq> 0" using push_known [OF full(1) valid(1)] .
  then have "sNext t st \<noteq> 0" using t by (simp add: repl_core_def)
  then have "repl_core c st (?push (old @ new) t) = repl_core c st (?push (old @ new) (?push (take m full) s))"
    using repl_one_core_cong [OF t] valid by simp
  also have "\<dots> = repl_core c st (?push new (?push old (?push (take m full) s)))"
    using repl_one_split [OF nextm, of old new c] valid by simp
  also have "\<dots> = repl_core c st (?push new (?push (take m full) s))"
  proof (rule repl_one_core_cong)
    have "sorted (map qChildOffset (take m full))" using full(3) by (metis sorted_wrt_take take_map)
    moreover have "x \<in> set (take m full)" if "x \<in> set old" for x
      using that in_set_dropD [of x i "take (min m j) full"] set_take_subset_set_take [of "min m j" m full]
      by (auto simp: old_def)
    ultimately have dup: "list_all (\<lambda>r. \<not> invalid_skip st r \<and> qChildOffset r \<le> hwm_of c st (?push (take m full) s)) old"
      using hwm_after [OF full(1) valid(1)] valid(2) by (auto simp: list_all_iff)
    show "repl_core c st (?push old (?push (take m full) s)) = repl_core c st (?push (take m full) s)"
      using push_duplicates [OF nextm dup] .
    then show "sNext (?push old (?push (take m full) s)) st \<noteq> 0" using nextm by (simp add: repl_core_def)
  qed (rule valid)
  also have "\<dots> = repl_core c st (?push (take m full @ new) s)"
    using repl_one_split [OF full(1), of "take m full" new c] valid by simp
  finally show ?thesis by (simp add: w whole)
qed

text \<open>A run of pushes of one child on one stream. Each push sends the records \<^verbatim>\<open>[i, j)\<close> of the child's
  stream and may fail in the apply; a child resumes at or before what it knows to be stored, never
  beyond it.\<close>

fun pushes :: "string \<Rightarrow> string \<Rightarrow> ReplRecord list \<Rightarrow> (nat \<times> nat \<times> bool) list \<Rightarrow> Store \<Rightarrow> Store" where
  "pushes c st full [] s = s"
| "pushes c st full ((i, j, ok) # ws) s =
     pushes c st full ws (snd (ApplyReplicated ok c st (drop i (take j full)) s))"

fun stored :: "nat \<Rightarrow> (nat \<times> nat \<times> bool) list \<Rightarrow> nat" where
  "stored m [] = m"
| "stored m ((i, j, ok) # ws) = stored (if ok then max m j else m) ws"

fun no_gap :: "nat \<Rightarrow> (nat \<times> nat \<times> bool) list \<Rightarrow> bool" where
  "no_gap m [] = True"
| "no_gap m ((i, j, ok) # ws) \<longleftrightarrow> i \<le> m \<and> no_gap (if ok then max m j else m) ws"

lemma pushes_core:
  assumes "sNext s st \<noteq> 0" "list_all (\<lambda>r. \<not> invalid_skip st r) full" "sorted (map qChildOffset full)"
    and "no_gap m ws"
    and "repl_core c st t = repl_core c st (snd (repl_one \<lparr>gChild = c, gStream = st, gRecs = take m full\<rparr> s))"
  shows "repl_core c st (pushes c st full ws t) =
    repl_core c st (snd (repl_one \<lparr>gChild = c, gStream = st, gRecs = take (stored m ws) full\<rparr> s))"
  using assms(4,5)
proof (induction ws arbitrary: m t)
  case (Cons w ws)
  obtain i j ok where w: "w = (i, j, ok)" by (cases w)
  have i: "i \<le> m" and gap: "no_gap (if ok then max m j else m) ws" using Cons.prems(1) w by auto
  have "repl_core c st (snd (ApplyReplicated ok c st (drop i (take j full)) t)) =
      repl_core c st (snd (repl_one \<lparr>gChild = c, gStream = st, gRecs = take (if ok then max m j else m) full\<rparr> s))"
    using push_window [OF assms(1-3) Cons.prems(2) i, of j] Cons.prems(2) failed_push_core
    by (cases ok) (simp_all add: Apply_core)
  then show ?case using Cons.IH [OF gap] w by simp
qed simp

text \<open>C3: Replication stores each record of a child exactly once, if the child leaves no gap. Take a child's
  records in increasing offset order, with valid skip ranges, and any sequence of pushes of windows of them,
  each committed on its own - of any size, overlapping what is already stored, repeated because the answer was
  lost, failing in the parent's commit - such that every push begins at or before the end of what the parent
  has stored so far. Then the parent ends with the disk, the heads, the byte counters and the high-water mark
  of one push of the longest prefix a push that succeeded reached. A child that went on behind a push that
  failed would leave a gap; the answer a failed group commit can give to a resend, shown at the end of this
  theory, makes a child do that.\<close>

theorem replication_exactly_once:
  assumes "sNext s st \<noteq> 0" "list_all (\<lambda>r. \<not> invalid_skip st r) full" "sorted (map qChildOffset full)" "no_gap 0 ws"
  shows "repl_core c st (pushes c st full ws s) =
    repl_core c st (snd (ApplyReplicated True c st (take (stored 0 ws) full) s))"
proof -
  have "repl_core c st s = repl_core c st (snd (repl_one \<lparr>gChild = c, gStream = st, gRecs = take 0 full\<rparr> s))"
    using push_duplicates [OF assms(1), of c "[]"] by simp
  then show ?thesis using pushes_core [OF assms] by (simp add: Apply_core)
qed

theorem replication_exactly_once_witness:
  "sNext new_store ''entities'' \<noteq> 0 \<and> list_all (\<lambda>r. \<not> invalid_skip ''entities'' r) (map demo_repl [1, 2, 5, 6]) \<and>
   sorted (map qChildOffset (map demo_repl [1, 2, 5, 6])) \<and>
   no_gap 0 [(0, 2, True), (1, 3, False), (0, 2, True), (2, 4, True)] \<and>
   repl_core ''C1'' ''entities''
     (pushes ''C1'' ''entities'' (map demo_repl [1, 2, 5, 6]) [(0, 2, True), (1, 3, False), (0, 2, True), (2, 4, True)] new_store) =
   repl_core ''C1'' ''entities''
     (snd (ApplyReplicated True ''C1'' ''entities'' (map demo_repl [1, 2, 5, 6]) new_store))"
proof -
  have a: "sNext new_store ''entities'' \<noteq> 0" by (simp add: new_store_eq streams_def)
  have b: "list_all (\<lambda>r. \<not> invalid_skip ''entities'' r) (map demo_repl [1, 2, 5, 6])"
    "sorted (map qChildOffset (map demo_repl [1, 2, 5, 6]))"
    by (simp_all add: invalid_skip_def demo_repl_def)
  have d: "no_gap 0 [(0, 2, True), (1, 3, False), (0, 2, True), (2, 4, True)]" by simp
  show ?thesis
    using replication_exactly_once [OF a b d, of "''C1''"] a b d by simp
qed

section \<open>What a failed group commit answers\<close>

lemma build_single:
  assumes "\<not> invalid_skip st r" "qSkipFrom r = 0" "hwm < qChildOffset r"
  shows "buildReplicated st [r] hwm off b =
    Inr ([with_origin r], qChildOffset r, off + 1, snd (addRecord st off (repl_record (with_origin r)) b),
         fst (addRecord st off (repl_record (with_origin r)) b))"
  using assms by (simp add: Let_def case_prod_beta)

text \<open>C30: A failed commit can still acknowledge records. When a push and its resend wait in the same
  group and the commit of the group fails, the first push gets the error and the stored mark, but the
  resend - all of whose records the group already holds - is answered without an error and with the new
  mark, although nothing is stored and the mark on disk has not moved: only the requests that put records
  into the batch are corrected when the apply fails. A child that receives this answer moves its cursor
  past records its parent does not have.\<close>

theorem failed_commit_acknowledges_resend:
  assumes "sNext s st \<noteq> 0" "\<not> invalid_skip st r" "qSkipFrom r = 0" "hwm_of c st s < qChildOffset r"
  shows "let push = \<lparr>gChild = c, gStream = st, gRecs = [r]\<rparr>; (answers, s') = commitReplicated False [push, push] s in
    reErr (answers ! 0) = Some ApplyFailed \<and> reHWM (answers ! 0) = hwm_of c st s \<and>
    reErr (answers ! 1) = None \<and> reHWM (answers ! 1) = qChildOffset r \<and> reApplied (answers ! 1) = [] \<and>
    repl_core c st s' = repl_core c st s"
proof -
  define push where "push = \<lparr>gChild = c, gStream = st, gRecs = [r]\<rparr>"
  define s1 where "s1 = snd (HWMGet c st s)"
  have get: "HWMGet c st s = (hwm_of c st s, s1)" by (simp add: hwm_of_def s1_def)
  have s1: "sNext s1 = sNext s" "fst (HWMGet c st s1) = hwm_of c st s"
    using HWMGet_cases [OF get] repl_core_HWMGet [of c st c st s] by (auto simp: repl_core_def hwm_of_def s1_def)
  define b where "b = fst (addRecord st (sNext s st) (repl_record (with_origin r)) (sDisk s))"
  define y where "y = snd (addRecord st (sNext s st) (repl_record (with_origin r)) (sDisk s))"
  define G where "G = repl_request push (repl_start s)"
  have push: "gChild push = c" "gStream push = st" "gRecs push = [r]" by (simp_all add: push_def)
  have g1: "rgStore G = s1" "rgStreams G = [(st, sNext s st + 1, sBytes s st + y)]" "rgHWMs G = [((c, st), qChildOffset r)]"
    "rgDone G = [(push, True, \<lparr>reApplied = [with_origin r], reHWM = qChildOffset r, reErr = None\<rparr>)]"
    using assms(1) get
    by (simp_all add: G_def repl_request_def repl_start_def push repl_answer_def Let_def y_def build_single [OF assms(2-4)]
        del: buildReplicated.simps)
  have g2: "rgDone (repl_request push G) = rgDone G @ [(push, False, \<lparr>reApplied = [], reHWM = qChildOffset r, reErr = None\<rparr>)]"
    "rgStore (repl_request push G) = s1"
    using assms(2,3) by (simp_all add: repl_request_def g1 push repl_answer_def Let_def)
  have "repl_core c st s1 = repl_core c st s" by (simp add: s1_def)
  moreover have "fold repl_request [push, push] (repl_start s) = repl_request push G" by (simp add: G_def)
  ultimately show ?thesis
    unfolding push_def [symmetric] commitReplicated_def
    by (simp add: Let_def g2 g1 repl_failed_def push s1)
qed

theorem failed_commit_acknowledges_resend_witness:
  "sNext new_store ''entities'' \<noteq> 0 \<and> \<not> invalid_skip ''entities'' (demo_repl 1) \<and> qSkipFrom (demo_repl 1) = 0 \<and>
   hwm_of ''C1'' ''entities'' new_store < qChildOffset (demo_repl 1) \<and>
   reErr (fst (commitReplicated False [demo_push [demo_repl 1], demo_push [demo_repl 1]] new_store) ! 1) = None \<and>
   reHWM (fst (commitReplicated False [demo_push [demo_repl 1], demo_push [demo_repl 1]] new_store) ! 1) = 1"
proof -
  have a: "sNext new_store ''entities'' \<noteq> 0" by (simp add: new_store_eq streams_def)
  have b: "\<not> invalid_skip ''entities'' (demo_repl 1)" "qSkipFrom (demo_repl 1) = 0" by (simp_all add: invalid_skip_def demo_repl_def)
  have d: "hwm_of ''C1'' ''entities'' new_store < qChildOffset (demo_repl 1)"
    by (simp add: hwm_of_def HWMGet_def hwm_on_disk_def new_store_eq empty_disk_def demo_repl_def tget_def)
  show ?thesis
    using failed_commit_acknowledges_resend [OF a b d] a b d unfolding Let_def demo_push_def case_prod_beta
    by (simp add: demo_repl_def)
qed

end
