(* ===== verification/Store_Prune.thy ===== *)
theory Store_Prune
  imports Store_Cursor Store_Repl
begin

text \<open>
  Retention in the store (\<^verbatim>\<open>internal/store/store.go\<close>: the policy scan, \<^verbatim>\<open>Prune\<close> and
  \<^verbatim>\<open>PruneScanned\<close>, the prune journal, gap reports and pending state refreshes). Pruning removes a
  prefix of a stream in one batch; the journal says when the removed records were written, so a consumer
  that was overtaken learns what it missed.
\<close>

section \<open>Scanning a stream\<close>

text \<open>The records of \<^verbatim>\<open>[from, upTo)\<close> in offset order.\<close>

definition scanStream :: "string \<Rightarrow> nat \<Rightarrow> nat \<Rightarrow> Disk \<Rightarrow> (nat \<times> recEnc) list" where
  "scanStream stream from upTo d =
     List.map_filter (\<lambda>off. map_option (Pair off) (dRecs d stream off)) [from..<upTo]"

record pruneStats =
  psPruned :: nat
  psShed :: nat
  psFirstTS :: int
  psLastTS :: int
  psIndex :: "(string \<times> nat) list"
  psTargets :: "(string \<times> nat) list"

definition no_stats :: pruneStats where
  "no_stats = \<lparr>psPruned = 0, psShed = 0, psFirstTS = 0, psLastTS = 0, psIndex = [], psTargets = []\<rparr>"

definition stats_add :: "string \<Rightarrow> nat \<times> recEnc \<Rightarrow> pruneStats \<Rightarrow> pruneStats" where
  "stats_add stream = (\<lambda>(off, e) st.
     st\<lparr>psFirstTS := (if psPruned st = 0 \<or> xTS e < psFirstTS st then xTS e else psFirstTS st),
        psLastTS := (if psPruned st = 0 \<or> xTS e > psLastTS st then xTS e else psLastTS st),
        psShed := psShed st + rec_size stream e, psPruned := psPruned st + 1,
        psTargets := (if recordTarget (xTopic e) \<noteq> '''' then psTargets st @ [(recordTarget (xTopic e), off)] else psTargets st),
        psIndex := (if xSignalID e \<noteq> '''' then psIndex st @ [(xSignalID e, off)] else psIndex st)\<rparr>)"

definition scanDoomed :: "string \<Rightarrow> nat \<Rightarrow> nat \<Rightarrow> Disk \<Rightarrow> pruneStats" where
  "scanDoomed stream from upTo d = fold (stats_add stream) (scanStream stream from upTo d) no_stats"

record PruneScan =
  zStream :: string
  zFrom :: nat
  zUpTo :: nat
  zHoles :: nat
  zStats :: pruneStats

record PruneOutcome =
  poGapRecords :: "Record list"
  poRefresh :: "(nat \<times> nat) option"

section \<open>The prune journal\<close>

definition journalCap :: nat where "journalCap = 64"

definition PruneJournal :: "string \<Rightarrow> Disk \<Rightarrow> PruneSpan list" where
  "PruneJournal stream d = map snd (dJournal d stream)"

definition setJournal :: "string \<Rightarrow> PruneSpan \<Rightarrow> Disk \<Rightarrow> Disk" where
  "setJournal stream span b =
     b\<lparr>dJournal := (dJournal b)(stream := tput (jFrom span) (span\<lparr>jShed := 0\<rparr>) (dJournal b stream))\<rparr>"

definition merge_spans :: "PruneSpan \<Rightarrow> PruneSpan \<Rightarrow> PruneSpan" where
  "merge_spans a b =
     \<lparr>jFrom = jFrom a, jTo = jTo b, jFirstTS = min (jFirstTS a) (jFirstTS b), jLastTS = max (jLastTS a) (jLastTS b),
      jCoalesced = True, jShed = 0\<rparr>"

text \<open>The loop over the oldest entries: the entries left, whether any were merged, and the batch.\<close>

fun merge_oldest :: "string \<Rightarrow> PruneSpan list \<Rightarrow> bool \<Rightarrow> Disk \<Rightarrow> PruneSpan list \<times> bool \<times> Disk" where
  "merge_oldest stream (e0 # e1 # es) merged b =
     (if length (e0 # e1 # es) > journalCap
      then merge_oldest stream (merge_spans e0 e1 # es) True
        (b\<lparr>dJournal := (dJournal b)(stream := tdel (jFrom e1) (dJournal b stream))\<rparr>)
      else (e0 # e1 # es, merged, b))"
| "merge_oldest stream es merged b = (es, merged, b)"

definition writeJournal :: "string \<Rightarrow> PruneSpan \<Rightarrow> Disk \<Rightarrow> Disk \<Rightarrow> Disk" where
  "writeJournal stream span d b =
     (case merge_oldest stream (PruneJournal stream d @ [span]) False b of (entries, merged, b1) \<Rightarrow>
        setJournal stream span (if merged then setJournal stream (hd entries) b1 else b1))"

record GapSpan =
  gsStream :: string
  gsFromOffset :: nat
  gsToOffset :: nat
  gsFirstTS :: int
  gsLastTS :: int
  gsApprox :: bool

definition gap_span :: "PruneSpan \<Rightarrow> GapSpan \<Rightarrow> GapSpan" where
  "gap_span sp g =
     (let g1 = (if gsFromOffset g \<ge> jFrom sp \<and> gsFromOffset g \<le> jTo sp
                then g\<lparr>gsFirstTS := jFirstTS sp, gsApprox := jCoalesced sp\<rparr> else g)
      in if gsToOffset g1 \<ge> jFrom sp \<and> gsToOffset g1 \<le> jTo sp then g1\<lparr>gsLastTS := jLastTS sp\<rparr> else g1)"

definition Gap :: "string \<Rightarrow> nat \<Rightarrow> Store \<Rightarrow> GapSpan option" where
  "Gap stream position s =
     (let lwm = LWM stream s; pos = (if position < 1 then 1 else position) in
      if lwm = 0 \<or> pos \<ge> lwm then None
      else Some (fold gap_span (PruneJournal stream (sDisk s))
        \<lparr>gsStream = stream, gsFromOffset = pos, gsToOffset = lwm - 1, gsFirstTS = 0, gsLastTS = 0, gsApprox = False\<rparr>))"

section \<open>Pruning\<close>

text \<open>The floor of the cursors the caller did not override, at most \<^verbatim>\<open>upTo\<close>.\<close>

definition cursor_floor :: "string \<Rightarrow> string list \<Rightarrow> nat \<Rightarrow> Disk \<Rightarrow> nat" where
  "cursor_floor stream overridden upTo d =
     fold (\<lambda>((name, cstream), pos) u. if cstream \<noteq> stream \<or> name \<in> set overridden then u else if pos < u then pos else u)
       (dCursor d) upTo"

definition refreshPending :: "string \<Rightarrow> Disk \<Rightarrow> (nat \<times> nat) option" where
  "refreshPending stream d = dRefresh d stream"

definition merge_refresh :: "nat \<times> nat \<Rightarrow> (nat \<times> nat) option \<Rightarrow> nat \<times> nat" where
  "merge_refresh r cur = (case cur of None \<Rightarrow> r | Some c \<Rightarrow> (min (fst r) (fst c), max (snd r) (snd c)))"

text \<open>The prefix, its index entries and its low-water mark.\<close>

definition delete_prefix :: "string \<Rightarrow> nat \<Rightarrow> nat \<Rightarrow> pruneStats \<Rightarrow> Disk \<Rightarrow> Disk" where
  "delete_prefix stream lwm upTo stats b =
     b\<lparr>dRecs := (dRecs b)(stream := (\<lambda>off. if lwm \<le> off \<and> off < upTo then None else dRecs b stream off)),
       dSig := dSig b - set (map (\<lambda>(sig, off). (stream, sig, off)) (psIndex stats)),
       dTarget := dTarget b - set (map (\<lambda>(target, off). (stream, target, off)) (psTargets stats)),
       dLWM := (dLWM b)(stream \<mapsto> upTo)\<rparr>"

definition PruneScanned ::
    "bool \<Rightarrow> PruneScan \<Rightarrow> string list \<Rightarrow> (PruneSpan \<Rightarrow> PruneOutcome) option \<Rightarrow> Store \<Rightarrow> (store_error + nat) \<times> Store" where
  "PruneScanned ok scan overridden plan s =
     (let stream = zStream scan; lwm = zFrom scan in
      if zUpTo scan \<le> lwm then (Inr 0, s)
      else if sLWM s stream \<noteq> lwm then (Inl ConcurrentRemoval, s)
      else if zUpTo scan > sNext s stream then (Inl (BeyondNext (sNext s stream)), s)
      else
        let upTo = cursor_floor stream overridden (zUpTo scan) (sDisk s) in
        if upTo \<le> lwm then (Inr 0, s)
        else
          let stats = (if upTo \<noteq> zUpTo scan \<or> sHoles s stream \<noteq> zHoles scan
                       then scanDoomed stream lwm upTo (sDisk s) else zStats scan);
              span = \<lparr>jFrom = lwm, jTo = upTo - 1, jFirstTS = psFirstTS stats, jLastTS = psLastTS stats,
                      jCoalesced = False, jShed = psShed stats\<rparr>;
              out = (case plan of None \<Rightarrow> \<lparr>poGapRecords = [], poRefresh = None\<rparr> | Some p \<Rightarrow> p span);
              b1 = delete_prefix stream lwm upTo stats (sDisk s);
              live = (if psShed stats > sBytes s stream then 0 else sBytes s stream - psShed stats)
          in case writeAppend stream (poGapRecords out) (sNext s stream) b1 of (off, added, b2) \<Rightarrow>
            let b3 = (if off \<noteq> sNext s stream then setHead stream off b2 else b2);
                b4 = (case poRefresh out of None \<Rightarrow> b3
                      | Some r \<Rightarrow> b3\<lparr>dRefresh := (dRefresh b3)(stream \<mapsto> merge_refresh r (refreshPending stream (sDisk s)))\<rparr>);
                b5 = writeJournal stream span (sDisk s) (setBytes stream (live + added) b4)
            in if \<not> ok then (Inl ApplyFailed, s)
               else (Inr (psPruned stats),
                 s\<lparr>sDisk := b5, sNext := (sNext s)(stream := off), sLWM := (sLWM s)(stream := upTo),
                   sBytes := (sBytes s)(stream := live + added)\<rparr>))"

text \<open>\<^verbatim>\<open>Prune\<close> reads the counters, scans without the mutex and commits: \<^verbatim>\<open>s0\<close> is the store it scans,
  \<^verbatim>\<open>s\<close> the one it commits on.\<close>

definition Prune ::
    "bool \<Rightarrow> string \<Rightarrow> nat \<Rightarrow> string list \<Rightarrow> (PruneSpan \<Rightarrow> PruneOutcome) option \<Rightarrow> Store \<Rightarrow> Store \<Rightarrow> (store_error + nat) \<times> Store" where
  "Prune ok stream upTo overridden plan s0 s =
     (let lwm = sLWM s0 stream in
      if sNext s0 stream = 0 then (Inl (UnknownStream stream), s)
      else if upTo \<le> lwm then (Inr 0, s)
      else if upTo > sNext s0 stream then (Inl (BeyondNext (sNext s0 stream)), s)
      else PruneScanned ok
        \<lparr>zStream = stream, zFrom = lwm, zUpTo = upTo, zHoles = sHoles s0 stream,
         zStats = scanDoomed stream lwm upTo (sDisk s0)\<rparr> overridden plan s)"

definition ClearRefreshPending :: "bool \<Rightarrow> string \<Rightarrow> Store \<Rightarrow> store_error option \<times> Store" where
  "ClearRefreshPending ok stream s =
     (if \<not> ok then (Some ApplyFailed, s)
      else (None, s\<lparr>sDisk := (sDisk s)\<lparr>dRefresh := (dRefresh (sDisk s))(stream := None)\<rparr>\<rparr>))"

section \<open>The retention policy\<close>

text \<open>The clock and the age limit are nanoseconds, timestamps milliseconds. Byte counts are unsigned
  64-bit numbers, so the sum of the size test wraps.\<close>

definition wrap64 :: "nat \<Rightarrow> nat" where "wrap64 n = n mod 2 ^ 64"

definition age_wants :: "bool \<Rightarrow> int \<Rightarrow> recEnc \<Rightarrow> bool" where
  "age_wants aged cutoff e \<longleftrightarrow> aged \<and> xTS e > 0 \<and> xTS e < cutoff"

definition size_wants :: "nat \<Rightarrow> nat \<Rightarrow> nat \<Rightarrow> bool" where
  "size_wants maxBytes liveBytes shed \<longleftrightarrow> maxBytes > 0 \<and> liveBytes > wrap64 (shed + maxBytes)"

record policy_result =
  prTarget :: nat
  prClamped :: bool
  prHitCap :: bool
  prStats :: pruneStats

fun policy_walk ::
    "string \<Rightarrow> bool \<Rightarrow> int \<Rightarrow> nat \<Rightarrow> nat \<Rightarrow> nat \<Rightarrow> nat \<Rightarrow> (nat \<times> recEnc) list \<Rightarrow> nat \<Rightarrow> nat \<Rightarrow> policy_result \<Rightarrow> policy_result" where
  "policy_walk stream aged cutoff maxBytes liveBytes clamp maxScan [] shed scanned r = r"
| "policy_walk stream aged cutoff maxBytes liveBytes clamp maxScan ((off, e) # es) shed scanned r =
     (if maxScan > 0 \<and> scanned \<ge> maxScan then r\<lparr>prHitCap := True\<rparr>
      else if \<not> age_wants aged cutoff e \<and> \<not> size_wants maxBytes liveBytes shed then r
      else if off \<ge> clamp then r\<lparr>prClamped := True\<rparr>
      else policy_walk stream aged cutoff maxBytes liveBytes clamp maxScan es
        (shed + rec_size stream e) (scanned + 1)
        (r\<lparr>prTarget := off + 1, prStats := stats_add stream (off, e) (prStats r)\<rparr>))"

definition policyScan ::
    "string \<Rightarrow> nat \<Rightarrow> nat \<Rightarrow> int \<Rightarrow> int \<Rightarrow> nat \<Rightarrow> nat \<Rightarrow> nat \<Rightarrow> nat \<Rightarrow> Disk \<Rightarrow> policy_result" where
  "policyScan stream lwm next now maxAge maxBytes liveBytes clamp maxScan d =
     policy_walk stream (maxAge > 0) (UnixMilli now - maxAge div 1000000) maxBytes liveBytes clamp maxScan
       (scanStream stream lwm next d) 0 0
       \<lparr>prTarget = lwm, prClamped = False, prHitCap = False, prStats = no_stats\<rparr>"

definition PolicyPruneTarget ::
    "string \<Rightarrow> nat \<Rightarrow> nat \<Rightarrow> int \<Rightarrow> int \<Rightarrow> nat \<Rightarrow> nat \<Rightarrow> nat \<Rightarrow> nat \<Rightarrow> Disk \<Rightarrow> nat \<times> bool \<times> bool" where
  "PolicyPruneTarget stream lwm next now maxAge maxBytes liveBytes clamp maxScan d =
     (let r = policyScan stream lwm next now maxAge maxBytes liveBytes clamp maxScan d
      in (prTarget r, prClamped r, prHitCap r))"

definition PolicyPruneScan ::
    "string \<Rightarrow> nat \<Rightarrow> nat \<Rightarrow> int \<Rightarrow> int \<Rightarrow> nat \<Rightarrow> nat \<Rightarrow> nat \<Rightarrow> nat \<Rightarrow> Store \<Rightarrow> PruneScan \<times> bool \<times> bool" where
  "PolicyPruneScan stream lwm next now maxAge maxBytes liveBytes clamp maxScan s =
     (let r = policyScan stream lwm next now maxAge maxBytes liveBytes clamp maxScan (sDisk s)
      in (\<lparr>zStream = stream, zFrom = lwm, zUpTo = prTarget r, zHoles = sHoles s stream, zStats = prStats r\<rparr>,
          prClamped r, prHitCap r))"

section \<open>The journal partitions what was pruned\<close>

fun spans_cover :: "nat \<Rightarrow> nat \<Rightarrow> PruneSpan list \<Rightarrow> bool" where
  "spans_cover a b [] \<longleftrightarrow> a = b"
| "spans_cover a b (sp # sps) \<longleftrightarrow> jFrom sp = a \<and> a \<le> jTo sp \<and> spans_cover (jTo sp + 1) b sps"

definition journal_ok :: "nat \<Rightarrow> (nat, PruneSpan) table \<Rightarrow> bool" where
  "journal_ok lwm t \<longleftrightarrow>
     list_all (\<lambda>e. fst e = jFrom (snd e)) t \<and> spans_cover 1 lwm (map snd t) \<and> length t \<le> journalCap"

lemma spans_cover_append:
  "spans_cover a c (xs @ ys) \<longleftrightarrow> (\<exists>b. spans_cover a b xs \<and> spans_cover b c ys)"
  by (induction xs arbitrary: a) auto

lemma spans_cover_le: "spans_cover a b sps \<Longrightarrow> a \<le> b"
  by (induction sps arbitrary: a) fastforce+

lemma spans_cover_mem: "spans_cover a b sps \<Longrightarrow> sp \<in> set sps \<Longrightarrow> a \<le> jFrom sp \<and> jFrom sp \<le> jTo sp \<and> jTo sp < b"
  by (induction sps arbitrary: a) (fastforce dest: spans_cover_le)+

lemma spans_cover_point:
  "spans_cover a b sps \<Longrightarrow> a \<le> x \<Longrightarrow> x < b \<Longrightarrow> \<exists>!sp. sp \<in> set sps \<and> jFrom sp \<le> x \<and> x \<le> jTo sp"
proof (induction sps arbitrary: a)
  case (Cons sp sps)
  have rest: "spans_cover (jTo sp + 1) b sps" and sp: "jFrom sp = a" "a \<le> jTo sp" using Cons.prems(1) by auto
  show ?case
  proof (cases "x \<le> jTo sp")
    case True
    have "sp' = sp" if "sp' \<in> set (sp # sps)" "jFrom sp' \<le> x" for sp'
      using that True spans_cover_mem [OF rest, of sp'] by auto
    then show ?thesis using True sp Cons.prems(2) by (intro ex1I [of _ sp]) auto
  next
    case False
    then have "\<exists>!sp'. sp' \<in> set sps \<and> jFrom sp' \<le> x \<and> x \<le> jTo sp'"
      using Cons.IH [OF rest] Cons.prems(3) by simp
    then show ?thesis using False by auto
  qed
qed simp

lemma tput_above: "(\<And>e. e \<in> set t \<Longrightarrow> fst e < k) \<Longrightarrow> tput k v t = t @ [(k, v)]"
  by (induction k v t rule: tput.induct) (auto, force+)

lemma same_journal: "\<exists>t. b = b\<lparr>dJournal := (dJournal b)(st := t)\<rparr>"
  by (rule exI [of _ "dJournal b st"]) simp

lemma merge_oldest_batch: "\<exists>t. snd (snd (merge_oldest st es m b)) = b\<lparr>dJournal := (dJournal b)(st := t)\<rparr>"
proof (induction st es m b rule: merge_oldest.induct)
  case (1 st e0 e1 es m b)
  have same: "b = b\<lparr>dJournal := (dJournal b)(st := dJournal b st)\<rparr>" by simp
  show ?case
  proof (cases "length (e0 # e1 # es) > journalCap")
    case True
    then obtain t where "snd (snd (merge_oldest st (merge_spans e0 e1 # es) True
        (b\<lparr>dJournal := (dJournal b)(st := tdel (jFrom e1) (dJournal b st))\<rparr>))) =
      b\<lparr>dJournal := (dJournal b)(st := tdel (jFrom e1) (dJournal b st), st := t)\<rparr>"
      using 1 by fastforce
    then show ?thesis using True by (intro exI [of _ t]) (simp add: fun_upd_upd del: fun_upd_apply)
  next
    case False
    then show ?thesis using same by (simp only: merge_oldest.simps if_False snd_conv) blast
  qed
qed (simp_all only: merge_oldest.simps snd_conv same_journal)

lemma writeJournal_batch: "\<exists>t. writeJournal st span d b = b\<lparr>dJournal := (dJournal b)(st := t)\<rparr>"
proof -
  obtain es m b1 where mo: "merge_oldest st (PruneJournal st d @ [span]) False b = (es, m, b1)" by (cases "merge_oldest st (PruneJournal st d @ [span]) False b")
  then obtain t where "b1 = b\<lparr>dJournal := (dJournal b)(st := t)\<rparr>"
    using merge_oldest_batch [of st "PruneJournal st d @ [span]" False b] by auto
  then show ?thesis by (auto simp: writeJournal_def mo setJournal_def)
qed

lemma merge_oldest_short: "length es \<le> journalCap \<Longrightarrow> merge_oldest st es m b = (es, m, b)"
  by (cases es rule: remdups_adj.cases) simp_all

lemma writeJournal_ok:
  assumes ok: "journal_ok lwm (dJournal d st)" and b: "dJournal b st = dJournal d st"
    and span: "jFrom span = lwm" "lwm \<le> jTo span"
  shows "journal_ok (jTo span + 1) (dJournal (writeJournal st span d b) st)"
proof -
  define t where "t = dJournal d st"
  have cover: "spans_cover 1 lwm (map snd t)" and len: "length t \<le> journalCap" and keys: "\<And>e. e \<in> set t \<Longrightarrow> fst e = jFrom (snd e)"
    using ok by (auto simp: journal_ok_def t_def list_all_iff)
  have below: "fst e < lwm" if "e \<in> set t" for e
    using spans_cover_mem [OF cover, of "snd e"] that keys by fastforce
  have new: "spans_cover lwm (jTo span + 1) [span\<lparr>jShed := 0\<rparr>]" using span by simp
  show ?thesis
  proof (cases "length t = journalCap")
    case False
    then have "\<not> length (map snd t @ [span]) > journalCap" using len by simp
    then have "merge_oldest st (map snd t @ [span]) False b = (map snd t @ [span], False, b)"
      by (intro merge_oldest_short) simp
    then have "dJournal (writeJournal st span d b) st = t @ [(lwm, span\<lparr>jShed := 0\<rparr>)]"
      using tput_above [of t lwm] below span(1) b by (simp add: writeJournal_def PruneJournal_def t_def setJournal_def)
    moreover have "spans_cover 1 (jTo span + 1) (map snd (t @ [(lwm, span\<lparr>jShed := 0\<rparr>)]))"
      unfolding map_append spans_cover_append using cover new by auto
    ultimately show ?thesis
      using ok False span(1) len by (simp add: journal_ok_def t_def list_all_iff)
  next
    case True
    obtain e0 e1 es where t: "t = e0 # e1 # es"
      using True by (cases t rule: remdups_adj.cases) (auto simp: journalCap_def)
    define m where "m = merge_spans (snd e0) (snd e1)"
    have "merge_oldest st (map snd t @ [span]) False b =
        merge_oldest st (m # map snd es @ [span]) True (b\<lparr>dJournal := (dJournal b)(st := tdel (jFrom (snd e1)) t)\<rparr>)"
      using True b by (simp add: t t_def [symmetric] m_def journalCap_def)
    also have "\<dots> = (m # map snd es @ [span], True, b\<lparr>dJournal := (dJournal b)(st := tdel (jFrom (snd e1)) t)\<rparr>)"
      using True by (intro merge_oldest_short) (simp add: t journalCap_def)
    finally have mo: "merge_oldest st (map snd t @ [span]) False b = \<dots>" .
    have c: "jFrom (snd e0) = 1" "1 \<le> jTo (snd e0)" "jFrom (snd e1) = jTo (snd e0) + 1" "jTo (snd e0) + 1 \<le> jTo (snd e1)"
      "spans_cover (jTo (snd e1) + 1) lwm (map snd es)" "fst e0 = 1"
      using cover keys [of e0] by (auto simp: t)
    have es: "fst e \<noteq> fst e1 \<and> 1 < fst e" if "e \<in> set es" for e
      using spans_cover_mem [OF c(5), of "snd e"] that keys [of e] keys [of e1] c by (auto simp: t)
    have "tdel (jFrom (snd e1)) t = e0 # es"
      using es c keys [of e1] by (auto simp: tdel_def t filter_id_conv)
    moreover have "tput 1 m (e0 # es) = (1, m) # es" using c(6) by (cases e0) simp
    moreover have "tput lwm x ((1, m) # es) = (1, m) # es @ [(lwm, x)]" for x
    proof -
      have "fst e < lwm" if "e \<in> set ((1, m) # es)" for e
        using that below [of e] below [of e0] c(6) by (auto simp: t)
      then show ?thesis using tput_above [of "(1, m) # es" lwm x] by (simp del: tput.simps)
    qed
    moreover have "m\<lparr>jShed := 0\<rparr> = m" "jFrom m = 1" using c(1) by (simp_all add: m_def merge_spans_def)
    ultimately have "dJournal (writeJournal st span d b) st = (1, m) # es @ [(lwm, span\<lparr>jShed := 0\<rparr>)]"
      unfolding writeJournal_def PruneJournal_def t_def [symmetric] mo prod.case setJournal_def
      by (simp add: span(1))
    moreover have "spans_cover 1 (jTo span + 1) (m # map snd es @ [span\<lparr>jShed := 0\<rparr>])"
      using c new by (auto simp: m_def merge_spans_def spans_cover_append)
    ultimately show ?thesis
      using True keys span(1) by (auto simp: journal_ok_def list_all_iff t m_def merge_spans_def c(1))
  qed
qed

section \<open>What a prune leaves\<close>

definition prune_span :: "string \<Rightarrow> nat \<Rightarrow> Store \<Rightarrow> PruneSpan" where
  "prune_span st upTo s =
     (let stats = scanDoomed st (sLWM s st) upTo (sDisk s) in
      \<lparr>jFrom = sLWM s st, jTo = upTo - 1, jFirstTS = psFirstTS stats, jLastTS = psLastTS stats, jCoalesced = False,
       jShed = psShed stats\<rparr>)"

definition prune_outcome :: "(PruneSpan \<Rightarrow> PruneOutcome) option \<Rightarrow> string \<Rightarrow> nat \<Rightarrow> Store \<Rightarrow> PruneOutcome" where
  "prune_outcome plan st upTo s =
     (case plan of None \<Rightarrow> \<lparr>poGapRecords = [], poRefresh = None\<rparr> | Some p \<Rightarrow> p (prune_span st upTo s))"

text \<open>The store after the prefix up to \<^verbatim>\<open>upTo\<close> is gone and the plan's records are at the head.\<close>

definition pruned_store :: "(PruneSpan \<Rightarrow> PruneOutcome) option \<Rightarrow> string \<Rightarrow> nat \<Rightarrow> Store \<Rightarrow> Store" where
  "pruned_store plan st upTo s =
     (let out = prune_outcome plan st upTo s;
          stats = scanDoomed st (sLWM s st) upTo (sDisk s);
          gaps = poGapRecords out; off = sNext s st + length gaps;
          live = sBytes s st - psShed stats + records_size st (sNext s st) gaps;
          b2 = add_records st (sNext s st) gaps (delete_prefix st (sLWM s st) upTo stats (sDisk s));
          b3 = (if gaps \<noteq> [] then setHead st off b2 else b2);
          b4 = (case poRefresh out of None \<Rightarrow> b3
                | Some r \<Rightarrow> b3\<lparr>dRefresh := (dRefresh b3)(st \<mapsto> merge_refresh r (refreshPending st (sDisk s)))\<rparr>)
      in s\<lparr>sDisk := writeJournal st (prune_span st upTo s) (sDisk s) (setBytes st live b4),
           sNext := (sNext s)(st := off), sLWM := (sLWM s)(st := upTo), sBytes := (sBytes s)(st := live)\<rparr>)"

text \<open>A scan is good for a store when no records were removed inside the stream since, or else its
  statistics still describe the prefix.\<close>

definition scan_ok :: "PruneScan \<Rightarrow> Store \<Rightarrow> bool" where
  "scan_ok scan s \<longleftrightarrow>
     (sLWM s (zStream scan) = zFrom scan \<and> sHoles s (zStream scan) = zHoles scan \<longrightarrow>
        zStats scan = scanDoomed (zStream scan) (zFrom scan) (zUpTo scan) (sDisk s))"

lemma PruneScanned_eq:
  assumes "scan_ok scan s"
  shows "PruneScanned ok scan ov plan s =
    (let st = zStream scan; lwm = zFrom scan; upTo = cursor_floor st ov (zUpTo scan) (sDisk s) in
     if zUpTo scan \<le> lwm then (Inr 0, s)
     else if sLWM s st \<noteq> lwm then (Inl ConcurrentRemoval, s)
     else if zUpTo scan > sNext s st then (Inl (BeyondNext (sNext s st)), s)
     else if upTo \<le> lwm then (Inr 0, s)
     else if \<not> ok then (Inl ApplyFailed, s)
     else (Inr (psPruned (scanDoomed st lwm upTo (sDisk s))), pruned_store plan st upTo s))"
proof -
  define st where "st = zStream scan"
  define upTo where "upTo = cursor_floor st ov (zUpTo scan) (sDisk s)"
  have stats: "(if upTo \<noteq> zUpTo scan \<or> sHoles s st \<noteq> zHoles scan then scanDoomed st (zFrom scan) upTo (sDisk s) else zStats scan) =
      scanDoomed st (zFrom scan) upTo (sDisk s)" if "sLWM s st = zFrom scan"
    using assms that by (auto simp: scan_ok_def st_def)
  have sub: "(if a > b then 0 else b - a) = b - a" for a b :: nat by simp
  have head: "(if n + length xs \<noteq> n then x else y) = (if xs \<noteq> [] then x else y)" for n xs and x y :: Disk by simp
  show ?thesis
    unfolding PruneScanned_def Let_def st_def [symmetric] upTo_def [symmetric]
  proof (intro if_cong refl, goal_cases)
    case 1
    then have lwm: "sLWM s st = zFrom scan" by simp
    show ?case
      unfolding stats [OF lwm] pruned_store_def prune_outcome_def prune_span_def Let_def lwm writeAppend_eq
        prod.case sub head ..
  qed
qed

lemma cursor_floor_min:
  "cursor_floor st ov u d = fold min (map snd (filter (\<lambda>c. snd (fst c) = st \<and> fst (fst c) \<notin> set ov) (dCursor d))) u"
proof -
  have "fold (\<lambda>((name, cstream), pos) u. if cstream \<noteq> st \<or> name \<in> set ov then u else if pos < u then pos else u) cs u =
      fold min (map snd (filter (\<lambda>c. snd (fst c) = st \<and> fst (fst c) \<notin> set ov) cs)) u" for cs
  proof (induction cs arbitrary: u)
    case (Cons c cs)
    obtain name cstream pos where c: "c = ((name, cstream), pos)" by (metis prod.collapse)
    have "(if pos < u then pos else u) = min pos u" by auto
    then show ?case using Cons.IH by (simp add: c)
  qed simp
  then show ?thesis by (simp add: cursor_floor_def)
qed

lemma fold_min_le:
  fixes u :: nat
  shows "fold min xs u \<le> u" "x \<in> set xs \<Longrightarrow> fold min xs u \<le> x"
proof (induction xs arbitrary: u)
  case (Cons y ys)
  { case 1 show ?case using Cons.IH(1) [of "min y u"] by simp }
  { case 2 show ?case using Cons.IH(1) [of "min y u"] Cons.IH(2) [of "min y u"] 2 by fastforce }
qed simp_all

lemma cursor_floor_le: "cursor_floor st ov u d \<le> u"
  unfolding cursor_floor_min by (rule fold_min_le(1))

lemma cursor_floor_cursor:
  assumes "((name, st), pos) \<in> set (dCursor d)" "name \<notin> set ov"
  shows "cursor_floor st ov u d \<le> pos"
  unfolding cursor_floor_min by (rule fold_min_le(2)) (use assms in force)

section \<open>The policy takes what it must and no more\<close>

definition shed_of :: "string \<Rightarrow> (nat \<times> recEnc) list \<Rightarrow> nat" where
  "shed_of st es = sum_list (map (\<lambda>e. rec_size st (snd e)) es)"

definition wanted :: "bool \<Rightarrow> int \<Rightarrow> nat \<Rightarrow> nat \<Rightarrow> nat \<Rightarrow> nat \<times> recEnc \<Rightarrow> bool" where
  "wanted aged cutoff maxBytes live shed e \<longleftrightarrow> age_wants aged cutoff (snd e) \<or> size_wants maxBytes live shed"

text \<open>The records a walk takes, those it leaves, and why it stopped.\<close>

lemma policy_walk_split:
  "\<exists>taken rest. es = taken @ rest \<and>
     (\<forall>xs e ys. taken = xs @ e # ys \<longrightarrow> wanted aged cutoff maxBytes live (shed + shed_of st xs) e \<and> fst e < clamp) \<and>
     prTarget (policy_walk st aged cutoff maxBytes live clamp maxScan es shed scanned r) =
       (if taken = [] then prTarget r else fst (last taken) + 1) \<and>
     prStats (policy_walk st aged cutoff maxBytes live clamp maxScan es shed scanned r) =
       fold (stats_add st) taken (prStats r) \<and>
     (rest = [] \<or> prHitCap (policy_walk st aged cutoff maxBytes live clamp maxScan es shed scanned r) \<or>
      \<not> wanted aged cutoff maxBytes live (shed + shed_of st taken) (hd rest) \<or>
      clamp \<le> fst (hd rest) \<and> prClamped (policy_walk st aged cutoff maxBytes live clamp maxScan es shed scanned r))"
    (is "\<exists>taken rest. ?P es shed scanned r taken rest")
proof (induction es arbitrary: shed scanned r)
  case Nil
  show ?case by (rule exI [of _ "[]"], rule exI [of _ "[]"]) simp
next
  case (Cons x es)
  obtain off e where x: "x = (off, e)" by (cases x)
  let ?go = "\<not> (maxScan > 0 \<and> scanned \<ge> maxScan) \<and> wanted aged cutoff maxBytes live shed x \<and> off < clamp"
  show ?case
  proof (cases ?go)
    case False
    then show ?thesis
      by (intro exI [of _ "[]"] exI [of _ "x # es"]) (auto simp: x wanted_def shed_of_def)
  next
    case True
    let ?r = "r\<lparr>prTarget := off + 1, prStats := stats_add st (off, e) (prStats r)\<rparr>"
    obtain taken rest where IH: "?P es (shed + rec_size st e) (scanned + 1) ?r taken rest"
      using Cons.IH [of "shed + rec_size st e" "scanned + 1" ?r] by blast
    have walk: "policy_walk st aged cutoff maxBytes live clamp maxScan (x # es) shed scanned r =
        policy_walk st aged cutoff maxBytes live clamp maxScan es (shed + rec_size st e) (scanned + 1) ?r"
      using True by (auto simp: x wanted_def)
    have shed: "shed_of st (x # ys) = rec_size st e + shed_of st ys" for ys by (simp add: shed_of_def x)
    have pre: "wanted aged cutoff maxBytes live (shed + shed_of st xs) z \<and> fst z < clamp"
      if "x # taken = xs @ z # ys" for xs z ys
    proof (cases xs)
      case Nil
      then show ?thesis using that True by (auto simp: shed_of_def x)
    next
      case (Cons w ws)
      then have w: "x = w" "taken = ws @ z # ys" using that by simp_all
      then have "wanted aged cutoff maxBytes live (shed + rec_size st e + shed_of st ws) z \<and> fst z < clamp"
        using IH by blast
      then show ?thesis using Cons w shed [of ws] by (simp add: add.assoc)
    qed
    show ?thesis
      unfolding walk
      using IH pre shed [of taken]
      by (intro exI [of _ "x # taken"] exI [of _ rest]) (auto simp: x add.assoc)
  qed
qed

lemma scanStream_sorted: "sorted_wrt (<) (map fst (scanStream st a b d))"
proof -
  have "map fst (List.map_filter (\<lambda>off. map_option (Pair off) (m off)) xs) = filter (\<lambda>off. m off \<noteq> None) xs"
    for m :: "nat \<rightharpoonup> recEnc" and xs
    by (induction xs) (auto simp: List.map_filter_simps split: option.split)
  then show ?thesis by (simp add: scanStream_def sorted_wrt_filter)
qed

lemma scanStream_mem: "(off, e) \<in> set (scanStream st a b d) \<longleftrightarrow> a \<le> off \<and> off < b \<and> dRecs d st off = Some e"
  by (force simp: scanStream_def List.map_filter_def image_iff)

lemma scanStream_append:
  assumes "a \<le> m" "m \<le> b"
  shows "scanStream st a b d = scanStream st a m d @ scanStream st m b d"
proof -
  obtain k where "b = m + k" using assms(2) le_Suc_ex by blast
  then show ?thesis
    using upt_add_eq_append [OF assms(1), of k] by (simp add: scanStream_def List.map_filter_def)
qed

lemma scanStream_prefix:
  assumes "scanStream st a b d = xs @ ys" "xs \<noteq> []"
  shows "scanStream st a (fst (last xs) + 1) d = xs"
proof -
  let ?m = "fst (last xs) + 1"
  have last: "last xs \<in> set (scanStream st a b d)" using assms by simp
  have "?m \<le> b" "a \<le> ?m" using last scanStream_mem [of "fst (last xs)" "snd (last xs)"] by simp_all
  then have "scanStream st a b d = scanStream st a ?m d @ scanStream st ?m b d"
    by (intro scanStream_append)
  moreover have "\<forall>x \<in> set xs. fst x < ?m"
  proof
    fix x assume "x \<in> set xs"
    then obtain us vs where "xs = us @ x # vs" by (meson split_list)
    then show "fst x < ?m"
      using scanStream_sorted [of st a b d] assms(1) by (cases vs rule: rev_cases) (auto simp: sorted_wrt_append)
  qed
  moreover have "\<forall>y \<in> set ys. ?m \<le> fst y"
  proof
    fix y assume "y \<in> set ys"
    moreover obtain us where "xs = us @ [last xs]" using assms(2) by (metis append_butlast_last_id)
    ultimately show "?m \<le> fst y"
      using scanStream_sorted [of st a b d] unfolding assms(1) map_append sorted_wrt_append
      by (metis Suc_eq_plus1 Suc_leI image_eqI last_in_set assms(2) list.set_map)
  qed
  moreover have part: "filter P (us @ vs) = us" if "\<forall>x \<in> set us. P x" "\<forall>y \<in> set vs. \<not> P y"
    for P :: "nat \<times> recEnc \<Rightarrow> bool" and us vs
    using that by (induction us) (auto simp: filter_empty_conv)
  moreover have "\<forall>x \<in> set (scanStream st a ?m d). fst x < ?m" "\<forall>y \<in> set (scanStream st ?m b d). \<not> fst y < ?m"
    by (auto simp: scanStream_mem split_paired_all)
  ultimately have "xs = filter (\<lambda>x. fst x < ?m) (scanStream st a b d)"
    "scanStream st a ?m d = filter (\<lambda>x. fst x < ?m) (scanStream st a b d)"
    using part [of xs "\<lambda>x. fst x < ?m" ys] part [of "scanStream st a ?m d" "\<lambda>x. fst x < ?m" "scanStream st ?m b d"] assms(1)
    by (simp_all add: linorder_not_less del: filter_append)
  then show ?thesis by simp
qed

lemma policyScan_split:
  assumes "r = policyScan st lwm next' now maxAge maxBytes live clamp maxScan d"
  obtains taken rest where "scanStream st lwm next' d = taken @ rest"
    and "\<forall>xs e ys. taken = xs @ e # ys \<longrightarrow>
      wanted (maxAge > 0) (UnixMilli now - maxAge div 1000000) maxBytes live (shed_of st xs) e \<and> fst e < clamp"
    and "prTarget r = (if taken = [] then lwm else fst (last taken) + 1)" "prStats r = fold (stats_add st) taken no_stats"
    and "rest = [] \<or> prHitCap r \<or>
      \<not> wanted (maxAge > 0) (UnixMilli now - maxAge div 1000000) maxBytes live (shed_of st taken) (hd rest) \<or>
      clamp \<le> fst (hd rest) \<and> prClamped r"
    and "scanStream st lwm (prTarget r) d = taken"
proof -
  obtain taken rest where s: "scanStream st lwm next' d = taken @ rest"
    "\<forall>xs e ys. taken = xs @ e # ys \<longrightarrow>
      wanted (maxAge > 0) (UnixMilli now - maxAge div 1000000) maxBytes live (shed_of st xs) e \<and> fst e < clamp"
    "prTarget r = (if taken = [] then lwm else fst (last taken) + 1)" "prStats r = fold (stats_add st) taken no_stats"
    "rest = [] \<or> prHitCap r \<or>
      \<not> wanted (maxAge > 0) (UnixMilli now - maxAge div 1000000) maxBytes live (shed_of st taken) (hd rest) \<or>
      clamp \<le> fst (hd rest) \<and> prClamped r"
    using policy_walk_split [of "scanStream st lwm next' d" "maxAge > 0" "UnixMilli now - maxAge div 1000000" maxBytes live 0 st
        clamp maxScan 0 "\<lparr>prTarget = lwm, prClamped = False, prHitCap = False, prStats = no_stats\<rparr>"]
    unfolding policyScan_def [symmetric] assms [symmetric] policy_result.select_convs add_0
    by (elim exE conjE) (rule that; assumption)
  have t: "scanStream st lwm (prTarget r) d = taken"
  proof (cases "taken = []")
    case True
    then show ?thesis unfolding s(3) by (simp add: scanStream_def List.map_filter_def)
  next
    case False
    then show ?thesis unfolding s(3) using scanStream_prefix [OF s(1) False] by simp
  qed
  show thesis by (rule that [OF s t])
qed

lemma stats_shed: "psShed (fold (stats_add st) es s) = psShed s + shed_of st es"
proof (induction es arbitrary: s)
  case (Cons e es)
  have "psShed (stats_add st e s) = psShed s + rec_size st (snd e)" by (cases e) (simp add: stats_add_def)
  then show ?case using Cons.IH [of "stats_add st e s"] by (simp add: shed_of_def)
qed (simp add: shed_of_def)

lemma policy_target_range:
  assumes "r = policyScan st lwm next' now maxAge maxBytes live clamp maxScan d"
  shows "lwm \<le> prTarget r" "prTarget r \<le> max lwm next'" "prTarget r \<le> max lwm clamp"
proof -
  obtain taken rest where s: "scanStream st lwm next' d = taken @ rest"
    "\<forall>xs e ys. taken = xs @ e # ys \<longrightarrow>
      wanted (maxAge > 0) (UnixMilli now - maxAge div 1000000) maxBytes live (shed_of st xs) e \<and> fst e < clamp"
    "prTarget r = (if taken = [] then lwm else fst (last taken) + 1)"
    by (rule policyScan_split [OF assms]) (rule that; assumption)
  have "lwm \<le> fst (last taken) \<and> fst (last taken) < next' \<and> fst (last taken) < clamp" if "taken \<noteq> []"
  proof -
    have "last taken \<in> set (scanStream st lwm next' d)" using that s(1) by simp
    then have "lwm \<le> fst (last taken)" "fst (last taken) < next'"
      using scanStream_mem [of "fst (last taken)" "snd (last taken)"] by simp_all
    moreover have "fst (last taken) < clamp"
      using s(2) [rule_format, of "butlast taken" "last taken" "[]"] that by simp
    ultimately show ?thesis by simp
  qed
  then show "lwm \<le> prTarget r" "prTarget r \<le> max lwm next'" "prTarget r \<le> max lwm clamp" using s(3) by auto
qed

lemma policy_stats:
  assumes "r = policyScan st lwm next' now maxAge maxBytes live clamp maxScan d"
  shows "prStats r = scanDoomed st lwm (prTarget r) d"
proof (rule policyScan_split [OF assms])
  fix taken
  assume "prStats r = fold (stats_add st) taken no_stats" "scanStream st lwm (prTarget r) d = taken"
  then show "prStats r = scanDoomed st lwm (prTarget r) d" by (simp add: scanDoomed_def)
qed

text \<open>C28: The scan a retention policy makes is the scan a prune needs. What the policy walk accounts for -
  how many records, how many bytes, their time span, their index entries - is exactly what a scan of the
  prefix up to its target finds, so \<^verbatim>\<open>PruneScanned\<close> may commit it without reading the prefix again; and
  the target never passes the head or the floor of the cursors.\<close>

theorem policy_scan_exact:
  "let r = policyScan st lwm next' now maxAge maxBytes live clamp maxScan d in
   prStats r = scanDoomed st lwm (prTarget r) d \<and> lwm \<le> prTarget r \<and>
   prTarget r \<le> max lwm next' \<and> prTarget r \<le> max lwm clamp"
  unfolding Let_def
  by (intro conjI policy_stats [OF refl] policy_target_range [OF refl])

text \<open>C29: A size budget removes the oldest records until the stream is within it, and not one record more.
  With a byte budget and no age limit, a scan that was not stopped by the scan cap or by a cursor leaves
  either nothing or at most the budget; and the budget was still exceeded just before the last record it
  takes. The sum of the removed bytes and the budget stays below 2 to the 64.\<close>

theorem size_policy_tight:
  assumes "r = policyScan st lwm next' now maxAge maxBytes live clamp maxScan d"
    and "maxAge \<le> 0" "maxBytes > 0" "shed_of st (scanStream st lwm next' d) + maxBytes < 2 ^ 64"
  shows "(\<not> prHitCap r \<and> \<not> prClamped r \<longrightarrow> live \<le> psShed (prStats r) + maxBytes \<or> scanStream st (prTarget r) next' d = []) \<and>
    (prTarget r \<noteq> lwm \<longrightarrow> (\<exists>e. e \<in> set (scanStream st lwm (prTarget r) d) \<and> fst e + 1 = prTarget r \<and>
       live > psShed (prStats r) - rec_size st (snd e) + maxBytes))"
proof -
  obtain taken rest where s: "scanStream st lwm next' d = taken @ rest"
    "\<forall>xs e ys. taken = xs @ e # ys \<longrightarrow>
      wanted (maxAge > 0) (UnixMilli now - maxAge div 1000000) maxBytes live (shed_of st xs) e \<and> fst e < clamp"
    "prTarget r = (if taken = [] then lwm else fst (last taken) + 1)" "prStats r = fold (stats_add st) taken no_stats"
    "rest = [] \<or> prHitCap r \<or>
      \<not> wanted (maxAge > 0) (UnixMilli now - maxAge div 1000000) maxBytes live (shed_of st taken) (hd rest) \<or>
      clamp \<le> fst (hd rest) \<and> prClamped r"
    "scanStream st lwm (prTarget r) d = taken"
    by (rule policyScan_split [OF assms(1)]) (rule that; assumption)
  have shed: "psShed (prStats r) = shed_of st taken" by (simp add: s(4) stats_shed no_stats_def)
  have total: "shed_of st (xs @ ys) = shed_of st xs + shed_of st ys" for xs ys by (simp add: shed_of_def)
  have small: "shed_of st taken + maxBytes < 2 ^ 64" using assms(4) by (simp add: s(1) total)
  have wants: "wanted (maxAge > 0) cutoff maxBytes live x e \<longleftrightarrow> live > x + maxBytes"
    if "x \<le> shed_of st taken" for cutoff x e
    using assms(2,3) small that by (simp add: wanted_def age_wants_def size_wants_def wrap64_def)
  have rest: "scanStream st (prTarget r) next' d = []" if "rest = []"
  proof (cases "lwm \<le> prTarget r \<and> prTarget r \<le> next'")
    case True
    then show ?thesis using s(1,6) scanStream_append [of lwm "prTarget r" next' st d] that by simp
  next
    case False
    then have "next' < prTarget r" using policy_target_range [OF assms(1)] by simp
    then show ?thesis by (simp add: scanStream_def List.map_filter_def)
  qed
  have last: "\<exists>e. e \<in> set taken \<and> fst e + 1 = prTarget r \<and> live > shed_of st taken - rec_size st (snd e) + maxBytes"
    if "prTarget r \<noteq> lwm"
  proof (intro exI [of _ "last taken"] conjI)
    have ne: "taken \<noteq> []" using that s(3) by auto
    have split: "shed_of st taken = shed_of st (butlast taken) + rec_size st (snd (last taken))"
      using total [of "butlast taken" "[last taken]"] ne by (simp add: shed_of_def)
    show "last taken \<in> set taken" "fst (last taken) + 1 = prTarget r" using ne s(3) by simp_all
    show "live > shed_of st taken - rec_size st (snd (last taken)) + maxBytes"
      using s(2) [rule_format, of "butlast taken" "last taken" "[]"] ne wants [of "shed_of st (butlast taken)"] split by simp
  qed
  show ?thesis using s(5) wants [of "shed_of st taken"] rest last unfolding shed s(6) by auto
qed

section \<open>Consumers and pruning\<close>

lemma pruned_recs:
  "dRecs (sDisk (pruned_store plan st upTo s)) st' off =
    (if st' = st \<and> sNext s st \<le> off \<and> off < sNext (pruned_store plan st upTo s) st
     then Some (encode_record off (poGapRecords (prune_outcome plan st upTo s) ! (off - sNext s st)))
     else if st' = st \<and> sLWM s st \<le> off \<and> off < upTo then None else dRecs (sDisk s) st' off)"
proof -
  define out where "out = prune_outcome plan st upTo s"
  obtain t where "writeJournal st (prune_span st upTo s) (sDisk s) b = b\<lparr>dJournal := (dJournal b)(st := t b)\<rparr>" for b
    using writeJournal_batch [of st "prune_span st upTo s" "sDisk s"] by metis
  then show ?thesis
    unfolding pruned_store_def Let_def out_def [symmetric]
    by (cases "poRefresh out")
      (auto simp: setBytes_def setHead_def delete_prefix_def add_records_dRecs)
qed

lemma pruned_marks:
  "sLWM (pruned_store plan st upTo s) = (sLWM s)(st := upTo)"
  "sNext (pruned_store plan st upTo s) = (sNext s)(st := sNext s st + length (poGapRecords (prune_outcome plan st upTo s)))"
  by (simp_all add: pruned_store_def Let_def)

lemma PruneScanned_cases:
  assumes "scan_ok scan s" "PruneScanned ok scan ov plan s = (res, s')"
  obtains (unchanged) "s' = s"
  | (pruned) upTo where "upTo = cursor_floor (zStream scan) ov (zUpTo scan) (sDisk s)" "sLWM s (zStream scan) < upTo"
      "upTo \<le> sNext s (zStream scan)" "ok" "s' = pruned_store plan (zStream scan) upTo s"
      "res = Inr (psPruned (scanDoomed (zStream scan) (sLWM s (zStream scan)) upTo (sDisk s)))"
proof -
  have "s' = s \<or> (\<exists>upTo. upTo = cursor_floor (zStream scan) ov (zUpTo scan) (sDisk s) \<and> sLWM s (zStream scan) < upTo \<and>
      upTo \<le> sNext s (zStream scan) \<and> ok \<and> s' = pruned_store plan (zStream scan) upTo s \<and>
      res = Inr (psPruned (scanDoomed (zStream scan) (sLWM s (zStream scan)) upTo (sDisk s))))"
    using assms(2) cursor_floor_le [of "zStream scan" ov "zUpTo scan" "sDisk s"]
    unfolding PruneScanned_eq [OF assms(1)] Let_def by (auto split: if_splits)
  then show thesis using that by blast
qed

lemma prune_keeps:
  assumes "scan_ok scan s" "PruneScanned ok scan ov plan s = (res, s')" "st = zStream scan"
    and "((name, st), pos) \<in> set (dCursor (sDisk s))" "name \<notin> set ov"
  shows "sLWM s' st \<le> max (sLWM s st) pos"
    and "pos \<le> off \<Longrightarrow> off < sNext s st \<Longrightarrow> dRecs (sDisk s') st off = dRecs (sDisk s) st off"
    and "st' \<noteq> st \<Longrightarrow> dRecs (sDisk s') st' = dRecs (sDisk s) st' \<and> sLWM s' st' = sLWM s st' \<and> sNext s' st' = sNext s st'"
proof -
  have floor: "cursor_floor st ov (zUpTo scan) (sDisk s) \<le> pos" by (rule cursor_floor_cursor [OF assms(4,5)])
  show "sLWM s' st \<le> max (sLWM s st) pos"
    by (rule PruneScanned_cases [OF assms(1,2)]) (use floor in \<open>auto simp: pruned_marks assms(3)\<close>)
  show "dRecs (sDisk s') st off = dRecs (sDisk s) st off" if "pos \<le> off" "off < sNext s st"
    by (rule PruneScanned_cases [OF assms(1,2)]) (use floor that in \<open>auto simp: pruned_recs assms(3)\<close>)
  show "dRecs (sDisk s') st' = dRecs (sDisk s) st' \<and> sLWM s' st' = sLWM s st' \<and> sNext s' st' = sNext s st'" if "st' \<noteq> st"
    by (rule PruneScanned_cases [OF assms(1,2)]) (use that in \<open>auto simp: pruned_recs pruned_marks assms(3) fun_eq_iff\<close>)
qed

text \<open>C7: A prune never takes a record a consumer still has to read. Whatever its plan adds at the head, a
  cursor it was not told to override keeps every record from its position on; the low-water mark does not
  pass the cursor; and no other stream loses or gains a record. The scan it commits describes the store, or
  is recognisably out of date.\<close>

theorem prune_respects_cursors:
  assumes "scan_ok scan s" "PruneScanned ok scan ov plan s = (res, s')" "st = zStream scan"
    and "((name, st), pos) \<in> set (dCursor (sDisk s))" "name \<notin> set ov"
  shows "sLWM s' st \<le> max (sLWM s st) pos \<and>
    (\<forall>off. pos \<le> off \<and> off < sNext s st \<longrightarrow> dRecs (sDisk s') st off = dRecs (sDisk s) st off) \<and>
    (\<forall>st'. st' \<noteq> st \<longrightarrow> dRecs (sDisk s') st' = dRecs (sDisk s) st' \<and> sLWM s' st' = sLWM s st' \<and> sNext s' st' = sNext s st')"
  using prune_keeps [OF assms] by blast

text \<open>A stream with five records, one consumer at offset 3 and a scan of four of them.\<close>

definition demo_pruning :: Store where
  "demo_pruning = new_store\<lparr>sNext := (sNext new_store)(''metrics'' := 6),
     sDisk := (sDisk new_store)\<lparr>dCursor := [((''historian'', ''metrics''), 3)],
       dRecs := (\<lambda>st off. if st = ''metrics'' \<and> 1 \<le> off \<and> off < 6 then Some (encode_record off demo_metric) else None)\<rparr>\<rparr>"

definition demo_scan :: PruneScan where
  "demo_scan = \<lparr>zStream = ''metrics'', zFrom = 1, zUpTo = 5, zHoles = 0,
     zStats = scanDoomed ''metrics'' 1 5 (sDisk demo_pruning)\<rparr>"

theorem prune_respects_cursors_witness:
  "scan_ok demo_scan demo_pruning \<and> ((''historian'', ''metrics''), 3) \<in> set (dCursor (sDisk demo_pruning)) \<and>
   sLWM (snd (PruneScanned True demo_scan [] None demo_pruning)) ''metrics'' = 3 \<and>
   dRecs (sDisk (snd (PruneScanned True demo_scan [] None demo_pruning))) ''metrics'' 3 = Some (encode_record 3 demo_metric)"
proof -
  have a: "scan_ok demo_scan demo_pruning" by (simp add: scan_ok_def demo_scan_def)
  have c: "((''historian'', ''metrics''), 3) \<in> set (dCursor (sDisk demo_pruning))" by (simp add: demo_pruning_def)
  have m: "sLWM demo_pruning ''metrics'' = 1" "sNext demo_pruning ''metrics'' = 6"
    by (simp_all add: demo_pruning_def new_store_eq streams_def)
  obtain res s' where p: "PruneScanned True demo_scan [] None demo_pruning = (res, s')" by fastforce
  have st: "''metrics'' = zStream demo_scan" by (simp add: demo_scan_def)
  have "cursor_floor ''metrics'' [] 5 (sDisk demo_pruning) = 3" by (simp add: cursor_floor_def demo_pruning_def)
  then have "s' = pruned_store None ''metrics'' 3 demo_pruning"
    using p m unfolding PruneScanned_eq [OF a] by (simp add: demo_scan_def Let_def)
  then have "sLWM s' ''metrics'' = 3" by (simp add: pruned_marks)
  moreover have "dRecs (sDisk s') ''metrics'' 3 = dRecs (sDisk demo_pruning) ''metrics'' 3"
    using prune_respects_cursors [OF a p st c] m by simp
  ultimately show ?thesis using a c p by (simp add: demo_pruning_def)
qed

section \<open>Gap reports\<close>

text \<open>The one span of a journal that holds an offset.\<close>

definition span_at :: "nat \<Rightarrow> PruneSpan list \<Rightarrow> PruneSpan option" where
  "span_at x sps = find (\<lambda>sp. jFrom sp \<le> x \<and> x \<le> jTo sp) sps"

lemma span_at_cover:
  assumes "spans_cover a b sps" "a \<le> x" "x < b"
  obtains sp where "span_at x sps = Some sp" "sp \<in> set sps" "jFrom sp \<le> x" "x \<le> jTo sp"
proof -
  have "\<exists>sp. sp \<in> set sps \<and> jFrom sp \<le> x \<and> x \<le> jTo sp" using spans_cover_point [OF assms] by blast
  then have "span_at x sps \<noteq> None" by (auto simp: span_at_def find_None_iff)
  then obtain sp where sp: "span_at x sps = Some sp" by blast
  then show thesis using that [OF sp] by (auto simp: span_at_def find_Some_iff)
qed

lemma gap_span_fold:
  assumes "spans_cover a b sps"
  shows "fold gap_span sps g =
    g\<lparr>gsFirstTS := (case span_at (gsFromOffset g) sps of None \<Rightarrow> gsFirstTS g | Some sp \<Rightarrow> jFirstTS sp),
      gsApprox := (case span_at (gsFromOffset g) sps of None \<Rightarrow> gsApprox g | Some sp \<Rightarrow> jCoalesced sp),
      gsLastTS := (case span_at (gsToOffset g) sps of None \<Rightarrow> gsLastTS g | Some sp \<Rightarrow> jLastTS sp)\<rparr>"
  using assms
proof (induction sps arbitrary: a g)
  case Nil
  show ?case by (simp add: span_at_def)
next
  case (Cons sp sps)
  have rest: "spans_cover (jTo sp + 1) b sps" and sp: "jFrom sp = a" using Cons.prems by auto
  have out: "span_at x sps = None" if "x \<le> jTo sp" for x
    using spans_cover_mem [OF rest] that by (force simp: span_at_def find_None_iff)
  have at: "span_at x (sp # sps) = (if jFrom sp \<le> x \<and> x \<le> jTo sp then Some sp else span_at x sps)" for x
    by (simp add: span_at_def)
  have g: "gsFromOffset (gap_span sp g) = gsFromOffset g" "gsToOffset (gap_span sp g) = gsToOffset g"
    "gsStream (gap_span sp g) = gsStream g"
    "gsFirstTS (gap_span sp g) = (if jFrom sp \<le> gsFromOffset g \<and> gsFromOffset g \<le> jTo sp then jFirstTS sp else gsFirstTS g)"
    "gsApprox (gap_span sp g) = (if jFrom sp \<le> gsFromOffset g \<and> gsFromOffset g \<le> jTo sp then jCoalesced sp else gsApprox g)"
    "gsLastTS (gap_span sp g) = (if jFrom sp \<le> gsToOffset g \<and> gsToOffset g \<le> jTo sp then jLastTS sp else gsLastTS g)"
    by (auto simp: gap_span_def Let_def)
  show ?case
    unfolding fold_Cons comp_def Cons.IH [OF rest] g at
    by (cases "jFrom sp \<le> gsFromOffset g \<and> gsFromOffset g \<le> jTo sp"; cases "jFrom sp \<le> gsToOffset g \<and> gsToOffset g \<le> jTo sp")
      (simp_all only: if_True if_False g out option.case, simp_all add: gap_span_def Let_def)
qed

text \<open>C27: A gap report is exact. With a journal that partitions what was pruned, a consumer at a position
  inside the live range gets no report; one behind it is told the removed range, from its own position to
  the offset before the low-water mark, with the time span of the journal entries that hold the two ends -
  there is exactly one for each - and whether the first was coalesced from several prunes.\<close>

theorem gap_report_exact:
  assumes "journal_ok (sLWM s st) (dJournal (sDisk s) st)"
  shows "(sLWM s st \<le> max 1 pos \<longrightarrow> Gap st pos s = None) \<and>
    (max 1 pos < sLWM s st \<longrightarrow>
      (\<exists>!a. a \<in> set (PruneJournal st (sDisk s)) \<and> jFrom a \<le> max 1 pos \<and> max 1 pos \<le> jTo a) \<and>
      (\<exists>!b. b \<in> set (PruneJournal st (sDisk s)) \<and> jFrom b \<le> sLWM s st - 1 \<and> sLWM s st - 1 \<le> jTo b) \<and>
      (\<forall>a b. a \<in> set (PruneJournal st (sDisk s)) \<and> jFrom a \<le> max 1 pos \<and> max 1 pos \<le> jTo a \<and>
        b \<in> set (PruneJournal st (sDisk s)) \<and> jFrom b \<le> sLWM s st - 1 \<and> sLWM s st - 1 \<le> jTo b \<longrightarrow>
        Gap st pos s = Some \<lparr>gsStream = st, gsFromOffset = max 1 pos, gsToOffset = sLWM s st - 1,
          gsFirstTS = jFirstTS a, gsLastTS = jLastTS b, gsApprox = jCoalesced a\<rparr>))"
proof (cases "max 1 pos < sLWM s st")
  case False
  then show ?thesis by (auto simp: Gap_def LWM_def)
next
  case True
  let ?J = "PruneJournal st (sDisk s)" and ?p = "max 1 pos"
  have cover: "spans_cover 1 (sLWM s st) ?J" using assms by (simp add: journal_ok_def PruneJournal_def)
  have p: "1 \<le> ?p" "?p < sLWM s st" "1 \<le> sLWM s st - 1" "sLWM s st - 1 < sLWM s st" using True by auto
  note one = spans_cover_point [OF cover p(1,2)] spans_cover_point [OF cover p(3,4)]
  obtain a where a: "span_at ?p ?J = Some a" "a \<in> set ?J" "jFrom a \<le> ?p" "?p \<le> jTo a" by (rule span_at_cover [OF cover p(1,2)])
  obtain b where b: "span_at (sLWM s st - 1) ?J = Some b" "b \<in> set ?J" "jFrom b \<le> sLWM s st - 1" "sLWM s st - 1 \<le> jTo b"
    by (rule span_at_cover [OF cover p(3,4)])
  have pos: "(if pos < 1 then 1 else pos) = ?p" by simp
  have "Gap st pos s = Some \<lparr>gsStream = st, gsFromOffset = ?p, gsToOffset = sLWM s st - 1,
      gsFirstTS = jFirstTS a, gsLastTS = jLastTS b, gsApprox = jCoalesced a\<rparr>"
    unfolding Gap_def Let_def LWM_def pos gap_span_fold [OF cover] using a(1) b(1) p by (simp add: not_le)
  moreover have "a' = a" if "a' \<in> set ?J" "jFrom a' \<le> ?p" "?p \<le> jTo a'" for a'
    using one(1) a(2-4) that by blast
  moreover have "b' = b" if "b' \<in> set ?J" "jFrom b' \<le> sLWM s st - 1" "sLWM s st - 1 \<le> jTo b'" for b'
    using one(2) b(2-4) that by blast
  ultimately show ?thesis
    using one p(2) by (intro conjI impI allI) (linarith, assumption, assumption, metis)
qed

text \<open>A stream pruned twice, with a consumer left behind in the first span.\<close>

definition demo_journal :: "(nat, PruneSpan) table" where
  "demo_journal =
     [(1, \<lparr>jFrom = 1, jTo = 4, jFirstTS = 10, jLastTS = 40, jCoalesced = True, jShed = 0\<rparr>),
      (5, \<lparr>jFrom = 5, jTo = 8, jFirstTS = 50, jLastTS = 80, jCoalesced = False, jShed = 0\<rparr>)]"

definition demo_pruned :: Store where
  "demo_pruned = new_store\<lparr>sLWM := (sLWM new_store)(''metrics'' := 9), sNext := (sNext new_store)(''metrics'' := 12),
     sDisk := (sDisk new_store)\<lparr>dJournal := (\<lambda>_. demo_journal)\<rparr>\<rparr>"

theorem gap_report_exact_witness:
  "journal_ok (sLWM demo_pruned ''metrics'') (dJournal (sDisk demo_pruned) ''metrics'') \<and>
   Gap ''metrics'' 9 demo_pruned = None \<and>
   Gap ''metrics'' 2 demo_pruned = Some \<lparr>gsStream = ''metrics'', gsFromOffset = 2, gsToOffset = 8,
     gsFirstTS = 10, gsLastTS = 80, gsApprox = True\<rparr>"
proof -
  have d: "sLWM demo_pruned ''metrics'' = 9" "dJournal (sDisk demo_pruned) ''metrics'' = demo_journal"
    by (simp_all add: demo_pruned_def)
  have ok: "journal_ok (sLWM demo_pruned ''metrics'') (dJournal (sDisk demo_pruned) ''metrics'')"
    unfolding d by (simp add: journal_ok_def demo_journal_def journalCap_def)
  have "Gap ''metrics'' 9 demo_pruned = None" using gap_report_exact [OF ok, of 9] d(1) by simp
  moreover have "Gap ''metrics'' 2 demo_pruned = Some \<lparr>gsStream = ''metrics'', gsFromOffset = max 1 2, gsToOffset = 9 - 1,
      gsFirstTS = jFirstTS (snd (demo_journal ! 0)), gsLastTS = jLastTS (snd (demo_journal ! 1)),
      gsApprox = jCoalesced (snd (demo_journal ! 0))\<rparr>"
    using gap_report_exact [OF ok, of 2, THEN conjunct2, THEN mp, THEN conjunct2, THEN conjunct2, rule_format,
        of "snd (demo_journal ! 0)" "snd (demo_journal ! 1)"] d
    by (simp add: PruneJournal_def demo_journal_def)
  ultimately show ?thesis using ok by (simp add: demo_journal_def)
qed

theorem size_policy_tight_witness:
  "shed_of ''metrics'' (scanStream ''metrics'' 1 2 (sDisk demo_pruning)) + 100 < 2 ^ 64 \<and>
   (let r = policyScan ''metrics'' 1 2 0 0 100 500 9 0 (sDisk demo_pruning) in
    \<not> prHitCap r \<and> \<not> prClamped r \<longrightarrow> 500 \<le> psShed (prStats r) + 100 \<or> scanStream ''metrics'' (prTarget r) 2 (sDisk demo_pruning) = [])"
proof -
  have size: "rec_size ''metrics'' (encode_record 1 demo_metric) < 1000" by code_simp
  have a: "shed_of ''metrics'' (scanStream ''metrics'' 1 2 (sDisk demo_pruning)) + 100 < 2 ^ 64"
    using size by (simp add: shed_of_def scanStream_def upt_rec demo_pruning_def List.map_filter_simps)
  show ?thesis
    using a size_policy_tight [OF refl _ _ a, of 0 0 500 9 0] by (simp add: Let_def)
qed

end
