(* ===== verification/Store_Remove.thy ===== *)
theory Store_Remove
  imports Store_Prune
begin

text \<open>
  Removal inside the live range of a stream: compaction (\<^verbatim>\<open>compact.go\<close>), eviction of records
  nobody reads (\<^verbatim>\<open>evict.go\<close>), retention per signal (\<^verbatim>\<open>signalprune.go\<close>) and moves of retained
  records (\<^verbatim>\<open>move.go\<close>). The first three scan without the mutex and commit under it, so they take the
  store they scan and the one they commit on. They leave the low-water mark and the journal alone, delete
  the index entries of the records they delete, and count themselves in \<^verbatim>\<open>holes\<close>.
\<close>

section \<open>Deleting scattered records\<close>

definition delete_records :: "string \<Rightarrow> (nat \<times> string) list \<Rightarrow> Disk \<Rightarrow> Disk" where
  "delete_records stream ds b =
     b\<lparr>dRecs := (dRecs b)(stream := (\<lambda>off. if off \<in> fst ` set ds then None else dRecs b stream off)),
       dSig := dSig b - (\<lambda>(off, sig). (stream, sig, off)) ` {d \<in> set ds. snd d \<noteq> ''''}\<rparr>"

text \<open>What a removal without new records commits: the byte count never goes below zero.\<close>

definition commit_removal :: "string \<Rightarrow> (nat \<times> string) list \<Rightarrow> nat \<Rightarrow> Store \<Rightarrow> Store" where
  "commit_removal stream ds shed s =
     (let live = sBytes s stream - min shed (sBytes s stream) in
      s\<lparr>sDisk := setBytes stream live (delete_records stream ds (sDisk s)),
        sBytes := (sBytes s)(stream := live), sHoles := (sHoles s)(stream := sHoles s stream + 1)\<rparr>)"

section \<open>Compaction\<close>

record CompactStats =
  ctSuperseded :: nat
  ctTombstones :: nat
  ctBytes :: nat

definition no_compaction :: CompactStats where
  "no_compaction = \<lparr>ctSuperseded = 0, ctTombstones = 0, ctBytes = 0\<rparr>"

definition emptyPayload :: "recEnc \<Rightarrow> bool" where
  "emptyPayload e \<longleftrightarrow> slice_bytes (xPayload e) = []"

definition latest_of :: "(nat \<times> recEnc) list \<Rightarrow> string \<rightharpoonup> nat" where
  "latest_of es = fold (\<lambda>(off, e) m. m(xTopic e \<mapsto> off)) es Map.empty"

definition cursorFloorLocked :: "string \<Rightarrow> nat \<Rightarrow> Disk \<Rightarrow> nat" where
  "cursorFloorLocked stream next d =
     fold (\<lambda>((name, cstream), pos) fl. if cstream = stream \<and> pos < fl then pos else fl) (dCursor d) next"

definition superseded :: "(string \<rightharpoonup> nat) \<Rightarrow> nat \<times> recEnc \<Rightarrow> bool" where
  "superseded latest r \<longleftrightarrow> fst r < the (latest (xTopic (snd r)))"

definition spent_tombstone :: "(string \<rightharpoonup> nat) \<Rightarrow> nat \<Rightarrow> nat \<times> recEnc \<Rightarrow> bool" where
  "spent_tombstone latest fl r \<longleftrightarrow> \<not> superseded latest r \<and> emptyPayload (snd r) \<and> fst r < fl"

definition Compact :: "bool \<Rightarrow> string \<Rightarrow> Store \<Rightarrow> Store \<Rightarrow> (CompactStats \<times> store_error option) \<times> Store" where
  "Compact ok stream s0 s =
     (if sNext s0 stream = 0 then ((no_compaction, Some (UnknownStream stream)), s)
      else
        let records = scanStream stream (sLWM s0 stream) (sNext s0 stream) (sDisk s0); latest = latest_of records in
        if records = [] then ((no_compaction, None), s)
        else if sLWM s stream \<noteq> sLWM s0 stream \<or> sHoles s stream \<noteq> sHoles s0 stream
        then ((no_compaction, Some ConcurrentRemoval), s)
        else
          let fl = cursorFloorLocked stream (sNext s stream) (sDisk s);
              old = filter (superseded latest) records; spent = filter (spent_tombstone latest fl) records;
              gone = filter (\<lambda>r. superseded latest r \<or> spent_tombstone latest fl r) records;
              shed = sum_list (map (\<lambda>r. rec_size stream (snd r)) gone);
              st = \<lparr>ctSuperseded = length old, ctTombstones = length spent, ctBytes = 0\<rparr>
          in if old = [] \<and> spent = [] then ((st, None), s)
             else if \<not> ok then ((st, Some ApplyFailed), s)
             else ((st\<lparr>ctBytes := min shed (sBytes s stream)\<rparr>, None),
               commit_removal stream (map (\<lambda>r. (fst r, xSignalID (snd r))) gone) shed s))"

section \<open>Eviction\<close>

record EvictStats =
  evRemoved :: nat
  evBytes :: nat
  evResume :: nat
  evDone :: bool

datatype evict_error = EvictUnknown string | EvictNoScan string | EvictConcurrent string | EvictCommit

definition no_eviction :: EvictStats where
  "no_eviction = \<lparr>evRemoved = 0, evBytes = 0, evResume = 0, evDone = False\<rparr>"

definition EvictRecords ::
    "bool \<Rightarrow> string \<Rightarrow> nat \<Rightarrow> nat \<Rightarrow> (string \<Rightarrow> bool) \<Rightarrow> Store \<Rightarrow> Store \<Rightarrow> (EvictStats \<times> evict_error option) \<times> Store" where
  "EvictRecords ok stream from maxScan doomed s0 s =
     (let next = sNext s0 stream; lwm = sLWM s0 stream in
      if next = 0 then ((no_eviction, Some (EvictUnknown stream)), s)
      else if maxScan = 0 then ((no_eviction, Some (EvictNoScan stream)), s)
      else
        let first = (if from < lwm then lwm else from);
            st = \<lparr>evRemoved = 0, evBytes = 0, evResume = next, evDone = True\<rparr> in
        if first \<ge> next then ((st, None), s)
        else
          let es = scanStream stream first next (sDisk s0); left = drop maxScan es;
              st1 = (if left = [] then st else st\<lparr>evResume := fst (hd left), evDone := False\<rparr>);
              gone = filter (\<lambda>r. doomed (xTopic (snd r))) (take maxScan es);
              shed = sum_list (map (\<lambda>r. rec_size stream (snd r)) gone)
          in if gone = [] then ((st1, None), s)
             else if sLWM s stream \<noteq> lwm then ((no_eviction, Some (EvictConcurrent stream)), s)
             else if \<not> ok then ((st1, Some EvictCommit), s)
             else ((st1\<lparr>evRemoved := length gone, evBytes := min shed (sBytes s stream)\<rparr>, None),
               commit_removal stream (map (\<lambda>r. (fst r, xSignalID (snd r))) gone) shed s))"

definition EvictKV :: "bool \<Rightarrow> (string \<Rightarrow> bool) \<Rightarrow> Store \<Rightarrow> Store \<Rightarrow> (store_error + nat) \<times> Store" where
  "EvictKV ok doomed s0 s =
     (let keys = filter (\<lambda>k. doomed (snd (snd k))) (map fst (dKV (sDisk s0))) in
      if keys = [] then (Inr 0, s)
      else if \<not> ok then (Inl ApplyFailed, s)
      else (Inr (length keys), s\<lparr>sDisk := fold deleteKV keys (sDisk s)\<rparr>))"

section \<open>Retention per signal\<close>

record doomedRec =
  oOff :: nat
  oSignal :: string
  oTS :: int
  oSize :: nat

record SignalPruneResult =
  spRemoved :: nat
  spBytes :: nat
  spSignals :: nat
  spResume :: string
  spOverridden :: "string list"

definition signalPruneBatch :: nat where "signalPruneBatch = 10000"

definition appendNew :: "string list \<Rightarrow> string list \<Rightarrow> string list" where
  "appendNew xs add = fold (\<lambda>a l. if a \<in> set l then l else l @ [a]) add xs"

text \<open>The floor of the cursors that were not overridden or moved since, and the overridden ones.\<close>

definition signal_floor :: "string \<Rightarrow> (string \<rightharpoonup> nat) \<Rightarrow> Store \<Rightarrow> nat" where
  "signal_floor stream overridden s =
     fold (\<lambda>((name, cstream), pos) fl. if cstream \<noteq> stream \<or> overridden name = Some pos then fl else min fl pos)
       (dCursor (sDisk s)) (sNext s stream)"

definition stale_cursors :: "string \<Rightarrow> (string \<rightharpoonup> nat) \<Rightarrow> Disk \<Rightarrow> (string \<times> nat) list" where
  "stale_cursors stream overridden d =
     List.map_filter (\<lambda>((name, cstream), pos).
       if cstream = stream \<and> overridden name = Some pos then Some (name, pos) else None) (dCursor d)"

definition doomed_span :: "doomedRec list \<Rightarrow> PruneSpan" where
  "doomed_span ds =
     \<lparr>jFrom = Min (oOff ` set ds), jTo = Max (oOff ` set ds), jFirstTS = Min (oTS ` set ds),
      jLastTS = Max (oTS ` set ds), jCoalesced = False, jShed = sum_list (map oSize ds)\<rparr>"

definition deleteSignalRecords ::
    "bool \<Rightarrow> string \<Rightarrow> doomedRec list \<Rightarrow> (string \<rightharpoonup> nat) \<Rightarrow> (PruneSpan \<Rightarrow> string list \<Rightarrow> Record list) option \<Rightarrow>
     Store \<Rightarrow> (store_error + nat \<times> nat \<times> string list) \<times> Store" where
  "deleteSignalRecords ok stream doomed overridden marker s =
     (let fl = signal_floor stream overridden s;
          gone = filter (\<lambda>d. \<not> (oOff d \<ge> fl \<or> oOff d < sLWM s stream)) doomed in
      if gone = [] then (Inr (0, 0, []), s)
      else
        let span = doomed_span gone; shed = jShed span;
            passed = map fst (filter (\<lambda>(name, pos). pos \<le> jTo span) (stale_cursors stream overridden (sDisk s)));
            live = (if shed > sBytes s stream then 0 else sBytes s stream - shed);
            marks = (case marker of Some m \<Rightarrow> if passed = [] then [] else m span passed | None \<Rightarrow> []);
            b1 = delete_records stream (map (\<lambda>d. (oOff d, oSignal d)) gone) (sDisk s)
        in case writeAppend stream marks (sNext s stream) b1 of (off, added, b2) \<Rightarrow>
          let b3 = (if off \<noteq> sNext s stream then setHead stream off b2 else b2);
              b4 = setBytes stream (live + added) b3
          in if \<not> ok then (Inl ApplyFailed, s)
             else (Inr (length gone, shed, passed),
               s\<lparr>sDisk := b4, sNext := (sNext s)(stream := off), sBytes := (sBytes s)(stream := live + added),
                 sHoles := (sHoles s)(stream := sHoles s stream + 1)\<rparr>))"

text \<open>The entries of the signal index in key order: the signals of a stream, and the offsets of one. A
  signal id is a ULID, so it holds no separator and keys sort as pairs.\<close>

definition index_signals :: "string \<Rightarrow> string \<Rightarrow> Disk \<Rightarrow> string list" where
  "index_signals stream from d =
     sorted_list_of_set ((\<lambda>(st, sig, off). sig) ` {x \<in> dSig d. fst x = stream \<and> fst (snd x) \<ge> from})"

definition index_offsets :: "string \<Rightarrow> string \<Rightarrow> nat \<Rightarrow> Disk \<Rightarrow> nat list" where
  "index_offsets stream sig from d =
     sorted_list_of_set ((\<lambda>(st, sg, off). off) ` {x \<in> dSig d. fst x = stream \<and> fst (snd x) = sig \<and> snd (snd x) \<ge> from})"

text \<open>What the arguments of one call fix, and how far the call came. \<^verbatim>\<open>pcOk n\<close> says whether its
  \<^verbatim>\<open>n\<close>-th commit succeeds; the marker sees the names it was called with before.\<close>

record prune_call =
  pcOk :: "nat \<Rightarrow> bool"
  pcStream :: string
  pcNow :: int
  pcRule :: "string \<Rightarrow> string \<Rightarrow> int option"
  pcClamp :: nat
  pcOverridden :: "string \<rightharpoonup> nat"
  pcMaxVisit :: nat
  pcMarker :: "(string list \<Rightarrow> PruneSpan \<Rightarrow> string list \<Rightarrow> Record list) option"

record prune_walk =
  pwRes :: SignalPruneResult
  pwDoomed :: "doomedRec list"
  pwVisited :: nat
  pwFlushes :: nat
  pwStore :: Store
  pwErr :: "store_error option"

definition flush_doomed :: "prune_call \<Rightarrow> prune_walk \<Rightarrow> prune_walk" where
  "flush_doomed c w =
     (if pwDoomed w = [] then w
      else case deleteSignalRecords (pcOk c (pwFlushes w)) (pcStream c) (pwDoomed w) (pcOverridden c)
          (map_option (\<lambda>m. m (spOverridden (pwRes w))) (pcMarker c)) (pwStore w) of
        (Inl e, s) \<Rightarrow> w\<lparr>pwDoomed := [], pwFlushes := pwFlushes w + 1, pwStore := s, pwErr := Some e\<rparr>
      | (Inr (removed, shed, passed), s) \<Rightarrow>
          w\<lparr>pwRes := (pwRes w)\<lparr>spRemoved := spRemoved (pwRes w) + removed, spBytes := spBytes (pwRes w) + shed,
               spOverridden := appendNew (spOverridden (pwRes w)) passed\<rparr>,
            pwDoomed := [], pwFlushes := pwFlushes w + 1, pwStore := s\<rparr>)"

text \<open>The cutoff a signal's first record decides; \<^term>\<open>None\<close> leaves the signal to the stream policy.\<close>

definition signal_cutoff :: "prune_call \<Rightarrow> string \<Rightarrow> recEnc \<Rightarrow> int option" where
  "signal_cutoff c sig e =
     (case pcRule c sig (xTopic e) of None \<Rightarrow> None
      | Some maxAge \<Rightarrow> if maxAge \<le> 0 then None else Some (UnixMilli (pcNow c) - maxAge div 1000000))"

text \<open>One signal: the second result says that the call returns. \<^verbatim>\<open>cf\<close> is the cutoff once decided,
  \<^verbatim>\<open>keep\<close> the value in force so far.\<close>

fun walk_signal ::
    "prune_call \<Rightarrow> string \<Rightarrow> nat list \<Rightarrow> int option \<Rightarrow> doomedRec option \<Rightarrow> prune_walk \<Rightarrow> prune_walk \<times> bool" where
  "walk_signal c sig [] cf keep w = (w, False)"
| "walk_signal c sig (off # offs) cf keep w =
     (if off \<ge> pcClamp c then (w, False)
      else
        let w1 = w\<lparr>pwVisited := pwVisited w + 1\<rparr> in
        case dRecs (sDisk (pwStore w)) (pcStream c) off of
          None \<Rightarrow> walk_signal c sig offs cf keep w1
        | Some e \<Rightarrow>
            if pcMaxVisit c > 0 \<and> pwVisited w1 > pcMaxVisit c
            then (flush_doomed c (w1\<lparr>pwRes := (pwRes w1)\<lparr>spResume := sig\<rparr>\<rparr>), True)
            else
              (case (case cf of Some t \<Rightarrow> Some t | None \<Rightarrow> signal_cutoff c sig e) of
                 None \<Rightarrow> (w1, False)
               | Some t \<Rightarrow>
                   if xTS e \<ge> t then (w1, False)
                   else
                     let cand = \<lparr>oOff = off, oSignal = sig, oTS = xTS e, oSize = rec_size (pcStream c) e\<rparr> in
                     case keep of
                       None \<Rightarrow> walk_signal c sig offs (Some t) (Some cand) w1
                     | Some k \<Rightarrow>
                         let keep' = (if oTS cand \<ge> oTS k then cand else k);
                             d = (if oTS cand \<ge> oTS k then k else cand);
                             w2 = w1\<lparr>pwDoomed := pwDoomed w1 @ [d]\<rparr>;
                             w3 = (if length (pwDoomed w2) \<ge> signalPruneBatch then flush_doomed c w2 else w2)
                         in if pwErr w3 \<noteq> None then (w3, True)
                            else walk_signal c sig offs (Some t) (Some keep') w3))"

fun walk_signals :: "prune_call \<Rightarrow> nat \<Rightarrow> Disk \<Rightarrow> string list \<Rightarrow> prune_walk \<Rightarrow> prune_walk" where
  "walk_signals c lwm snap [] w = flush_doomed c w"
| "walk_signals c lwm snap (sig # sigs) w =
     (if pcMaxVisit c > 0 \<and> pwVisited w \<ge> pcMaxVisit c
      then flush_doomed c (w\<lparr>pwRes := (pwRes w)\<lparr>spResume := sig\<rparr>\<rparr>)
      else
        let w1 = w\<lparr>pwRes := (pwRes w)\<lparr>spSignals := spSignals (pwRes w) + 1\<rparr>\<rparr> in
        case walk_signal c sig (index_offsets (pcStream c) sig lwm snap) None None w1 of (w2, stop) \<Rightarrow>
          if stop then w2 else walk_signals c lwm snap sigs w2)"

definition no_prune_result :: SignalPruneResult where
  "no_prune_result = \<lparr>spRemoved = 0, spBytes = 0, spSignals = 0, spResume = '''', spOverridden = []\<rparr>"

text \<open>\<^verbatim>\<open>PruneSignals\<close>: the index is read from the store as it is when the call opens its iterator.\<close>

definition PruneSignals :: "prune_call \<Rightarrow> string \<Rightarrow> Store \<Rightarrow> (SignalPruneResult \<times> store_error option) \<times> Store" where
  "PruneSignals c from s =
     (let lwm = sLWM s (pcStream c); next = sNext s (pcStream c) in
      if next = 0 then ((no_prune_result, Some (UnknownStream (pcStream c))), s)
      else
        let c1 = c\<lparr>pcClamp := min (pcClamp c) next\<rparr> in
        if pcClamp c1 \<le> lwm then ((no_prune_result, None), s)
        else
          let w = walk_signals c1 lwm (sDisk s) (index_signals (pcStream c) from (sDisk s))
            \<lparr>pwRes = no_prune_result, pwDoomed = [], pwVisited = 0, pwFlushes = 0, pwStore = s, pwErr = None\<rparr>
          in ((pwRes w, pwErr w), pwStore w))"

section \<open>Moves of retained records\<close>

record RetainedMove =
  mvNode :: string
  mvFromPath :: string
  mvFromTopic :: string
  mvToPath :: string
  mvToTopic :: string

definition kvEntryLocked :: "string \<Rightarrow> string \<Rightarrow> string \<Rightarrow> Disk \<Rightarrow> kvEnc option" where
  "kvEntryLocked path node topic d = map_of (dKV d) (path, node, topic)"

definition move_records :: "Record \<Rightarrow> Disk \<Rightarrow> RetainedMove \<Rightarrow> Record list" where
  "move_records auth d m =
     (case kvEntryLocked (mvFromPath m) (mvNode m) (mvFromTopic m) d of
        None \<Rightarrow> []
      | Some held \<Rightarrow>
          (if kvEntryLocked (mvToPath m) (mvNode m) (mvToTopic m) d = None
           then [zero_record\<lparr>rTopic := mvToTopic m, rPayload := vPayload held, rTS := vTS held,
                   rWrittenBy := vWrittenBy held, rActorID := vActorID held, rActorLabel := vActorLabel held,
                   rActorKind := vActorKind held, rKVPath := mvToPath m, rKVNode := mvNode m\<rparr>]
           else []) @
          [zero_record\<lparr>rTopic := mvFromTopic m, rTS := rTS auth, rWrittenBy := rWrittenBy auth, rActorID := rActorID auth,
             rActorLabel := rActorLabel auth, rActorKind := rActorKind auth, rKVPath := mvFromPath m,
             rKVNode := mvNode m, rDelete := True\<rparr>])"

definition MoveRetained ::
    "string \<Rightarrow> bool \<Rightarrow> string \<Rightarrow> RetainedMove list \<Rightarrow> Record \<Rightarrow> Store \<Rightarrow> (store_error + Record list \<times> nat) \<times> Store" where
  "MoveRetained rt ok stream moves auth s =
     (let written = concat (map (move_records auth (sDisk s)) moves) in
      if written = [] then (Inr ([], 0), s)
      else case appendLocked rt ok stream written s of
        (Inl e, s1) \<Rightarrow> (Inl e, s1)
      | (Inr (first, _), s1) \<Rightarrow> (Inr (written, first), s1))"

section \<open>Scans after a removal\<close>

lemma scanned: "r \<in> set (scanStream st a b d) \<longleftrightarrow> a \<le> fst r \<and> fst r < b \<and> dRecs d st (fst r) = Some (snd r)"
  using scanStream_mem [of "fst r" "snd r"] by simp

lemma delete_records_recs:
  "dRecs (delete_records st ds b) st' off = (if st' = st \<and> off \<in> fst ` set ds then None else dRecs b st' off)"
  by (auto simp: delete_records_def)

lemma commit_removal_recs:
  "dRecs (sDisk (commit_removal st ds shed s)) st' off =
    (if st' = st \<and> off \<in> fst ` set ds then None else dRecs (sDisk s) st' off)"
  by (simp add: commit_removal_def Let_def setBytes_def delete_records_recs)

lemma scanStream_filter:
  assumes "\<And>off. a \<le> off \<Longrightarrow> off < b \<Longrightarrow> dRecs d' st off = (if P off then None else dRecs d st off)"
  shows "scanStream st a b d' = filter (\<lambda>r. \<not> P (fst r)) (scanStream st a b d)"
proof -
  have "List.map_filter (\<lambda>off. map_option (Pair off) (dRecs d' st off)) xs =
      filter (\<lambda>r. \<not> P (fst r)) (List.map_filter (\<lambda>off. map_option (Pair off) (dRecs d st off)) xs)"
    if "\<And>off. off \<in> set xs \<Longrightarrow> dRecs d' st off = (if P off then None else dRecs d st off)" for xs
    using that by (induction xs) (auto simp: List.map_filter_simps split: option.split)
  from this [of "[a..<b]"] show ?thesis unfolding scanStream_def using assms by simp
qed

lemma scanStream_cong:
  assumes "\<And>off. a \<le> off \<Longrightarrow> off < b \<Longrightarrow> dRecs d' st off = dRecs d st off"
  shows "scanStream st a b d' = scanStream st a b d"
  using scanStream_filter [of a b d' st "\<lambda>_. False" d] assms by simp

section \<open>Compaction keeps every view\<close>

text \<open>The view a consumer builds: the last value of every topic, none after a retraction.\<close>

definition replay :: "(nat \<times> recEnc) list \<Rightarrow> (string \<rightharpoonup> slice) \<Rightarrow> (string \<rightharpoonup> slice)" where
  "replay es v = fold (\<lambda>(off, e) v. if emptyPayload e then v(xTopic e := None) else v(xTopic e \<mapsto> xPayload e)) es v"

definition last_rec :: "string \<Rightarrow> (nat \<times> recEnc) list \<Rightarrow> (nat \<times> recEnc) option" where
  "last_rec t es = (case rev (filter (\<lambda>r. xTopic (snd r) = t) es) of [] \<Rightarrow> None | r # _ \<Rightarrow> Some r)"

lemma last_rec_snoc: "last_rec t (es @ [r]) = (if xTopic (snd r) = t then Some r else last_rec t es)"
  by (simp add: last_rec_def)

lemma replay_at:
  "replay es v t = (case last_rec t es of None \<Rightarrow> v t
     | Some r \<Rightarrow> if emptyPayload (snd r) then None else Some (xPayload (snd r)))"
proof (induction es rule: rev_induct)
  case Nil
  show ?case by (simp add: replay_def last_rec_def)
next
  case (snoc r es)
  have "replay (es @ [r]) v = (\<lambda>v. if emptyPayload (snd r) then v(xTopic (snd r) := None)
      else v(xTopic (snd r) \<mapsto> xPayload (snd r))) (replay es v)"
    by (simp add: replay_def case_prod_beta)
  then show ?case using snoc by (simp add: last_rec_snoc)
qed

lemma latest_of_last: "latest_of es t = map_option fst (last_rec t es)"
proof (induction es rule: rev_induct)
  case (snoc r es)
  then show ?case by (simp add: latest_of_def last_rec_snoc case_prod_beta)
qed (simp add: latest_of_def last_rec_def)

lemma last_rec_None: "last_rec t es = None \<longleftrightarrow> (\<forall>r \<in> set es. xTopic (snd r) \<noteq> t)"
  by (induction es rule: rev_induct) (auto simp: last_rec_snoc, simp_all add: last_rec_def)

lemma last_rec_Some:
  assumes "sorted_wrt (<) (map fst es)"
  shows "last_rec t es = Some r \<longleftrightarrow>
    r \<in> set es \<and> xTopic (snd r) = t \<and> (\<forall>q \<in> set es. xTopic (snd q) = t \<longrightarrow> fst q \<le> fst r)"
  using assms
proof (induction es rule: rev_induct)
  case (snoc x es)
  have sorted: "sorted_wrt (<) (map fst es)" and below: "\<forall>q \<in> set es. fst q < fst x"
    using snoc.prems by (auto simp: sorted_wrt_append)
  show ?case
  proof (cases "xTopic (snd x) = t")
    case True
    then show ?thesis using below by (auto simp: last_rec_snoc)
  next
    case False
    then show ?thesis using snoc.IH [OF sorted] by (auto simp: last_rec_snoc)
  qed
qed (simp add: last_rec_def)

text \<open>What compaction decides on a range that reaches past its scan.\<close>

definition compacted :: "string \<Rightarrow> nat \<Rightarrow> nat \<Rightarrow> nat \<Rightarrow> Disk \<Rightarrow> nat \<Rightarrow> bool" where
  "compacted st lwm next fl d off \<longleftrightarrow>
     (\<exists>r \<in> set (scanStream st lwm next d). fst r = off \<and>
       (superseded (latest_of (scanStream st lwm next d)) r \<or> spent_tombstone (latest_of (scanStream st lwm next d)) fl r))"

lemma compacted_last:
  assumes r: "last_rec t (scanStream st a n d) = Some r" and gone: "compacted st lwm m fl d (fst r)" and le: "m \<le> n"
  shows "r \<in> set (scanStream st lwm m d)" "spent_tombstone (latest_of (scanStream st lwm m d)) fl r"
    "latest_of (scanStream st lwm m d) t = Some (fst r)"
proof -
  let ?recs = "scanStream st lwm m d"
  have rs: "r \<in> set (scanStream st a n d)" "xTopic (snd r) = t"
    and max: "\<And>q. q \<in> set (scanStream st a n d) \<Longrightarrow> xTopic (snd q) = t \<Longrightarrow> fst q \<le> fst r"
    using r last_rec_Some [OF scanStream_sorted] by blast+
  obtain q where q: "q \<in> set ?recs" "fst q = fst r"
    "superseded (latest_of ?recs) q \<or> spent_tombstone (latest_of ?recs) fl q"
    using gone by (auto simp: compacted_def)
  have "q = r" using q(1,2) rs(1) by (auto simp: scanned intro: prod_eqI)
  then show mem: "r \<in> set ?recs" using q(1) by simp
  have "last_rec t ?recs = Some r"
    unfolding last_rec_Some [OF scanStream_sorted]
  proof (intro conjI ballI impI mem rs(2))
    fix p assume p: "p \<in> set ?recs" "xTopic (snd p) = t"
    show "fst p \<le> fst r"
    proof (cases "a \<le> fst p")
      case True
      then have "p \<in> set (scanStream st a n d)" using p(1) le by (simp add: scanned)
      then show ?thesis using max p(2) by blast
    next
      case False
      then show ?thesis using rs(1) by (simp add: scanned)
    qed
  qed
  then show latest: "latest_of ?recs t = Some (fst r)" by (simp add: latest_of_last)
  then show "spent_tombstone (latest_of ?recs) fl r"
    using q(3) \<open>q = r\<close> rs(2) by (auto simp: superseded_def)
qed

lemma last_rec_filter:
  assumes "last_rec t (scanStream st a n d) = Some r" "\<not> P (fst r)"
  shows "last_rec t (filter (\<lambda>r. \<not> P (fst r)) (scanStream st a n d)) = Some r"
proof -
  have "sorted_wrt (<) (map fst (filter (\<lambda>r. \<not> P (fst r)) (scanStream st a n d)))"
    using scanStream_sorted [of st a n d] by (simp add: sorted_wrt_filter sorted_wrt_map)
  then show ?thesis
    using assms unfolding last_rec_Some [OF scanStream_sorted] by (simp add: last_rec_Some)
qed

lemma compacted_view:
  assumes le: "m \<le> n" and scan': "scanStream st a n d' = filter (\<lambda>r. \<not> compacted st lwm m fl d (fst r)) (scanStream st a n d)"
  shows "fl \<le> a \<Longrightarrow> replay (scanStream st a n d') V = replay (scanStream st a n d) V"
    and "a = lwm \<Longrightarrow> replay (scanStream st a n d') Map.empty = replay (scanStream st a n d) Map.empty"
proof -
  have at: "replay (scanStream st a n d') V t = replay (scanStream st a n d) V t"
    if "\<And>r. last_rec t (scanStream st a n d) = Some r \<Longrightarrow> compacted st lwm m fl d (fst r) \<Longrightarrow>
      V t = None \<and> last_rec t (scanStream st a n d') = None \<and> emptyPayload (snd r)" for V t
  proof (cases "last_rec t (scanStream st a n d)")
    case None
    then have "last_rec t (scanStream st a n d') = None" unfolding scan' by (simp add: last_rec_None)
    then show ?thesis using None by (simp add: replay_at)
  next
    case (Some r)
    show ?thesis
    proof (cases "compacted st lwm m fl d (fst r)")
      case True
      then show ?thesis using that [OF Some] Some by (simp add: replay_at)
    next
      case False
      then show ?thesis using last_rec_filter [OF Some] Some unfolding scan' by (simp add: replay_at)
    qed
  qed
  show "replay (scanStream st a n d') V = replay (scanStream st a n d) V" if "fl \<le> a"
  proof (rule ext, rule at)
    fix t r
    assume r: "last_rec t (scanStream st a n d) = Some r" "compacted st lwm m fl d (fst r)"
    have "fst r < fl" using compacted_last(2) [OF r le] by (simp add: spent_tombstone_def)
    moreover have "a \<le> fst r"
      using r(1) by (simp add: last_rec_Some [OF scanStream_sorted] scanned)
    ultimately show "V t = None \<and> last_rec t (scanStream st a n d') = None \<and> emptyPayload (snd r)" using that by simp
  qed
  show "replay (scanStream st a n d') Map.empty = replay (scanStream st a n d) Map.empty" if "a = lwm"
  proof (rule ext, rule at)
    fix t r
    assume r: "last_rec t (scanStream st a n d) = Some r" "compacted st lwm m fl d (fst r)"
    note c = compacted_last [OF r le]
    have "compacted st lwm m fl d (fst q)" if q: "q \<in> set (scanStream st a n d)" "xTopic (snd q) = t" for q
    proof (cases "fst q = fst r")
      case False
      then have lt: "fst q < fst r" using q r(1) by (auto simp: last_rec_Some [OF scanStream_sorted] le_less)
      moreover have "fst r < m" using c(1) by (simp add: scanned)
      ultimately have "q \<in> set (scanStream st lwm m d)" using q(1) \<open>a = lwm\<close> by (simp add: scanned)
      then show ?thesis using c(3) q(2) lt by (auto simp: compacted_def superseded_def)
    qed (simp add: r(2))
    then have "last_rec t (scanStream st a n d') = None" unfolding scan' by (auto simp: last_rec_None)
    then show "Map.empty t = None \<and> last_rec t (scanStream st a n d') = None \<and> emptyPayload (snd r)"
      using c(2) by (simp add: spent_tombstone_def)
  qed
qed

lemma cursorFloorLocked_floor: "cursorFloorLocked st n d = cursor_floor st [] n d"
proof -
  have "(\<lambda>((name, cstream), pos) fl. if cstream = st \<and> pos < fl then pos else fl) =
      (\<lambda>((name :: string, cstream), pos) u. if cstream \<noteq> st \<or> name \<in> set [] then u else if pos < u then pos else (u :: nat))"
    by (auto simp: fun_eq_iff)
  then show ?thesis by (simp only: cursorFloorLocked_def cursor_floor_def)
qed

lemma Compact_cases:
  assumes "Compact ok st s0 s = (r, s')"
  obtains (unchanged) "s' = s"
  | (removed) gone shed where "sLWM s st = sLWM s0 st" "sHoles s st = sHoles s0 st" "ok"
      "gone = filter (\<lambda>r. superseded (latest_of (scanStream st (sLWM s0 st) (sNext s0 st) (sDisk s0))) r \<or>
         spent_tombstone (latest_of (scanStream st (sLWM s0 st) (sNext s0 st) (sDisk s0)))
           (cursorFloorLocked st (sNext s st) (sDisk s)) r) (scanStream st (sLWM s0 st) (sNext s0 st) (sDisk s0))"
      "shed = sum_list (map (\<lambda>r. rec_size st (snd r)) gone)"
      "s' = commit_removal st (map (\<lambda>r. (fst r, xSignalID (snd r))) gone) shed s"
proof -
  define recs where "recs = scanStream st (sLWM s0 st) (sNext s0 st) (sDisk s0)"
  define latest where "latest = latest_of recs"
  define fl where "fl = cursorFloorLocked st (sNext s st) (sDisk s)"
  define gone where "gone = filter (\<lambda>r. superseded latest r \<or> spent_tombstone latest fl r) recs"
  define shed where "shed = sum_list (map (\<lambda>r. rec_size st (snd r)) gone)"
  have "s' = s \<or> sLWM s st = sLWM s0 st \<and> sHoles s st = sHoles s0 st \<and> ok \<and>
      s' = commit_removal st (map (\<lambda>r. (fst r, xSignalID (snd r))) gone) shed s"
    using assms
    unfolding Compact_def Let_def recs_def [symmetric] latest_def [symmetric] fl_def [symmetric] gone_def [symmetric]
      shed_def [symmetric]
    by (simp split: if_split_asm)
  then show thesis
    using unchanged removed [OF _ _ _ gone_def [unfolded latest_def recs_def fl_def] shed_def] by blast
qed

text \<open>C6: Compaction changes no consumer's result. Take a compaction whose scan saw the records the
  stream still has (records may have been appended since). Whatever a consumer with a cursor on the stream
  knew when it last acked, it ends with the same view from the compacted stream as from the full one; and a
  consumer that starts at the low-water mark with nothing ends with the same view too. A retraction goes
  only when every cursor has passed it, so no consumer keeps a value that was retracted.\<close>

theorem compaction_preserves_views:
  assumes "Compact ok st s0 s = (r, s')" "sNext s0 st \<le> sNext s st"
    and "\<forall>off < sNext s0 st. dRecs (sDisk s) st off = dRecs (sDisk s0) st off"
  shows "(\<forall>name pos V. ((name, st), pos) \<in> set (dCursor (sDisk s)) \<longrightarrow>
      replay (scanStream st pos (sNext s st) (sDisk s')) V = replay (scanStream st pos (sNext s st) (sDisk s)) V) \<and>
    replay (scanStream st (sLWM s st) (sNext s st) (sDisk s')) Map.empty =
      replay (scanStream st (sLWM s st) (sNext s st) (sDisk s)) Map.empty"
  using assms(1)
proof (cases rule: Compact_cases)
  case (removed gone shed)
  let ?fl = "cursorFloorLocked st (sNext s st) (sDisk s)"
  let ?C = "compacted st (sLWM s st) (sNext s0 st) ?fl (sDisk s)"
  have scan: "scanStream st (sLWM s0 st) (sNext s0 st) (sDisk s0) = scanStream st (sLWM s st) (sNext s0 st) (sDisk s)"
    unfolding removed(1) using assms(3) by (intro scanStream_cong) simp
  have gone: "off \<in> fst ` set gone \<longleftrightarrow> ?C off" for off
    unfolding removed(4) scan compacted_def by auto
  have recs: "dRecs (sDisk s') st off = (if ?C off then None else dRecs (sDisk s) st off)" for off
    unfolding removed(6) commit_removal_recs gone [symmetric] by (simp add: image_image)
  then have "scanStream st a (sNext s st) (sDisk s') = filter (\<lambda>r. \<not> ?C (fst r)) (scanStream st a (sNext s st) (sDisk s))" for a
    by (intro scanStream_filter) simp
  note view = compacted_view [OF assms(2) this]
  show ?thesis
  proof (intro conjI allI impI)
    fix name pos V
    assume "((name, st), pos) \<in> set (dCursor (sDisk s))"
    then have "?fl \<le> pos" unfolding cursorFloorLocked_floor by (intro cursor_floor_cursor) auto
    then show "replay (scanStream st pos (sNext s st) (sDisk s')) V = replay (scanStream st pos (sNext s st) (sDisk s)) V"
      by (rule view(1))
  qed (rule view(2) [OF refl])
qed simp

text \<open>Two values of one topic, a retraction of another, and a consumer that has read them.\<close>

definition demo_definition :: "string \<Rightarrow> slice \<Rightarrow> Record" where
  "demo_definition name payload = zero_record\<lparr>rTopic := ''colca/v1/_Group/N1/'' @ name, rPayload := payload\<rparr>"

definition demo_definitions :: Store where
  "demo_definitions = new_store\<lparr>sNext := (sNext new_store)(''definitions'' := 4),
     sDisk := (sDisk new_store)\<lparr>dCursor := [((''child'', ''definitions''), 4)],
       dRecs := (\<lambda>st. if st = ''definitions''
         then [1 \<mapsto> encode_record 1 (demo_definition ''a'' (Some ''x'')),
               2 \<mapsto> encode_record 2 (demo_definition ''a'' (Some ''y'')),
               3 \<mapsto> encode_record 3 (demo_definition ''b'' None)] else Map.empty)\<rparr>\<rparr>"

lemma demo_definitions_scan:
  "scanStream ''definitions'' 1 4 (sDisk demo_definitions) =
     [(1, encode_record 1 (demo_definition ''a'' (Some ''x''))), (2, encode_record 2 (demo_definition ''a'' (Some ''y''))),
      (3, encode_record 3 (demo_definition ''b'' None))]"
  by (simp add: scanStream_def upt_rec demo_definitions_def List.map_filter_simps)

theorem compaction_preserves_views_witness:
  "\<exists>r s'. Compact True ''definitions'' demo_definitions demo_definitions = (r, s') \<and>
    dRecs (sDisk s') ''definitions'' 1 = None \<and> dRecs (sDisk s') ''definitions'' 3 = None \<and>
    ((''child'', ''definitions''), 4) \<in> set (dCursor (sDisk demo_definitions)) \<and>
    replay (scanStream ''definitions'' 1 4 (sDisk s')) Map.empty =
      [''colca/v1/_Group/N1/a'' \<mapsto> Some ''y'']"
proof -
  obtain r s' where c: "Compact True ''definitions'' demo_definitions demo_definitions = (r, s')" by fastforce
  have m: "sLWM demo_definitions ''definitions'' = 1" "sNext demo_definitions ''definitions'' = 4"
    by (simp_all add: demo_definitions_def new_store_eq streams_def)
  have cur: "((''child'', ''definitions''), 4) \<in> set (dCursor (sDisk demo_definitions))" by (simp add: demo_definitions_def)
  have fl: "cursorFloorLocked ''definitions'' 4 (sDisk demo_definitions) = 4"
    by (simp add: cursorFloorLocked_def demo_definitions_def)
  have latest: "latest_of (scanStream ''definitions'' 1 4 (sDisk demo_definitions)) =
      [''colca/v1/_Group/N1/a'' \<mapsto> 2, ''colca/v1/_Group/N1/b'' \<mapsto> 3]"
    unfolding demo_definitions_scan by (simp add: latest_of_def demo_definition_def)
  have "dRecs (sDisk s') ''definitions'' 1 = None \<and> dRecs (sDisk s') ''definitions'' 3 = None"
    using c unfolding Compact_def Let_def m fl latest unfolding demo_definitions_scan
    by (auto simp: superseded_def spent_tombstone_def demo_definition_def emptyPayload_def
        slice_bytes_def commit_removal_recs)
  moreover have "replay (scanStream ''definitions'' 1 4 (sDisk s')) Map.empty =
      replay (scanStream ''definitions'' 1 4 (sDisk demo_definitions)) Map.empty"
    using compaction_preserves_views [OF c] m by simp
  moreover have "replay (scanStream ''definitions'' 1 4 (sDisk demo_definitions)) Map.empty = [''colca/v1/_Group/N1/a'' \<mapsto> Some ''y'']"
    unfolding demo_definitions_scan by (auto simp: replay_def demo_definition_def emptyPayload_def slice_bytes_def fun_eq_iff)
  ultimately show ?thesis using c cur by metis
qed

section \<open>Retention per signal respects cursors\<close>

lemma signal_floor_le:
  "signal_floor st ov s \<le> sNext s st"
  "((name, st), pos) \<in> set (dCursor (sDisk s)) \<Longrightarrow> ov name \<noteq> Some pos \<Longrightarrow> signal_floor st ov s \<le> pos"
proof -
  have fold: "fold (\<lambda>((name, cstream), pos) fl. if cstream \<noteq> st \<or> ov name = Some pos then fl else min fl pos) cs n =
      fold min (map snd (filter (\<lambda>c. snd (fst c) = st \<and> ov (fst (fst c)) \<noteq> Some (snd c)) cs)) n" for cs n
  proof (induction cs arbitrary: n)
    case (Cons c cs)
    obtain name cstream pos where c: "c = ((name, cstream), pos)" by (metis prod.collapse)
    show ?case using Cons.IH by (simp add: c min.commute)
  qed simp
  show "signal_floor st ov s \<le> sNext s st" unfolding signal_floor_def fold by (rule fold_min_le(1))
  show "signal_floor st ov s \<le> pos" if "((name, st), pos) \<in> set (dCursor (sDisk s))" "ov name \<noteq> Some pos"
    unfolding signal_floor_def fold by (rule fold_min_le(2)) (use that in force)
qed

text \<open>A store after some removals of one stream: records only go, from the low-water mark on and below
  every cursor that is not overridden where it stands.\<close>

definition signal_removal :: "string \<Rightarrow> (string \<rightharpoonup> nat) \<Rightarrow> Store \<Rightarrow> Store \<Rightarrow> bool" where
  "signal_removal st ov s s' \<longleftrightarrow>
     sLWM s' = sLWM s \<and> dCursor (sDisk s') = dCursor (sDisk s) \<and> sNext s st \<le> sNext s' st \<and>
     (\<forall>st'. st' \<noteq> st \<longrightarrow> sNext s' st' = sNext s st' \<and> dRecs (sDisk s') st' = dRecs (sDisk s) st') \<and>
     (\<forall>off < sNext s st. dRecs (sDisk s') st off = dRecs (sDisk s) st off \<or>
        dRecs (sDisk s') st off = None \<and> sLWM s st \<le> off \<and>
        (\<forall>name pos. ((name, st), pos) \<in> set (dCursor (sDisk s)) \<and> ov name \<noteq> Some pos \<longrightarrow> off < pos))"

lemma signal_removal_refl [simp]: "signal_removal st ov s s"
  by (simp add: signal_removal_def)

lemma signal_removal_trans:
  assumes "signal_removal st ov s s1" "signal_removal st ov s1 s2"
  shows "signal_removal st ov s s2"
proof -
  have a: "sLWM s1 = sLWM s" "dCursor (sDisk s1) = dCursor (sDisk s)" "sNext s st \<le> sNext s1 st"
    and b: "sLWM s2 = sLWM s1" "dCursor (sDisk s2) = dCursor (sDisk s1)" "sNext s1 st \<le> sNext s2 st"
    using assms by (simp_all add: signal_removal_def)
  have "dRecs (sDisk s2) st off = dRecs (sDisk s) st off \<or> dRecs (sDisk s2) st off = None \<and> sLWM s st \<le> off \<and>
      (\<forall>name pos. ((name, st), pos) \<in> set (dCursor (sDisk s)) \<and> ov name \<noteq> Some pos \<longrightarrow> off < pos)"
    if off: "off < sNext s st" for off
  proof -
    have "off < sNext s1 st" using off a(3) by simp
    then have "dRecs (sDisk s2) st off = dRecs (sDisk s1) st off \<or> dRecs (sDisk s2) st off = None \<and> sLWM s st \<le> off \<and>
        (\<forall>name pos. ((name, st), pos) \<in> set (dCursor (sDisk s)) \<and> ov name \<noteq> Some pos \<longrightarrow> off < pos)"
      using assms(2) unfolding signal_removal_def a by blast
    moreover have "dRecs (sDisk s1) st off = dRecs (sDisk s) st off \<or> dRecs (sDisk s1) st off = None \<and> sLWM s st \<le> off \<and>
        (\<forall>name pos. ((name, st), pos) \<in> set (dCursor (sDisk s)) \<and> ov name \<noteq> Some pos \<longrightarrow> off < pos)"
      using assms(1) off unfolding signal_removal_def by blast
    ultimately show ?thesis by metis
  qed
  moreover have "\<forall>st'. st' \<noteq> st \<longrightarrow> sNext s2 st' = sNext s st' \<and> dRecs (sDisk s2) st' = dRecs (sDisk s) st'"
    using assms by (simp add: signal_removal_def)
  ultimately show ?thesis using a b unfolding signal_removal_def by simp
qed

lemma deleteSignalRecords_cases:
  assumes "deleteSignalRecords ok st ds ov marker s = (r, s')"
  obtains (unchanged) "s' = s"
  | (removed) gone where "set gone \<subseteq> set ds" "\<forall>d \<in> set gone. sLWM s st \<le> oOff d \<and> oOff d < signal_floor st ov s"
      "\<And>st' off. st' \<noteq> st \<or> off < sNext s st \<Longrightarrow>
        dRecs (sDisk s') st' off = (if st' = st \<and> off \<in> oOff ` set gone then None else dRecs (sDisk s) st' off)"
      "sLWM s' = sLWM s" "dCursor (sDisk s') = dCursor (sDisk s)" "sNext s st \<le> sNext s' st"
      "\<And>st'. st' \<noteq> st \<Longrightarrow> sNext s' st' = sNext s st'"
proof -
  define gone where "gone = filter (\<lambda>d. \<not> (oOff d \<ge> signal_floor st ov s \<or> oOff d < sLWM s st)) ds"
  define marks where "marks = (case marker of
      Some m \<Rightarrow> if map fst (filter (\<lambda>(name, pos). pos \<le> jTo (doomed_span gone)) (stale_cursors st ov (sDisk s))) = [] then []
        else m (doomed_span gone) (map fst (filter (\<lambda>(name, pos). pos \<le> jTo (doomed_span gone)) (stale_cursors st ov (sDisk s))))
    | None \<Rightarrow> [])"
  show thesis
  proof (cases "s' = s")
    case False
    then have s': "sLWM s' = sLWM s" "sNext s' = (sNext s)(st := sNext s st + length marks)"
      "\<exists>live. sDisk s' = setBytes st live (let b2 = add_records st (sNext s st) marks
          (delete_records st (map (\<lambda>d. (oOff d, oSignal d)) gone) (sDisk s)) in
          if sNext s st + length marks \<noteq> sNext s st then setHead st (sNext s st + length marks) b2 else b2)"
      using assms unfolding deleteSignalRecords_def Let_def writeAppend_eq gone_def [symmetric] marks_def [symmetric]
      by (auto split: if_split_asm)
    then obtain live where disk: "sDisk s' = setBytes st live (let b2 = add_records st (sNext s st) marks
          (delete_records st (map (\<lambda>d. (oOff d, oSignal d)) gone) (sDisk s)) in
          if sNext s st + length marks \<noteq> sNext s st then setHead st (sNext s st + length marks) b2 else b2)"
      by blast
    show thesis
    proof (rule removed [of gone])
      show "set gone \<subseteq> set ds" "\<forall>d \<in> set gone. sLWM s st \<le> oOff d \<and> oOff d < signal_floor st ov s"
        by (auto simp: gone_def)
      show "dRecs (sDisk s') st' off = (if st' = st \<and> off \<in> oOff ` set gone then None else dRecs (sDisk s) st' off)"
        if "st' \<noteq> st \<or> off < sNext s st" for st' off
        using that unfolding disk
        by (auto simp: Let_def setBytes_def setHead_def add_records_dRecs delete_records_recs image_image)
      show "dCursor (sDisk s') = dCursor (sDisk s)"
        unfolding disk by (simp add: Let_def setBytes_def setHead_def add_records_simps delete_records_def)
    qed (simp_all add: s'(1,2))
  qed (rule unchanged)
qed

lemma deleteSignalRecords_removal:
  assumes "deleteSignalRecords ok st ds ov marker s = (r, s')"
  shows "signal_removal st ov s s'"
  using assms
proof (cases rule: deleteSignalRecords_cases)
  case (removed gone)
  have "off < pos" if "off \<in> oOff ` set gone" "((name, st), pos) \<in> set (dCursor (sDisk s))" "ov name \<noteq> Some pos" for off name pos
    using that removed(2) signal_floor_le(2) [of name st pos s ov] by fastforce
  then show ?thesis
    using removed(2-7) unfolding signal_removal_def by (auto simp: fun_eq_iff)
qed simp

section \<open>Retention per signal keeps the value in force\<close>

text \<open>The record of a signal in force at a time: the latest timestamp not after it, the later offset on
  equal timestamps.\<close>

definition in_force :: "string \<Rightarrow> int \<Rightarrow> (nat \<times> recEnc) list \<Rightarrow> (nat \<times> recEnc) option" where
  "in_force sig t es =
     fold (\<lambda>r best. if xSignalID (snd r) = sig \<and> xTS (snd r) \<le> t \<and>
         (case best of None \<Rightarrow> True | Some q \<Rightarrow> xTS (snd q) \<le> xTS (snd r)) then Some r else best) es None"

definition rank :: "nat \<times> recEnc \<Rightarrow> int \<times> nat" where
  "rank r = (xTS (snd r), fst r)"

lemma in_force_iff:
  assumes "sorted_wrt (<) (map fst es)"
  shows "in_force sig t es = Some r \<longleftrightarrow>
      r \<in> set es \<and> xSignalID (snd r) = sig \<and> xTS (snd r) \<le> t \<and>
      (\<forall>q \<in> set es. xSignalID (snd q) = sig \<and> xTS (snd q) \<le> t \<longrightarrow> rank q \<le> rank r)"
    and "in_force sig t es = None \<longleftrightarrow> (\<forall>q \<in> set es. \<not> (xSignalID (snd q) = sig \<and> xTS (snd q) \<le> t))"
  using assms
proof (induction es arbitrary: r rule: rev_induct)
  case Nil
  { case 1 show ?case by (simp add: in_force_def) }
  { case 2 show ?case by (simp add: in_force_def) }
next
  case (snoc x es)
  have step: "in_force sig t (es @ [x]) = (if xSignalID (snd x) = sig \<and> xTS (snd x) \<le> t \<and>
      (case in_force sig t es of None \<Rightarrow> True | Some q \<Rightarrow> xTS (snd q) \<le> xTS (snd x)) then Some x else in_force sig t es)"
    by (simp add: in_force_def)
  {
    case 1
    then have sorted: "sorted_wrt (<) (map fst es)" and below: "\<forall>q \<in> set es. fst q < fst x" by (auto simp: sorted_wrt_append)
    show ?case
    proof (cases "in_force sig t es")
      case None
      then show ?thesis using snoc.IH(2) [OF sorted] step by auto
    next
      case (Some p)
      note p = snoc.IH(1) [OF sorted, of p, THEN iffD1, OF Some]
      show ?thesis
        using step Some p snoc.IH(1) [OF sorted, of r] below
        by (auto simp: rank_def less_eq_prod_def split: if_split_asm)
    qed
  next
    case 2
    then have sorted: "sorted_wrt (<) (map fst es)" by (simp add: sorted_wrt_append)
    show ?case using step snoc.IH(2) [OF sorted] by (auto split: option.split_asm)
  }
qed

text \<open>What a call has removed or is about to remove, and why that is harmless: a record of the same
  signal that stays, still before the window, is newer.\<close>

definition condemned :: "string \<Rightarrow> Store \<Rightarrow> prune_walk \<Rightarrow> nat set" where
  "condemned st s w =
     {off. off < sNext s st \<and> dRecs (sDisk (pwStore w)) st off \<noteq> dRecs (sDisk s) st off} \<union> oOff ` set (pwDoomed w)"

definition cutoff_of :: "prune_call \<Rightarrow> Store \<Rightarrow> string \<Rightarrow> int \<Rightarrow> bool" where
  "cutoff_of c s sig t \<longleftrightarrow>
     (\<exists>off e. dRecs (sDisk s) (pcStream c) off = Some e \<and> xSignalID e = sig \<and> signal_cutoff c sig e = Some t)"

definition outlived :: "prune_call \<Rightarrow> Store \<Rightarrow> nat set \<Rightarrow> nat \<Rightarrow> bool" where
  "outlived c s gone x \<longleftrightarrow>
     (\<exists>e y e' t. dRecs (sDisk s) (pcStream c) x = Some e \<and> dRecs (sDisk s) (pcStream c) y = Some e' \<and> y \<notin> gone \<and>
        sLWM s (pcStream c) \<le> y \<and> y < sNext s (pcStream c) \<and> xSignalID e' = xSignalID e \<and> rank (x, e) < rank (y, e') \<and>
        xTS e' < t \<and> cutoff_of c s (xSignalID e) t)"

definition walk_ok :: "prune_call \<Rightarrow> Store \<Rightarrow> prune_walk \<Rightarrow> bool" where
  "walk_ok c s w \<longleftrightarrow>
     signal_removal (pcStream c) (pcOverridden c) s (pwStore w) \<and>
     (\<forall>x \<in> condemned (pcStream c) s w. outlived c s (condemned (pcStream c) s w) x)"

lemma outlived_mono: "outlived c s gone x \<Longrightarrow> gone' \<subseteq> gone \<Longrightarrow> outlived c s gone' x"
  unfolding outlived_def by blast

text \<open>Condemning one more record keeps everyone outlived when a newer one stays.\<close>

lemma outlived_insert:
  assumes "\<forall>x \<in> gone. outlived c s gone x" and z: "outlived c s (insert z gone) z"
  shows "\<forall>x \<in> insert z gone. outlived c s (insert z gone) x"
proof
  fix x assume "x \<in> insert z gone"
  show "outlived c s (insert z gone) x"
  proof (cases "x = z")
    case False
    then have "outlived c s gone x" using assms(1) \<open>x \<in> insert z gone\<close> by simp
    then obtain e y e' t where x: "dRecs (sDisk s) (pcStream c) x = Some e" "dRecs (sDisk s) (pcStream c) y = Some e'" "y \<notin> gone"
        "sLWM s (pcStream c) \<le> y" "y < sNext s (pcStream c)" "xSignalID e' = xSignalID e" "rank (x, e) < rank (y, e')"
        "xTS e' < t" "cutoff_of c s (xSignalID e) t"
      unfolding outlived_def by blast
    show ?thesis
    proof (cases "y = z")
      case True
      then have e': "dRecs (sDisk s) (pcStream c) z = Some e'" using x(2) by simp
      obtain y1 e1 t1 where y1: "dRecs (sDisk s) (pcStream c) y1 = Some e1" "y1 \<notin> insert z gone"
        "sLWM s (pcStream c) \<le> y1" "y1 < sNext s (pcStream c)" "xSignalID e1 = xSignalID e'" "rank (z, e') < rank (y1, e1)"
        "xTS e1 < t1" "cutoff_of c s (xSignalID e') t1"
        using z e' unfolding outlived_def by auto
      have "rank (x, e) < rank (y1, e1)" using x(7) y1(6) True by (simp only: less_trans)
      then show ?thesis unfolding outlived_def
        by (intro exI [of _ e] exI [of _ y1] exI [of _ e1] exI [of _ t1]) (use x(1,6) y1 in simp)
    next
      case False
      then show ?thesis using x unfolding outlived_def by blast
    qed
  qed (simp add: z)
qed

lemma flush_walk_ok:
  assumes "walk_ok c s w" "\<forall>d \<in> set (pwDoomed w). oOff d < sNext s (pcStream c)"
  shows "walk_ok c s (flush_doomed c w)" "pwDoomed (flush_doomed c w) = []"
    "condemned (pcStream c) s (flush_doomed c w) \<subseteq> condemned (pcStream c) s w"
proof -
  define st where "st = pcStream c"
  obtain r s1 where del: "deleteSignalRecords (pcOk c (pwFlushes w)) st (pwDoomed w) (pcOverridden c)
      (map_option (\<lambda>m. m (spOverridden (pwRes w))) (pcMarker c)) (pwStore w) = (r, s1)" by fastforce
  show empty: "pwDoomed (flush_doomed c w) = []"
    using del by (cases r) (auto simp: flush_doomed_def st_def [symmetric])
  have store: "pwStore (flush_doomed c w) = (if pwDoomed w = [] then pwStore w else s1)"
    using del by (cases r) (auto simp: flush_doomed_def st_def [symmetric])
  have rem: "signal_removal st (pcOverridden c) s (pwStore w)" using assms(1) by (simp add: walk_ok_def st_def)
  have le: "sNext s st \<le> sNext (pwStore w) st" using rem by (simp add: signal_removal_def)
  have recs: "dRecs (sDisk s1) st off = dRecs (sDisk (pwStore w)) st off \<or> off \<in> oOff ` set (pwDoomed w)" if "off < sNext s st" for off
    using del
  proof (cases rule: deleteSignalRecords_cases)
    case (removed gone)
    then show ?thesis using removed(3) [of st off] removed(1) that le by auto
  qed simp
  show sub: "condemned (pcStream c) s (flush_doomed c w) \<subseteq> condemned (pcStream c) s w"
    unfolding condemned_def empty store st_def [symmetric] by (auto dest: recs)
  have "signal_removal st (pcOverridden c) s (pwStore (flush_doomed c w))"
    using signal_removal_trans [OF rem deleteSignalRecords_removal [OF del]] rem unfolding store by simp
  then show "walk_ok c s (flush_doomed c w)"
    using assms(1) sub outlived_mono [OF _ sub] unfolding walk_ok_def st_def by blast
qed

definition keep_ok :: "prune_call \<Rightarrow> Store \<Rightarrow> string \<Rightarrow> nat list \<Rightarrow> int option \<Rightarrow> nat set \<Rightarrow> doomedRec option \<Rightarrow> bool" where
  "keep_ok c s sig offs cf gone keep \<longleftrightarrow>
     (\<forall>t. cf = Some t \<longrightarrow> cutoff_of c s sig t) \<and>
     (\<forall>k. keep = Some k \<longrightarrow> (\<exists>t e. cf = Some t \<and> dRecs (sDisk s) (pcStream c) (oOff k) = Some e \<and> xSignalID e = sig \<and>
        oTS k = xTS e \<and> oTS k < t \<and> oOff k \<notin> gone \<and> sLWM s (pcStream c) \<le> oOff k \<and> oOff k < sNext s (pcStream c) \<and>
        (\<forall>off \<in> set offs. oOff k < off)))"

lemma keep_ok_mono:
  "keep_ok c s sig (off # offs) cf gone keep \<Longrightarrow> gone' \<subseteq> gone \<Longrightarrow> keep_ok c s sig offs cf gone' keep"
  unfolding keep_ok_def by fastforce

text \<open>The exchange of the kept candidate: whichever of the two goes is outlived by the other.\<close>

lemma exchange_ok:
  assumes keep: "keep_ok c s sig (off # offs) (Some t) gone (Some k)"
    and e: "dRecs (sDisk s) (pcStream c) off = Some e" "xSignalID e = sig" "xTS e < t" "off \<notin> gone"
      "sLWM s (pcStream c) \<le> off" "off < sNext s (pcStream c)" "\<forall>o' \<in> set offs. off < o'"
    and cand: "cand = \<lparr>oOff = off, oSignal = sig, oTS = xTS e, oSize = rec_size (pcStream c) e\<rparr>"
    and d: "d = (if oTS cand \<ge> oTS k then k else cand)" and keep': "keep' = (if oTS cand \<ge> oTS k then cand else k)"
  shows "outlived c s (insert (oOff d) gone) (oOff d)" "keep_ok c s sig offs (Some t) (insert (oOff d) gone) (Some keep')"
    "oOff d < sNext s (pcStream c)" "oOff d \<notin> set offs"
    "\<exists>e. dRecs (sDisk s) (pcStream c) (oOff d) = Some e \<and> xSignalID e = sig"
proof -
  obtain ek where k: "dRecs (sDisk s) (pcStream c) (oOff k) = Some ek" "xSignalID ek = sig" "oTS k = xTS ek" "oTS k < t"
      "oOff k \<notin> gone" "sLWM s (pcStream c) \<le> oOff k" "oOff k < sNext s (pcStream c)" "oOff k < off" "\<forall>o' \<in> set offs. oOff k < o'"
      "cutoff_of c s sig t"
    using keep unfolding keep_ok_def by auto
  have "outlived c s (insert (oOff d) gone) (oOff d) \<and> keep_ok c s sig offs (Some t) (insert (oOff d) gone) (Some keep')"
  proof (cases "oTS cand \<ge> oTS k")
    case True
    have "rank (oOff k, ek) < rank (off, e)" using True k(3,8) by (simp add: rank_def cand less_prod_def)
    then have "outlived c s (insert (oOff k) gone) (oOff k)"
      unfolding outlived_def
      by (intro exI [of _ ek] exI [of _ off] exI [of _ e] exI [of _ t]) (use k e in simp)
    then show ?thesis using True e k unfolding keep_ok_def by (simp add: d keep' cand)
  next
    case False
    have "rank (off, e) < rank (oOff k, ek)" using False k(3) by (simp add: rank_def cand less_prod_def)
    then have "outlived c s (insert off gone) off"
      unfolding outlived_def
      by (intro exI [of _ e] exI [of _ "oOff k"] exI [of _ ek] exI [of _ t]) (use k e in simp)
    then show ?thesis using False e k unfolding keep_ok_def by (simp add: d keep' cand)
  qed
  then show "outlived c s (insert (oOff d) gone) (oOff d)" "keep_ok c s sig offs (Some t) (insert (oOff d) gone) (Some keep')"
    by blast+
  show "oOff d < sNext s (pcStream c)" "oOff d \<notin> set offs" "\<exists>e. dRecs (sDisk s) (pcStream c) (oOff d) = Some e \<and> xSignalID e = sig"
    using k e by (auto simp: d cand)
qed

lemma condemned_simps [simp]:
  "condemned st s (w\<lparr>pwVisited := v\<rparr>) = condemned st s w" "condemned st s (w\<lparr>pwRes := r\<rparr>) = condemned st s w"
  "condemned st s (w\<lparr>pwDoomed := pwDoomed w @ [d]\<rparr>) = insert (oOff d) (condemned st s w)"
  by (auto simp: condemned_def)

lemma walk_ok_simps [simp]:
  "walk_ok c s (w\<lparr>pwVisited := v\<rparr>) = walk_ok c s w" "walk_ok c s (w\<lparr>pwRes := r\<rparr>) = walk_ok c s w"
  by (simp_all add: walk_ok_def)

lemma walk_read:
  assumes "walk_ok c s w" "dRecs (sDisk (pwStore w)) (pcStream c) off = Some e" "off < sNext s (pcStream c)"
    "off \<notin> oOff ` set (pwDoomed w)"
  shows "dRecs (sDisk s) (pcStream c) off = Some e" "off \<notin> condemned (pcStream c) s w"
proof -
  show "dRecs (sDisk s) (pcStream c) off = Some e"
    using assms(1-3) unfolding walk_ok_def signal_removal_def by (metis option.distinct(1))
  then show "off \<notin> condemned (pcStream c) s w" using assms by (simp add: condemned_def)
qed

text \<open>What the walk of one signal adds to the doomed records.\<close>

definition walk_adds :: "prune_call \<Rightarrow> Store \<Rightarrow> string \<Rightarrow> prune_walk \<Rightarrow> prune_walk \<Rightarrow> bool" where
  "walk_adds c s sig w w' \<longleftrightarrow> walk_ok c s w' \<and>
     (\<forall>d \<in> set (pwDoomed w'). oOff d < sNext s (pcStream c) \<and>
        (d \<in> set (pwDoomed w) \<or> (\<exists>e. dRecs (sDisk s) (pcStream c) (oOff d) = Some e \<and> xSignalID e = sig)))"

lemma walk_adds_trans: "walk_adds c s sig w w1 \<Longrightarrow> walk_adds c s sig w1 w2 \<Longrightarrow> walk_adds c s sig w w2"
  unfolding walk_adds_def by blast

lemma walk_adds_flush:
  assumes "walk_ok c s w" "\<forall>d \<in> set (pwDoomed w). oOff d < sNext s (pcStream c)"
  shows "walk_adds c s sig w0 (flush_doomed c w)"
  using flush_walk_ok [OF assms] by (simp add: walk_adds_def)

lemma walk_adds_refl:
  "walk_ok c s w \<Longrightarrow> \<forall>d \<in> set (pwDoomed w). oOff d < sNext s (pcStream c) \<Longrightarrow> walk_adds c s sig w (w\<lparr>pwVisited := v\<rparr>)"
  by (simp add: walk_adds_def)

lemma walk_exchange:
  assumes ok: "walk_ok c s w" and doomed: "\<forall>d \<in> set (pwDoomed w). oOff d < sNext s (pcStream c) \<and> oOff d \<notin> set offs"
    and k: "keep_ok c s sig (off # offs) (Some t) (condemned (pcStream c) s w) (Some k)"
    and e: "dRecs (sDisk s) (pcStream c) off = Some e" "xSignalID e = sig" "xTS e < t" "off \<notin> condemned (pcStream c) s w"
      "sLWM s (pcStream c) \<le> off" "off < sNext s (pcStream c)" "\<forall>o' \<in> set offs. off < o'"
    and cand: "cand = \<lparr>oOff = off, oSignal = sig, oTS = xTS e, oSize = rec_size (pcStream c) e\<rparr>"
    and d: "d = (if oTS cand \<ge> oTS k then k else cand)" and keep': "keep' = (if oTS cand \<ge> oTS k then cand else k)"
    and w': "w' = (if n then flush_doomed c (w\<lparr>pwDoomed := pwDoomed w @ [d]\<rparr>) else w\<lparr>pwDoomed := pwDoomed w @ [d]\<rparr>)"
  shows "walk_ok c s w'" "\<forall>d \<in> set (pwDoomed w'). oOff d < sNext s (pcStream c) \<and> oOff d \<notin> set offs"
    "keep_ok c s sig offs (Some t) (condemned (pcStream c) s w') (Some keep')" "walk_adds c s sig w w'"
proof -
  define w2 where "w2 = w\<lparr>pwDoomed := pwDoomed w @ [d]\<rparr>"
  note ex = exchange_ok [OF k e cand d keep']
  have c2: "condemned (pcStream c) s w2 = insert (oOff d) (condemned (pcStream c) s w)" by (simp add: w2_def)
  have ok2: "walk_ok c s w2" using outlived_insert [OF _ ex(1)] ok unfolding walk_ok_def c2 by (simp add: w2_def)
  have d2: "\<forall>d \<in> set (pwDoomed w2). oOff d < sNext s (pcStream c) \<and> oOff d \<notin> set offs"
    using doomed ex(3,4) by (auto simp: w2_def)
  have a2: "walk_adds c s sig w w2" using ok2 d2 ex(5) by (auto simp: walk_adds_def w2_def)
  have w': "w' = (if n then flush_doomed c w2 else w2)" using w' by (simp add: w2_def)
  have c3: "condemned (pcStream c) s w' \<subseteq> condemned (pcStream c) s w2" "set (pwDoomed w') \<subseteq> set (pwDoomed w2)"
    using flush_walk_ok [OF ok2] d2 by (auto simp: w')
  show ok3: "walk_ok c s w'" using flush_walk_ok(1) [OF ok2] d2 ok2 by (simp add: w')
  show "\<forall>d \<in> set (pwDoomed w'). oOff d < sNext s (pcStream c) \<and> oOff d \<notin> set offs" using d2 c3(2) by blast
  show "keep_ok c s sig offs (Some t) (condemned (pcStream c) s w') (Some keep')"
    using ex(2) c3(1) unfolding c2 keep_ok_def by blast
  show "walk_adds c s sig w w'" using a2 ok3 c3(2) unfolding walk_adds_def by blast
qed

text \<open>One step of the walk at an offset below the clamp whose record is read.\<close>

lemma walk_signal_read:
  assumes "off < pcClamp c" "dRecs (sDisk (pwStore w)) (pcStream c) off = Some e"
    and w1: "w1 = w\<lparr>pwVisited := Suc (pwVisited w)\<rparr>" and cf': "cf' = (case cf of Some t \<Rightarrow> Some t | None \<Rightarrow> signal_cutoff c sig e)"
    and cand: "cand = \<lparr>oOff = off, oSignal = sig, oTS = xTS e, oSize = rec_size (pcStream c) e\<rparr>"
  obtains (stop) "fst (walk_signal c sig (off # offs) cf keep w) = flush_doomed c (w1\<lparr>pwRes := (pwRes w1)\<lparr>spResume := sig\<rparr>\<rparr>)"
  | (window) "fst (walk_signal c sig (off # offs) cf keep w) = w1"
  | (first) t where "cf' = Some t" "xTS e < t" "keep = None"
      "fst (walk_signal c sig (off # offs) cf keep w) = fst (walk_signal c sig offs (Some t) (Some cand) w1)"
  | (exchange) t k d n w3 where "cf' = Some t" "xTS e < t" "keep = Some k" "d = (if oTS cand \<ge> oTS k then k else cand)"
      "w3 = (if n then flush_doomed c (w1\<lparr>pwDoomed := pwDoomed w1 @ [d]\<rparr>) else w1\<lparr>pwDoomed := pwDoomed w1 @ [d]\<rparr>)"
      "fst (walk_signal c sig (off # offs) cf keep w) = w3 \<or>
       fst (walk_signal c sig (off # offs) cf keep w) =
         fst (walk_signal c sig offs (Some t) (Some (if oTS cand \<ge> oTS k then cand else k)) w3)"
proof -
  have eq: "walk_signal c sig (off # offs) cf keep w =
    (if pcMaxVisit c > 0 \<and> pwVisited w1 > pcMaxVisit c
     then (flush_doomed c (w1\<lparr>pwRes := (pwRes w1)\<lparr>spResume := sig\<rparr>\<rparr>), True)
     else case cf' of None \<Rightarrow> (w1, False)
       | Some t \<Rightarrow>
           if xTS e \<ge> t then (w1, False)
           else case keep of None \<Rightarrow> walk_signal c sig offs (Some t) (Some cand) w1
             | Some k \<Rightarrow>
                 let d = (if oTS cand \<ge> oTS k then k else cand);
                     w2 = w1\<lparr>pwDoomed := pwDoomed w1 @ [d]\<rparr>;
                     w3 = (if length (pwDoomed w2) \<ge> signalPruneBatch then flush_doomed c w2 else w2)
                 in if pwErr w3 \<noteq> None then (w3, True)
                    else walk_signal c sig offs (Some t) (Some (if oTS cand \<ge> oTS k then cand else k)) w3)"
    using assms(1,2) unfolding walk_signal.simps w1 cf' cand Let_def by (simp only: Suc_eq_plus1 not_le [symmetric] if_False option.case)
  show thesis
  proof (cases "pcMaxVisit c > 0 \<and> pwVisited w1 > pcMaxVisit c")
    case True
    then show thesis using stop eq by simp
  next
    case visit: False
    show thesis
    proof (cases "\<exists>t. cf' = Some t \<and> xTS e < t")
      case False
      then have "fst (walk_signal c sig (off # offs) cf keep w) = w1"
        unfolding eq using visit by (cases cf') auto
      then show thesis by (rule window)
    next
      case True
      then obtain t where t: "cf' = Some t" "xTS e < t" by blast
      show thesis
      proof (cases keep)
        case None
        then show thesis using first [OF t] eq visit t by simp
      next
        case (Some k)
        show thesis
          by (rule exchange [OF t Some refl refl, of "length (pwDoomed w1) + 1 \<ge> signalPruneBatch"])
            (use eq visit t Some in \<open>simp add: Let_def\<close>)
      qed
    qed
  qed
qed

lemma walk_signal_adds:
  assumes "walk_ok c s w" "\<forall>d \<in> set (pwDoomed w). oOff d < sNext s (pcStream c) \<and> oOff d \<notin> set offs"
    and "keep_ok c s sig offs cf (condemned (pcStream c) s w) keep" "sorted_wrt (<) offs" "pcClamp c \<le> sNext s (pcStream c)"
    and "\<forall>off \<in> set offs. sLWM s (pcStream c) \<le> off \<and> (\<forall>e. dRecs (sDisk s) (pcStream c) off = Some e \<longrightarrow> xSignalID e = sig)"
  shows "walk_adds c s sig w (fst (walk_signal c sig offs cf keep w))"
  using assms
proof (induction offs arbitrary: cf keep w)
  case Nil
  then show ?case by (simp add: walk_adds_def)
next
  case (Cons off offs)
  let ?st = "pcStream c"
  define w1 where "w1 = w\<lparr>pwVisited := Suc (pwVisited w)\<rparr>"
  have w1: "walk_ok c s w1" "pwDoomed w1 = pwDoomed w" "condemned ?st s w1 = condemned ?st s w" "walk_adds c s sig w w1"
    using Cons.prems(1,2) by (simp_all add: w1_def walk_adds_refl)
  have doomed: "\<forall>d \<in> set (pwDoomed w1). oOff d < sNext s ?st \<and> oOff d \<notin> set offs" using Cons.prems(2) w1(2) by simp
  have sorted: "sorted_wrt (<) offs" "\<forall>o' \<in> set offs. off < o'" using Cons.prems(4) by simp_all
  have IH: "walk_adds c s sig w (fst (walk_signal c sig offs cf keep w'))"
    if "walk_ok c s w'" "\<forall>d \<in> set (pwDoomed w'). oOff d < sNext s ?st \<and> oOff d \<notin> set offs"
      "keep_ok c s sig offs cf (condemned ?st s w') keep" "walk_adds c s sig w w'" for cf keep w'
    by (rule walk_adds_trans [OF that(4) Cons.IH [OF that(1-3) sorted(1) Cons.prems(5)]]) (use Cons.prems(6) in simp)
  consider "off \<ge> pcClamp c" | "off < pcClamp c" "dRecs (sDisk (pwStore w)) ?st off = None"
    | e where "off < pcClamp c" "dRecs (sDisk (pwStore w)) ?st off = Some e" by fastforce
  then show ?case
  proof cases
    case 1
    then show ?thesis using Cons.prems(1,2) by (simp add: walk_adds_def)
  next
    case 2
    have "keep_ok c s sig offs cf (condemned ?st s w1) keep" using keep_ok_mono [OF Cons.prems(3)] w1(3) by simp
    from IH [OF w1(1) doomed this w1(4)] show ?thesis using 2 by (simp add: w1_def)
  next
    case (3 e)
    have in_range: "off < sNext s ?st" using 3(1) Cons.prems(5) by simp
    have "off \<notin> oOff ` set (pwDoomed w)" using Cons.prems(2) by auto
    note read = walk_read [OF Cons.prems(1) 3(2) in_range this]
    have sig: "xSignalID e = sig" "sLWM s ?st \<le> off" using Cons.prems(6) read(1) by simp_all
    define cf' where "cf' = (case cf of Some t \<Rightarrow> Some t | None \<Rightarrow> signal_cutoff c sig e)"
    have cf': "cutoff_of c s sig t" if "cf' = Some t" for t
      using Cons.prems(3) read(1) sig(1) that unfolding cf'_def keep_ok_def cutoff_of_def by (cases cf) auto
    define cand where "cand = \<lparr>oOff = off, oSignal = sig, oTS = xTS e, oSize = rec_size ?st e\<rparr>"
    from 3 w1_def cf'_def cand_def show ?thesis
    proof (cases rule: walk_signal_read [where keep = keep and offs = offs])
      case stop
      then show ?thesis
        using walk_adds_flush [of c s "w1\<lparr>pwRes := (pwRes w1)\<lparr>spResume := sig\<rparr>\<rparr>" sig w] w1(1) doomed by simp
    next
      case window
      then show ?thesis using w1(4) by simp
    next
      case (first t)
      have "keep_ok c s sig offs (Some t) (condemned ?st s w1) (Some cand)"
        using cf' first read sig sorted(2) in_range w1(3) unfolding keep_ok_def by (simp add: cand_def)
      from IH [OF w1(1) doomed this w1(4)] show ?thesis unfolding first(4) .
    next
      case (exchange t k d n w3)
      have "cf = Some t" using Cons.prems(3) exchange unfolding cf'_def keep_ok_def by auto
      then have k: "keep_ok c s sig (off # offs) (Some t) (condemned ?st s w1) (Some k)"
        using Cons.prems(3) exchange(3) w1(3) by simp
      note x = walk_exchange [OF w1(1) doomed k read(1) sig(1) exchange(2) _ sig(2) in_range sorted(2) cand_def exchange(4) refl exchange(5)]
      have n: "off \<notin> condemned ?st s w1" using read(2) w1(3) by simp
      have a: "walk_adds c s sig w w3" using walk_adds_trans [OF w1(4) x(4) [OF n]] .
      from exchange(6) IH [OF x(1-3) [OF n] a] a show ?thesis by metis
    qed
  qed
qed

definition index_sound :: "string \<Rightarrow> Disk \<Rightarrow> bool" where
  "index_sound st d \<longleftrightarrow> (\<forall>sig off e. (st, sig, off) \<in> dSig d \<and> dRecs d st off = Some e \<longrightarrow> xSignalID e = sig)"

lemma mem_sorted_list: "x \<in> set (sorted_list_of_set A) \<Longrightarrow> x \<in> A"
  by (cases "finite A") auto

lemma index_offsets_mem: "off \<in> set (index_offsets st sig from d) \<Longrightarrow> (st, sig, off) \<in> dSig d \<and> from \<le> off"
  unfolding index_offsets_def by (drule mem_sorted_list) auto

lemma walk_signals_ok:
  assumes "index_sound (pcStream c) (sDisk s)" "pcClamp c \<le> sNext s (pcStream c)" "walk_ok c s w" "distinct sigs"
    and "\<forall>d \<in> set (pwDoomed w). oOff d < sNext s (pcStream c) \<and>
      (\<exists>e. dRecs (sDisk s) (pcStream c) (oOff d) = Some e \<and> xSignalID e \<notin> set sigs)"
  shows "walk_ok c s (walk_signals c (sLWM s (pcStream c)) (sDisk s) sigs w)"
  using assms(3-5)
proof (induction sigs arbitrary: w)
  case Nil
  then show ?case using flush_walk_ok(1) by simp
next
  case (Cons sig sigs)
  let ?st = "pcStream c" and ?offs = "index_offsets (pcStream c) sig (sLWM s (pcStream c)) (sDisk s)"
  define w1 where "w1 = w\<lparr>pwRes := (pwRes w)\<lparr>spSignals := spSignals (pwRes w) + 1\<rparr>\<rparr>"
  have w1: "walk_ok c s w1" "pwDoomed w1 = pwDoomed w" using Cons.prems(1) by (simp_all add: w1_def)
  have offs: "\<forall>off \<in> set ?offs. sLWM s ?st \<le> off \<and> (\<forall>e. dRecs (sDisk s) ?st off = Some e \<longrightarrow> xSignalID e = sig)"
    using assms(1) index_offsets_mem by (fastforce simp: index_sound_def)
  have "\<forall>d \<in> set (pwDoomed w1). oOff d < sNext s ?st \<and> oOff d \<notin> set ?offs"
    using Cons.prems(3) offs unfolding w1(2) by fastforce
  then have adds: "walk_adds c s sig w1 (fst (walk_signal c sig ?offs None None w1))"
    by (intro walk_signal_adds [OF w1(1) _ _ _ assms(2) offs]) (simp_all add: keep_ok_def index_offsets_def)
  define w2 where "w2 = fst (walk_signal c sig ?offs None None w1)"
  have w2: "walk_ok c s w2" "\<forall>d \<in> set (pwDoomed w2). oOff d < sNext s ?st \<and>
      (\<exists>e. dRecs (sDisk s) ?st (oOff d) = Some e \<and> xSignalID e \<notin> set sigs)"
    using adds Cons.prems(2,3) unfolding walk_adds_def w2_def [symmetric] w1(2) by (auto, metis)
  have "walk_ok c s (walk_signals c (sLWM s ?st) (sDisk s) sigs w2)" using Cons.IH [OF w2(1) _ w2(2)] Cons.prems(2) by simp
  moreover have "walk_ok c s (flush_doomed c (w\<lparr>pwRes := (pwRes w)\<lparr>spResume := sig\<rparr>\<rparr>))"
    using flush_walk_ok(1) [of c s "w\<lparr>pwRes := (pwRes w)\<lparr>spResume := sig\<rparr>\<rparr>"] Cons.prems by simp
  ultimately show ?case
    using w2(1) unfolding walk_signals.simps Let_def w1_def [symmetric] w2_def by (simp add: case_prod_beta)
qed

lemma PruneSignals_ok:
  assumes "PruneSignals c from s = (r, s')" "index_sound (pcStream c) (sDisk s)"
  obtains w where "walk_ok c s w" "pwStore w = s'"
proof -
  define w0 where "w0 = \<lparr>pwRes = no_prune_result, pwDoomed = [], pwVisited = 0, pwFlushes = 0, pwStore = s, pwErr = None\<rparr>"
  define c1 where "c1 = c\<lparr>pcClamp := min (pcClamp c) (sNext s (pcStream c))\<rparr>"
  define w where "w = walk_signals c1 (sLWM s (pcStream c)) (sDisk s) (index_signals (pcStream c) from (sDisk s)) w0"
  have "signal_cutoff c1 = signal_cutoff c" "pcStream c1 = pcStream c" "pcOverridden c1 = pcOverridden c"
    by (auto simp: c1_def fun_eq_iff signal_cutoff_def split: option.split)
  then have c1: "pcStream c1 = pcStream c" "walk_ok c1 s w' = walk_ok c s w'" for w'
    by (simp_all add: walk_ok_def outlived_def cutoff_of_def)
  have start: "walk_ok c s w0" by (simp add: walk_ok_def condemned_def w0_def)
  have "walk_ok c1 s w"
    unfolding w_def c1(1) [symmetric]
  proof (rule walk_signals_ok)
    show "pcClamp c1 \<le> sNext s (pcStream c1)" by (simp add: c1_def)
  qed (use assms(2) start c1 in \<open>simp_all add: index_signals_def, simp add: w0_def\<close>)
  then show thesis
    using that [of w] that [OF start] assms(1) unfolding PruneSignals_def Let_def c1_def [symmetric] w_def w0_def c1
    by (auto split: if_split_asm)
qed

lemma in_force_filter:
  assumes "sorted_wrt (<) (map fst es)"
    and "\<And>q. q \<in> set es \<Longrightarrow> \<not> P q \<Longrightarrow> xSignalID (snd q) = sig \<Longrightarrow>
      \<exists>p \<in> set es. xSignalID (snd p) = sig \<and> xTS (snd p) \<le> T \<and> rank q < rank p"
  shows "in_force sig T (filter P es) = in_force sig T es"
proof -
  have sorted': "sorted_wrt (<) (map fst (filter P es))"
    using assms(1) by (simp add: sorted_wrt_filter sorted_wrt_map)
  show ?thesis
  proof (cases "in_force sig T es")
    case None
    have "in_force sig T (filter P es) = None"
      unfolding in_force_iff(2) [OF sorted'] using None [unfolded in_force_iff(2) [OF assms(1)]] by auto
    then show ?thesis using None by simp
  next
    case (Some q)
    note q = Some [unfolded in_force_iff(1) [OF assms(1)]]
    have "P q"
    proof (rule ccontr)
      assume "\<not> P q"
      then obtain p where "p \<in> set es" "xSignalID (snd p) = sig" "xTS (snd p) \<le> T" "rank q < rank p"
        using assms(2) [of q] q by blast
      then show False using q by (auto simp: not_le [symmetric])
    qed
    then have "in_force sig T (filter P es) = Some q" unfolding in_force_iff(1) [OF sorted'] using q by auto
    then show ?thesis using Some by simp
  qed
qed

text \<open>C8: Retention per signal never changes the value in force. Whatever one call removes - in however
  many batches, whichever of its commits fail - at every time that no window of a signal opens after, the
  record of the signal in force (the latest timestamp, the later offset on a tie) is the one before the
  call; and every record removed is older than a window the rules give its signal. The signal index points
  at records of its signals.\<close>

theorem signal_retention_keeps_value:
  assumes "PruneSignals c from s = (r, s')" "index_sound (pcStream c) (sDisk s)" "st = pcStream c"
  shows "(\<forall>sig T. (\<forall>t. cutoff_of c s sig t \<longrightarrow> t \<le> T) \<longrightarrow>
      in_force sig T (scanStream st (sLWM s st) (sNext s st) (sDisk s')) =
      in_force sig T (scanStream st (sLWM s st) (sNext s st) (sDisk s))) \<and>
    (\<forall>off e. off < sNext s st \<and> dRecs (sDisk s) st off = Some e \<and> dRecs (sDisk s') st off \<noteq> Some e \<longrightarrow>
      (\<exists>t. cutoff_of c s (xSignalID e) t \<and> xTS e < t))"
proof -
  obtain w where w: "walk_ok c s w" "pwStore w = s'" by (rule PruneSignals_ok [OF assms(1,2)])
  define G where "G = condemned st s w"
  have out: "outlived c s G x" if "x < sNext s st" "dRecs (sDisk s') st x \<noteq> dRecs (sDisk s) st x" for x
    using w that unfolding walk_ok_def assms(3) [symmetric] G_def by (auto simp: condemned_def)
  have rem: "dRecs (sDisk s') st off = (if off \<in> G \<and> dRecs (sDisk s') st off = None then None else dRecs (sDisk s) st off)"
    if "off < sNext s st" for off
    using w that unfolding walk_ok_def assms(3) [symmetric] signal_removal_def G_def condemned_def by auto
  have "in_force sig T (scanStream st (sLWM s st) (sNext s st) (sDisk s')) =
      in_force sig T (scanStream st (sLWM s st) (sNext s st) (sDisk s))" if T: "\<forall>t. cutoff_of c s sig t \<longrightarrow> t \<le> T" for sig T
  proof -
    let ?P = "\<lambda>r. \<not> (fst r \<in> G \<and> dRecs (sDisk s') st (fst r) = None)"
    have scan: "scanStream st (sLWM s st) (sNext s st) (sDisk s') = filter ?P (scanStream st (sLWM s st) (sNext s st) (sDisk s))"
      by (intro scanStream_filter) (use rem in auto)
    have "\<exists>p \<in> set (scanStream st (sLWM s st) (sNext s st) (sDisk s)).
        xSignalID (snd p) = sig \<and> xTS (snd p) \<le> T \<and> rank q < rank p"
      if q: "q \<in> set (scanStream st (sLWM s st) (sNext s st) (sDisk s))" "\<not> ?P q" "xSignalID (snd q) = sig" for q
    proof -
      have "outlived c s G (fst q)" using q by (intro out) (auto simp: scanned)
      then obtain y e' t where y: "dRecs (sDisk s) st y = Some e'" "sLWM s st \<le> y" "y < sNext s st" "xSignalID e' = sig"
          "rank q < rank (y, e')" "xTS e' < t" "cutoff_of c s sig t"
        using q unfolding outlived_def assms(3) [symmetric] by (auto simp: scanned)
      then show ?thesis using T by (intro bexI [of _ "(y, e')"]) (auto simp: scanned)
    qed
    then show ?thesis unfolding scan by (rule in_force_filter [OF scanStream_sorted])
  qed
  moreover have "\<exists>t. cutoff_of c s (xSignalID e) t \<and> xTS e < t"
    if e: "off < sNext s st" "dRecs (sDisk s) st off = Some e" "dRecs (sDisk s') st off \<noteq> Some e" for off e
    using out [of off] e unfolding outlived_def assms(3) [symmetric] by (fastforce simp: rank_def less_prod_def)
  ultimately show ?thesis by blast
qed

text \<open>C31: Retention per signal passes no consumer. A record at or after a cursor that is not overridden, or
  that moved since the caller decided to override it, stays; the low-water mark, every other stream and the
  cursors are as before.\<close>

theorem signal_retention_respects_cursors:
  assumes "PruneSignals c from s = (r, s')" "index_sound (pcStream c) (sDisk s)" "st = pcStream c"
    and "((name, st), pos) \<in> set (dCursor (sDisk s))" "pcOverridden c name \<noteq> Some pos"
  shows "(\<forall>off. pos \<le> off \<and> off < sNext s st \<longrightarrow> dRecs (sDisk s') st off = dRecs (sDisk s) st off) \<and>
    sLWM s' = sLWM s \<and> dCursor (sDisk s') = dCursor (sDisk s) \<and>
    (\<forall>st'. st' \<noteq> st \<longrightarrow> sNext s' st' = sNext s st' \<and> dRecs (sDisk s') st' = dRecs (sDisk s) st')"
proof -
  obtain w where w: "walk_ok c s w" "pwStore w = s'" by (rule PruneSignals_ok [OF assms(1,2)])
  have "signal_removal st (pcOverridden c) s s'" using w by (simp add: walk_ok_def assms(3))
  then show ?thesis using assms(4,5) unfolding signal_removal_def by (metis leD)
qed

text \<open>Three samples of one signal before the window, and a consumer between them.\<close>

definition demo_samples :: Store where
  "demo_samples = new_store\<lparr>sNext := (sNext new_store)(''metrics'' := 4),
     sDisk := (sDisk new_store)\<lparr>dCursor := [((''historian'', ''metrics''), 3)],
       dSig := {(''metrics'', ''S1'', 1), (''metrics'', ''S1'', 2), (''metrics'', ''S1'', 3)},
       dRecs := (\<lambda>st off. if st = ''metrics'' \<and> 1 \<le> off \<and> off < 4 then Some (encode_record off demo_metric) else None)\<rparr>\<rparr>"

definition demo_call :: prune_call where
  "demo_call = \<lparr>pcOk = (\<lambda>_. True), pcStream = ''metrics'', pcNow = 5000000000, pcRule = (\<lambda>_ _. Some 1000000000), pcClamp = 4,
     pcOverridden = Map.empty, pcMaxVisit = 0, pcMarker = None\<rparr>"

lemma demo_metric_signal: "record_signal demo_metric = ''S1''"
  by code_simp

lemma demo_samples_sound: "index_sound ''metrics'' (sDisk demo_samples)"
  by (auto simp: index_sound_def demo_samples_def demo_metric_signal)

theorem signal_retention_keeps_value_witness:
  "index_sound ''metrics'' (sDisk demo_samples) \<and> cutoff_of demo_call demo_samples ''S1'' 4000 \<and>
   in_force ''S1'' 4000 (scanStream ''metrics'' 1 4 (sDisk (snd (PruneSignals demo_call '''' demo_samples)))) =
     Some (3, encode_record 3 demo_metric)"
proof -
  obtain r s' where p: "PruneSignals demo_call '''' demo_samples = (r, s')" by fastforce
  have st: "''metrics'' = pcStream demo_call" by (simp add: demo_call_def)
  have m: "sLWM demo_samples ''metrics'' = 1" "sNext demo_samples ''metrics'' = 4"
    by (simp_all add: demo_samples_def new_store_eq streams_def)
  have cut: "signal_cutoff demo_call ''S1'' e = Some 4000" for e
    by (simp add: signal_cutoff_def demo_call_def UnixMilli_def)
  have c: "cutoff_of demo_call demo_samples ''S1'' 4000"
    unfolding cutoff_of_def cut
    by (rule exI [of _ 1], rule exI [of _ "encode_record 1 demo_metric"])
      (simp add: demo_call_def demo_samples_def demo_metric_signal)
  have "\<forall>t. cutoff_of demo_call demo_samples ''S1'' t \<longrightarrow> t \<le> 4000" by (auto simp: cutoff_of_def cut)
  then have "in_force ''S1'' 4000 (scanStream ''metrics'' 1 4 (sDisk s')) =
      in_force ''S1'' 4000 (scanStream ''metrics'' 1 4 (sDisk demo_samples))"
    using signal_retention_keeps_value [OF p demo_samples_sound [unfolded st] st] m by simp
  also have "\<dots> = Some (3, encode_record 3 demo_metric)"
    by (simp add: scanStream_def upt_rec demo_samples_def List.map_filter_simps in_force_def demo_metric_signal numeral_3_eq_3
        demo_metric_def [THEN arg_cong [of _ _ rTS]] zero_record_def)
  finally show ?thesis using p c demo_samples_sound by simp
qed

theorem signal_retention_respects_cursors_witness:
  "index_sound ''metrics'' (sDisk demo_samples) \<and> ((''historian'', ''metrics''), 3) \<in> set (dCursor (sDisk demo_samples)) \<and>
   pcOverridden demo_call ''historian'' \<noteq> Some 3 \<and>
   dRecs (sDisk (snd (PruneSignals demo_call '''' demo_samples))) ''metrics'' 3 = Some (encode_record 3 demo_metric)"
proof -
  obtain r s' where p: "PruneSignals demo_call '''' demo_samples = (r, s')" by fastforce
  have st: "''metrics'' = pcStream demo_call" by (simp add: demo_call_def)
  have m: "sNext demo_samples ''metrics'' = 4" by (simp add: demo_samples_def)
  have c: "((''historian'', ''metrics''), 3) \<in> set (dCursor (sDisk demo_samples))" "pcOverridden demo_call ''historian'' \<noteq> Some 3"
    by (simp_all add: demo_samples_def demo_call_def)
  have "dRecs (sDisk s') ''metrics'' 3 = dRecs (sDisk demo_samples) ''metrics'' 3"
    using signal_retention_respects_cursors [OF p demo_samples_sound [unfolded st] st c] m by simp
  then show ?thesis using p c demo_samples_sound by (simp add: demo_samples_def)
qed

section \<open>Moves keep values\<close>

definition move_src :: "RetainedMove \<Rightarrow> kvkey" where
  "move_src m = (mvFromPath m, mvNode m, mvFromTopic m)"

definition move_dst :: "RetainedMove \<Rightarrow> kvkey" where
  "move_dst m = (mvToPath m, mvNode m, mvToTopic m)"

text \<open>The entry a move leaves at its destination.\<close>

definition moved_entry :: "RetainedMove \<Rightarrow> kvEnc \<Rightarrow> nat \<Rightarrow> kvEnc" where
  "moved_entry m held off = held\<lparr>vTopic := mvToTopic m, vOffset := off, vOriginOffset := off\<rparr>"

lemma kv_puts_move:
  assumes "mvFromPath m \<noteq> ''''" "mvToPath m \<noteq> ''''" "move_src m \<noteq> move_dst m"
  shows "kv_puts off (move_records auth d m) kv =
    (case map_of (dKV d) (move_src m) of
       None \<Rightarrow> kv
     | Some held \<Rightarrow>
         (if map_of (dKV d) (move_dst m) = None then kv(move_dst m \<mapsto> moved_entry m held off) else kv)(move_src m := None))"
  using assms
  by (auto simp: move_records_def kvEntryLocked_def kv_put_def kv_key_def move_src_def move_dst_def moved_entry_def encode_kv_def
      record_origin_def zero_record_def fun_upd_twist split: option.split)

lemma kv_puts_moves:
  assumes "distinct (map move_src ms @ map move_dst ms)" "\<forall>m \<in> set ms. mvFromPath m \<noteq> '''' \<and> mvToPath m \<noteq> ''''"
  shows "(\<forall>k. k \<notin> move_src ` set ms \<union> move_dst ` set ms \<longrightarrow> kv_puts off (concat (map (move_records auth d) ms)) kv k = kv k) \<and>
    (\<forall>m \<in> set ms. \<exists>off' kv1. kv1 (move_src m) = kv (move_src m) \<and> kv1 (move_dst m) = kv (move_dst m) \<and>
      (\<forall>k \<in> {move_src m, move_dst m}. kv_puts off (concat (map (move_records auth d) ms)) kv k = kv_puts off' (move_records auth d m) kv1 k))"
  using assms
proof (induction ms arbitrary: off kv)
  case (Cons x ms)
  define kv1 where "kv1 = kv_puts off (move_records auth d x) kv"
  define off1 where "off1 = off + length (move_records auth d x)"
  have paths: "mvFromPath x \<noteq> ''''" "mvToPath x \<noteq> ''''" "move_src x \<noteq> move_dst x" using Cons.prems by auto
  have same: "kv1 k = kv k" if "k \<noteq> move_src x" "k \<noteq> move_dst x" for k
    using that by (auto simp: kv1_def kv_puts_move [OF paths] split: option.split)
  have all: "kv_puts off (concat (map (move_records auth d) (x # ms))) kv = kv_puts off1 (concat (map (move_records auth d) ms)) kv1"
    by (simp add: kv_puts_append kv1_def off1_def)
  have ms: "distinct (map move_src ms @ map move_dst ms)" "\<forall>m \<in> set ms. mvFromPath m \<noteq> '''' \<and> mvToPath m \<noteq> ''''"
    using Cons.prems by auto
  note IH = Cons.IH [OF ms, of off1 kv1, THEN conjunct1, rule_format] Cons.IH [OF ms, of off1 kv1, THEN conjunct2, rule_format]
  show ?case
    unfolding all
  proof (intro conjI allI impI ballI)
    fix k assume "k \<notin> move_src ` set (x # ms) \<union> move_dst ` set (x # ms)"
    then show "kv_puts off1 (concat (map (move_records auth d) ms)) kv1 k = kv k" using IH(1) [of k] same [of k] by simp
  next
    fix m assume m: "m \<in> set (x # ms)"
    show "\<exists>off' kv1'. kv1' (move_src m) = kv (move_src m) \<and> kv1' (move_dst m) = kv (move_dst m) \<and>
      (\<forall>k \<in> {move_src m, move_dst m}. kv_puts off1 (concat (map (move_records auth d) ms)) kv1 k = kv_puts off' (move_records auth d m) kv1' k)"
    proof (cases "m = x")
      case True
      have "move_src x \<notin> move_src ` set ms \<union> move_dst ` set ms" "move_dst x \<notin> move_src ` set ms \<union> move_dst ` set ms"
        using Cons.prems(1) by auto
      then show ?thesis
        unfolding True using IH(1) [of "move_src x"] IH(1) [of "move_dst x"]
        by (intro exI [of _ off] exI [of _ kv]) (simp add: kv1_def)
    next
      case False
      then have "move_src m \<in> move_src ` set ms" "move_dst m \<in> move_dst ` set ms" using m by simp_all
      then have "kv1 (move_src m) = kv (move_src m)" "kv1 (move_dst m) = kv (move_dst m)"
        using Cons.prems(1) by (auto intro!: same)
      then show ?thesis using IH(2) [of m] False m by simp
    qed
  qed
qed simp

text \<open>C32: What a batch of moves does to the current state, for moves whose sources and destinations are all
  different positions. Every source is retracted. A free destination afterwards holds the payload, time and
  author its source held. An occupied destination keeps the record it had, and the value of the source is
  dropped. A move without a record at its source changes nothing, and neither does the batch change any
  entry that no move names.\<close>

theorem move_keeps_values:
  assumes "MoveRetained rt True st ms auth s = (Inr (written, first), s')"
    and "distinct (map move_src ms @ map move_dst ms)" "\<forall>m \<in> set ms. mvFromPath m \<noteq> '''' \<and> mvToPath m \<noteq> ''''"
    and "kv = map_of (dKV (sDisk s))" "kv' = map_of (dKV (sDisk s'))"
  shows "(\<forall>k. k \<notin> move_src ` set ms \<union> move_dst ` set ms \<longrightarrow> kv' k = kv k) \<and>
    (\<forall>m \<in> set ms. kv' (move_src m) = None \<and>
      (case (kv (move_src m), kv (move_dst m)) of
         (None, v) \<Rightarrow> kv' (move_dst m) = v
       | (Some held, Some v) \<Rightarrow> kv' (move_dst m) = Some v
       | (Some held, None) \<Rightarrow> \<exists>off. kv' (move_dst m) = Some (moved_entry m held off)))"
proof -
  define recs where "recs = concat (map (move_records auth (sDisk s)) ms)"
  have kv': "kv' = kv_puts (sNext s st) recs kv"
  proof (cases "recs = []")
    case True
    then show ?thesis using assms(1,4,5) unfolding MoveRetained_def Let_def recs_def [symmetric] by simp
  next
    case False
    then obtain x where "appendLocked rt True st recs s = (Inr x, s')"
      using assms(1) unfolding MoveRetained_def Let_def recs_def [symmetric] by (auto split: prod.split_asm sum.split_asm)
    then show ?thesis using append_KV(1) [of rt True st recs s "fst x" "snd x" s'] assms(4,5) by simp
  qed
  note puts = kv_puts_moves [OF assms(2,3), of "sNext s st" auth "sDisk s" kv, folded recs_def, folded kv']
  have "kv' (move_src m) = None \<and>
      (case (kv (move_src m), kv (move_dst m)) of
         (None, v) \<Rightarrow> kv' (move_dst m) = v
       | (Some held, Some v) \<Rightarrow> kv' (move_dst m) = Some v
       | (Some held, None) \<Rightarrow> \<exists>off. kv' (move_dst m) = Some (moved_entry m held off))" if m: "m \<in> set ms" for m
  proof -
    obtain off1 kv1 where "kv1 (move_src m) = kv (move_src m)" "kv1 (move_dst m) = kv (move_dst m)"
      "\<forall>k \<in> {move_src m, move_dst m}. kv' k = kv_puts off1 (move_records auth (sDisk s) m) kv1 k"
      using puts m by blast
    moreover have "mvFromPath m \<noteq> ''''" "mvToPath m \<noteq> ''''" "move_src m \<noteq> move_dst m" using assms(2,3) m by auto
    ultimately show ?thesis
      using assms(4) by (auto simp: kv_puts_move split: option.split)
  qed
  then show ?thesis using puts by blast
qed

text \<open>A signal that moves to a free path: its value moves with it.\<close>

definition demo_move :: RetainedMove where
  "demo_move = \<lparr>mvNode = ''N1'', mvFromPath = ''a'', mvFromTopic = ''colca/v1/_Status/N1/a'', mvToPath = ''b'',
     mvToTopic = ''colca/v1/_Status/N1/b''\<rparr>"

definition demo_held :: kvEnc where
  "demo_held = encode_kv 1 (zero_record\<lparr>rTopic := ''colca/v1/_Status/N1/a'', rPayload := Some ''x''\<rparr>)"

definition demo_moving :: Store where
  "demo_moving = new_store\<lparr>sDisk := (sDisk new_store)\<lparr>dKV := [(move_src demo_move, demo_held)]\<rparr>\<rparr>"

theorem move_keeps_values_witness:
  "\<exists>written first s' off. MoveRetained ''colca'' True ''entities'' [demo_move] zero_record demo_moving = (Inr (written, first), s') \<and>
    distinct (map move_src [demo_move] @ map move_dst [demo_move]) \<and> mvFromPath demo_move \<noteq> '''' \<and> mvToPath demo_move \<noteq> '''' \<and>
    map_of (dKV (sDisk s')) (move_src demo_move) = None \<and>
    map_of (dKV (sDisk s')) (move_dst demo_move) = Some (moved_entry demo_move demo_held off)"
proof -
  have a: "distinct (map move_src [demo_move] @ map move_dst [demo_move])"
    "\<forall>m \<in> set [demo_move]. mvFromPath m \<noteq> '''' \<and> mvToPath m \<noteq> ''''"
    by (simp_all add: move_src_def move_dst_def demo_move_def)
  have n: "sNext demo_moving ''entities'' \<noteq> 0" "sMaxRecordBytes demo_moving = 0" by (simp_all add: demo_moving_def new_store_eq streams_def)
  have kv: "map_of (dKV (sDisk demo_moving)) (move_src demo_move) = Some demo_held"
    "map_of (dKV (sDisk demo_moving)) (move_dst demo_move) = None"
    using a(1) by (simp_all add: demo_moving_def)
  have recs: "move_records zero_record (sDisk demo_moving) demo_move \<noteq> []"
    using kv by (simp add: move_records_def kvEntryLocked_def move_src_def)
  have chk: "checkAppend ''colca'' ''entities'' recs demo_moving = (Inr None, demo_moving)" for recs
    using n(2) by (simp add: checkAppend_def too_large_def)
  have "\<exists>x s1. appendLocked ''colca'' True ''entities'' recs demo_moving = (Inr x, s1)" for recs
    using n(1) unfolding appendLocked_cases [OF chk] by simp
  then obtain x s1 where "appendLocked ''colca'' True ''entities'' (move_records zero_record (sDisk demo_moving) demo_move) demo_moving = (Inr x, s1)"
    by blast
  then obtain written first where m: "MoveRetained ''colca'' True ''entities'' [demo_move] zero_record demo_moving = (Inr (written, first), s1)"
    using recs by (cases x) (simp add: MoveRetained_def)
  show ?thesis
    using move_keeps_values [OF m a refl refl] kv a m by auto
qed

section \<open>Eviction sweeps\<close>

lemma sorted_take:
  fixes es :: "(nat \<times> recEnc) list"
  assumes "sorted_wrt (<) (map fst es)" "drop m es \<noteq> []"
  shows "r \<in> set (take m es) \<longleftrightarrow> r \<in> set es \<and> fst r < fst (hd (drop m es))"
proof -
  have "sorted_wrt (<) (map fst (take m es @ drop m es))" using assms(1) by simp
  then have a: "\<forall>x \<in> set (take m es). \<forall>y \<in> set (drop m es). fst x < fst y" "sorted_wrt (<) (map fst (drop m es))"
    unfolding map_append sorted_wrt_append by auto
  have "\<forall>y \<in> set (drop m es). \<not> fst y < fst (hd (drop m es))"
    using a(2) assms(2) by (cases "drop m es") auto
  moreover have "hd (drop m es) \<in> set (drop m es)" using assms(2) by simp
  moreover have "set es = set (take m es) \<union> set (drop m es)" by (metis append_take_drop_id set_append)
  ultimately show ?thesis using a(1) by auto
qed

text \<open>Where a bounded scan of \<^verbatim>\<open>[a, b)\<close> resumes.\<close>

lemma bounded_scan:
  assumes es: "es = scanStream st a b d" and "m \<noteq> 0" "a < b"
    and resume: "resume = (if drop m es = [] then b else fst (hd (drop m es)))"
  shows "r \<in> set (take m es) \<longleftrightarrow> r \<in> set es \<and> fst r < resume" "a < resume" "resume \<le> b"
    "drop m es = [] \<longleftrightarrow> resume = b"
proof -
  show taken: "r \<in> set (take m es) \<longleftrightarrow> r \<in> set es \<and> fst r < resume" for r
  proof (cases "drop m es = []")
    case True
    then show ?thesis unfolding resume by (auto simp: es scanned)
  next
    case False
    then show ?thesis unfolding resume using sorted_take [of es m r] scanStream_sorted [of st a b d] by (simp add: es)
  qed
  have "a < resume \<and> resume \<le> b \<and> (drop m es = [] \<longleftrightarrow> resume = b)"
  proof (cases "drop m es = []")
    case False
    then obtain x ys where x: "es = x # ys" by (cases es) auto
    have "x \<in> set (take m es)" using x assms(2) by (cases m) auto
    moreover have "a \<le> fst x" using x scanned [of x st a b d] by (simp add: es)
    moreover have "hd (drop m es) \<in> set es" using False by (meson in_set_dropD list.set_sel(1))
    then have "fst (hd (drop m es)) < b" by (simp add: es scanned)
    ultimately show ?thesis using taken resume False by auto
  qed (simp add: resume assms(3))
  then show "a < resume" "resume \<le> b" "drop m es = [] \<longleftrightarrow> resume = b" by blast+
qed

text \<open>C33: An eviction pass does its part of the sweep. A pass over a store nobody else changes removes exactly
  the doomed records from where it starts up to where it says the next pass resumes, keeps every other
  record, and moves on by at least one offset; it says it is done exactly when it resumes at the head. So
  passes that follow \<^verbatim>\<open>Resume\<close> until \<^verbatim>\<open>Done\<close> end and leave no doomed record behind.\<close>

theorem eviction_pass:
  assumes "EvictRecords True st from maxScan doomed s s = ((res, None), s')" "max from (sLWM s st) < sNext s st"
  shows "(\<forall>off. dRecs (sDisk s') st off =
      (case dRecs (sDisk s) st off of None \<Rightarrow> None
       | Some e \<Rightarrow> if max from (sLWM s st) \<le> off \<and> off < evResume res \<and> doomed (xTopic e) then None else Some e)) \<and>
    max from (sLWM s st) < evResume res \<and> evResume res \<le> sNext s st \<and> (evDone res \<longleftrightarrow> evResume res = sNext s st)"
proof -
  define first where "first = max from (sLWM s st)"
  define es where "es = scanStream st first (sNext s st) (sDisk s)"
  define gone where "gone = filter (\<lambda>r. doomed (xTopic (snd r))) (take maxScan es)"
  have first: "(if from < sLWM s st then sLWM s st else from) = first" by (simp add: first_def)
  have pos: "sNext s st \<noteq> 0" "maxScan \<noteq> 0" "first < sNext s st"
    using assms unfolding EvictRecords_def Let_def first_def by (auto split: if_split_asm)
  have resume: "evResume res = (if drop maxScan es = [] then sNext s st else fst (hd (drop maxScan es)))"
    and ends: "evDone res \<longleftrightarrow> drop maxScan es = []"
    and store: "s' = (if gone = [] then s else commit_removal st (map (\<lambda>r. (fst r, xSignalID (snd r))) gone)
        (sum_list (map (\<lambda>r. rec_size st (snd r)) gone)) s)"
    using assms(1) pos unfolding EvictRecords_def Let_def first es_def [symmetric] gone_def [symmetric]
    by (auto split: if_split_asm)
  note scan = bounded_scan [OF es_def pos(2,3) resume]
  have gone: "r \<in> set gone \<longleftrightarrow> dRecs (sDisk s) st (fst r) = Some (snd r) \<and> first \<le> fst r \<and> fst r < evResume res \<and> doomed (xTopic (snd r))" for r
    using scan(3) unfolding gone_def set_filter mem_Collect_eq scan(1) unfolding es_def scanned by auto
  have "off \<in> fst ` set gone \<longleftrightarrow> (\<exists>e. dRecs (sDisk s) st off = Some e \<and> first \<le> off \<and> off < evResume res \<and> doomed (xTopic e))" for off
    by (auto simp: image_iff Bex_def gone)
  then have "dRecs (sDisk s') st off = (case dRecs (sDisk s) st off of None \<Rightarrow> None
       | Some e \<Rightarrow> if first \<le> off \<and> off < evResume res \<and> doomed (xTopic e) then None else Some e)" for off
    by (auto simp: store commit_removal_recs image_image split: option.split)
  then show ?thesis using scan(2-4) ends unfolding first_def by blast
qed

theorem eviction_pass_witness:
  "\<exists>res s'. EvictRecords True ''definitions'' 0 2 (\<lambda>t. t = ''colca/v1/_Group/N1/a'') demo_definitions demo_definitions =
      ((res, None), s') \<and> max 0 (sLWM demo_definitions ''definitions'') < sNext demo_definitions ''definitions'' \<and>
    dRecs (sDisk s') ''definitions'' 1 = None \<and> evResume res = 3 \<and> \<not> evDone res"
proof -
  have m: "sLWM demo_definitions ''definitions'' = 1" "sNext demo_definitions ''definitions'' = 4"
    by (simp_all add: demo_definitions_def new_store_eq streams_def)
  have "\<exists>res s'. EvictRecords True ''definitions'' 0 2 (\<lambda>t. t = ''colca/v1/_Group/N1/a'') demo_definitions demo_definitions =
      ((res, None), s') \<and> evResume res = 3"
    unfolding EvictRecords_def Let_def m
    by (simp add: demo_definitions_scan [unfolded One_nat_def] demo_definition_def)
  then obtain res s' where e: "EvictRecords True ''definitions'' 0 2 (\<lambda>t. t = ''colca/v1/_Group/N1/a'') demo_definitions demo_definitions =
      ((res, None), s')" "evResume res = 3" by blast
  have "dRecs (sDisk demo_definitions) ''definitions'' 1 = Some (encode_record 1 (demo_definition ''a'' (Some ''x'')))"
    by (simp add: demo_definitions_def)
  then show ?thesis using eviction_pass [OF e(1)] e m by (auto simp: demo_definition_def)
qed

end
