(* ===== verification/Store_Inv.thy ===== *)
theory Store_Inv
  imports Store_Remove
begin

text \<open>
  What every operation keeps of a store. The operations of the other theories are compositions of a few
  moves: records go to the head of a stream, a prefix goes, scattered records go, an entry of the current
  state goes, something that is not a record changes, the process restarts. Each move keeps the
  invariant \<^verbatim>\<open>store_ok\<close>: counters in memory and on disk agree, the byte counters are exact, the
  indexes hold what the records say, the journal partitions what was pruned.
\<close>

section \<open>Moves\<close>

definition grow :: "string \<Rightarrow> Record list \<Rightarrow> Store \<Rightarrow> Store" where
  "grow st recs s =
     (let off = sNext s st + length recs; live = sBytes s st + records_size st (sNext s st) recs in
      s\<lparr>sDisk := setBytes st live (setHead st off (add_records st (sNext s st) recs (sDisk s))),
        sNext := (sNext s)(st := off), sBytes := (sBytes s)(st := live)\<rparr>)"

definition cut_prefix_at :: "string \<Rightarrow> nat \<Rightarrow> Store \<Rightarrow> Store" where
  "cut_prefix_at st upTo s =
     (let stats = scanDoomed st (sLWM s st) upTo (sDisk s); live = sBytes s st - psShed stats in
      s\<lparr>sDisk := writeJournal st (prune_span st upTo s) (sDisk s)
          (setBytes st live (delete_prefix st (sLWM s st) upTo stats (sDisk s))),
        sLWM := (sLWM s)(st := upTo), sBytes := (sBytes s)(st := live)\<rparr>)"

text \<open>The records of a list of offsets, with what they weigh.\<close>

definition records_at :: "string \<Rightarrow> nat list \<Rightarrow> Disk \<Rightarrow> (nat \<times> recEnc) list" where
  "records_at st offs d = List.map_filter (\<lambda>off. map_option (Pair off) (dRecs d st off)) offs"

definition scatter :: "string \<Rightarrow> nat list \<Rightarrow> Store \<Rightarrow> Store" where
  "scatter st offs s =
     (let rs = records_at st offs (sDisk s); live = sBytes s st - sum_list (map (\<lambda>r. rec_size st (snd r)) rs) in
      s\<lparr>sDisk := setBytes st live (delete_records st (map (\<lambda>r. (fst r, xSignalID (snd r))) rs) (sDisk s)),
        sBytes := (sBytes s)(st := live), sHoles := (sHoles s)(st := sHoles s st + 1)\<rparr>)"

text \<open>The caches of high-water marks and adopted stores say what the disk says.\<close>

definition marks_ok :: "Store \<Rightarrow> bool" where
  "marks_ok s \<longleftrightarrow> table_ok (dHWM (sDisk s)) \<and>
     (\<forall>k v. sHWMs s k = Some v \<longrightarrow> v = hwm_on_disk k (sDisk s)) \<and>
     (\<forall>c v. sAdopted s c = Some v \<longrightarrow> dChildStore (sDisk s) c = Some v)"

text \<open>The state records and their indexes do not see.\<close>

definition same_records :: "Store \<Rightarrow> Store \<Rightarrow> bool" where
  "same_records s s' \<longleftrightarrow>
     sNext s' = sNext s \<and> sLWM s' = sLWM s \<and> sBytes s' = sBytes s \<and> sHoles s' = sHoles s \<and>
     sSigFrom s' = sSigFrom s \<and> sTargetFrom s' = sTargetFrom s \<and>
     (let d = sDisk s; d' = sDisk s' in
      dRecs d' = dRecs d \<and> dMeta d' = dMeta d \<and> dIndexed d' = dIndexed d \<and> dLWM d' = dLWM d \<and> dBytes d' = dBytes d \<and>
      dKV d' = dKV d \<and> dKVIndex d' = dKVIndex d \<and> dSig d' = dSig d \<and> dTarget d' = dTarget d \<and> dJournal d' = dJournal d \<and>
      dSigFrom d' = dSigFrom d \<and> dTargetFrom d' = dTargetFrom d)"

definition refreshes_ok :: "Disk \<Rightarrow> bool" where
  "refreshes_ok d \<longleftrightarrow> list_all (refresh_valid d) streams"

inductive store_move :: "Store \<Rightarrow> Store \<Rightarrow> bool" where
  grow: "sNext s st \<noteq> 0 \<Longrightarrow> store_move s (grow st recs s)"
| cut: "sLWM s st < upTo \<Longrightarrow> upTo \<le> sNext s st \<Longrightarrow> store_move s (cut_prefix_at st upTo s)"
| scatter: "distinct offs \<Longrightarrow> store_move s (scatter st offs s)"
| retract: "store_move s (s\<lparr>sDisk := deleteKV k (sDisk s)\<rparr>)"
| other: "same_records s s' \<Longrightarrow> (marks_ok s \<longrightarrow> marks_ok s') \<Longrightarrow> (refreshes_ok (sDisk s) \<longrightarrow> refreshes_ok (sDisk s')) \<Longrightarrow>
    store_move s s'"

abbreviation moves :: "Store \<Rightarrow> Store \<Rightarrow> bool" where "moves \<equiv> rtranclp store_move"

section \<open>The invariant\<close>

definition stream_size :: "string \<Rightarrow> Store \<Rightarrow> nat" where
  "stream_size st s = shed_of st (scanStream st (sLWM s st) (sNext s st) (sDisk s))"

definition counters_ok :: "Store \<Rightarrow> bool" where
  "counters_ok s \<longleftrightarrow>
     restored (dMeta (sDisk s)) 1 = sNext s \<and> restored (dLWM (sDisk s)) 1 = sLWM s \<and>
     restored (dBytes (sDisk s)) 0 = sBytes s \<and> (\<forall>st \<in> set streams. readCounter (dIndexed (sDisk s)) 0 st = sNext s st) \<and>
     (\<forall>st \<in> set streams. 1 \<le> sLWM s st \<and> sLWM s st \<le> sNext s st)"

definition records_ok :: "Store \<Rightarrow> bool" where
  "records_ok s \<longleftrightarrow>
     (\<forall>st off e. dRecs (sDisk s) st off = Some e \<longrightarrow> sLWM s st \<le> off \<and> off < sNext s st) \<and>
     (\<forall>st. sBytes s st = stream_size st s)"

definition signals_ok :: "Store \<Rightarrow> bool" where
  "signals_ok s \<longleftrightarrow>
     (\<forall>st sig off. (st, sig, off) \<in> dSig (sDisk s) \<longrightarrow> (\<exists>e. dRecs (sDisk s) st off = Some e \<and> xSignalID e = sig \<and> sig \<noteq> '''')) \<and>
     (\<forall>st off e. dRecs (sDisk s) st off = Some e \<and> sSigFrom s st \<le> off \<and> xSignalID e \<noteq> '''' \<longrightarrow>
        (st, xSignalID e, off) \<in> dSig (sDisk s)) \<and>
     (\<forall>st \<in> set streams. dSigFrom (sDisk s) st = Some (sSigFrom s st) \<and> sSigFrom s st \<le> sNext s st)"

definition targets_ok :: "Store \<Rightarrow> bool" where
  "targets_ok s \<longleftrightarrow>
     (\<forall>st t off e. (st, t, off) \<in> dTarget (sDisk s) \<and> dRecs (sDisk s) st off = Some e \<longrightarrow> recordTarget (xTopic e) = t) \<and>
     (\<forall>st t off. (st, t, off) \<in> dTarget (sDisk s) \<longrightarrow> off < sNext s st \<and> t \<noteq> '''') \<and>
     (\<forall>st off e. dRecs (sDisk s) st off = Some e \<and> sTargetFrom s st \<le> off \<and> recordTarget (xTopic e) \<noteq> '''' \<longrightarrow>
        (st, recordTarget (xTopic e), off) \<in> dTarget (sDisk s)) \<and>
     (\<forall>st \<in> set streams. dTargetFrom (sDisk s) st = Some (sTargetFrom s st) \<and> sTargetFrom s st \<le> sNext s st)"

definition state_ok :: "Store \<Rightarrow> bool" where
  "state_ok s \<longleftrightarrow> table_ok (dKV (sDisk s)) \<and> dKVIndex (sDisk s) = kv_index_of (sDisk s)"

definition journals_ok :: "Store \<Rightarrow> bool" where
  "journals_ok s \<longleftrightarrow> (\<forall>st \<in> set streams. journal_ok (sLWM s st) (dJournal (sDisk s) st))"

definition store_ok :: "Store \<Rightarrow> bool" where
  "store_ok s \<longleftrightarrow> counters_ok s \<and> records_ok s \<and> signals_ok s \<and> targets_ok s \<and> state_ok s \<and> journals_ok s \<and>
     marks_ok s \<and> refreshes_ok (sDisk s)"

lemmas store_ok_defs = counters_ok_def records_ok_def signals_ok_def targets_ok_def state_ok_def journals_ok_def
  marks_ok_def refreshes_ok_def

text \<open>A stream the store does not know has neither records nor counters.\<close>

lemma unknown_stream:
  assumes "counters_ok s"
  shows "st \<notin> set streams \<Longrightarrow> sNext s st = 0 \<and> sLWM s st = 0" "sNext s st \<noteq> 0 \<longleftrightarrow> st \<in> set streams"
    "sLWM s st \<le> sNext s st"
proof -
  have out: "sNext s st = 0 \<and> sLWM s st = 0" if "st \<notin> set streams"
  proof -
    have "sNext s = restored (dMeta (sDisk s)) 1" "sLWM s = restored (dLWM (sDisk s)) 1"
      using assms by (simp_all add: counters_ok_def)
    then show ?thesis using that by (simp add: restored_def)
  qed
  then show "st \<notin> set streams \<Longrightarrow> sNext s st = 0 \<and> sLWM s st = 0" by blast
  have "1 \<le> sLWM s st \<and> sLWM s st \<le> sNext s st" if "st \<in> set streams" using assms that by (simp add: counters_ok_def)
  then show "sNext s st \<noteq> 0 \<longleftrightarrow> st \<in> set streams" "sLWM s st \<le> sNext s st" using out by fastforce+
qed

section \<open>Growing a stream\<close>

lemma add_records_sig:
  "dSig (add_records st off recs b) =
     dSig b \<union> {(st, record_signal (recs ! i), off + i) | i. i < length recs \<and> record_signal (recs ! i) \<noteq> ''''}"
proof (induction recs arbitrary: off b)
  case (Cons r rs)
  have set: "{(st, record_signal ((r # rs) ! i), off + i) | i. i < length (r # rs) \<and> record_signal ((r # rs) ! i) \<noteq> ''''} =
      (if record_signal r = '''' then {} else {(st, record_signal r, off)}) \<union>
      {(st, record_signal (rs ! i), Suc off + i) | i. i < length rs \<and> record_signal (rs ! i) \<noteq> ''''}"
    by (auto simp: less_Suc_eq_0_disj)
  show ?case unfolding add_records_Cons Cons.IH set by (auto simp: addRecord_simps)
qed simp

lemma add_records_target:
  "dTarget (add_records st off recs b) =
     dTarget b \<union> {(st, recordTarget (rTopic (recs ! i)), off + i) | i. i < length recs \<and> recordTarget (rTopic (recs ! i)) \<noteq> ''''}"
proof (induction recs arbitrary: off b)
  case (Cons r rs)
  have set: "{(st, recordTarget (rTopic ((r # rs) ! i)), off + i) | i. i < length (r # rs) \<and> recordTarget (rTopic ((r # rs) ! i)) \<noteq> ''''} =
      (if recordTarget (rTopic r) = '''' then {} else {(st, recordTarget (rTopic r), off)}) \<union>
      {(st, recordTarget (rTopic (rs ! i)), Suc off + i) | i. i < length rs \<and> recordTarget (rTopic (rs ! i)) \<noteq> ''''}"
    by (auto simp: less_Suc_eq_0_disj)
  show ?case unfolding add_records_Cons Cons.IH set by (auto simp: addRecord_simps)
qed simp

lemma kv_index_set:
  assumes "dKVIndex b = kv_index_of b"
  shows "dKVIndex (setKV k v b) = kv_index_of (setKV k v b)" "dKVIndex (deleteKV k b) = kv_index_of (deleteKV k b)"
  using assms by (auto simp: setKV_def deleteKV_def kv_index_of_def kvIndexKey_def split: option.split)

lemma add_records_state:
  assumes "dKVIndex b = kv_index_of b" "table_ok (dKV b)"
  shows "dKVIndex (add_records st off recs b) = kv_index_of (add_records st off recs b) \<and> table_ok (dKV (add_records st off recs b))"
  using assms
proof (induction recs arbitrary: off b)
  case (Cons r rs)
  have p: "dKVIndex (project_kv off r b) = kv_index_of (project_kv off r b)" "table_ok (dKV (project_kv off r b))"
    using Cons.prems kv_index_set [OF Cons.prems(1)] by (auto simp: project_kv_def setKV_def deleteKV_def)
  have same: "dKV (fst (addRecord st off r b)) = dKV (project_kv off r b)" "dKVIndex (fst (addRecord st off r b)) = dKVIndex (project_kv off r b)"
    by (simp_all add: addRecord_simps)
  have "dKVIndex (fst (addRecord st off r b)) = kv_index_of (fst (addRecord st off r b))" "table_ok (dKV (fst (addRecord st off r b)))"
    using p by (simp_all add: same kv_index_of_def)
  then show ?case using Cons.IH by simp
qed simp

lemma add_records_from: "dSigFrom (add_records st off recs b) = dSigFrom b" "dTargetFrom (add_records st off recs b) = dTargetFrom b"
  by (induction recs arbitrary: off b)
    (simp_all add: addRecord_def Let_def project_kv_def setKV_def deleteKV_def)

lemma records_size_nth: "records_size st off recs = (\<Sum>i<length recs. rec_size st (encode_record (off + i) (recs ! i)))"
  by (induction recs arbitrary: off) (simp_all add: sum.lessThan_Suc_shift del: sum.lessThan_Suc)

text \<open>The size of a range as a sum over its offsets.\<close>

definition size_at :: "string \<Rightarrow> Disk \<Rightarrow> nat \<Rightarrow> nat" where
  "size_at st d off = (case dRecs d st off of None \<Rightarrow> 0 | Some e \<Rightarrow> rec_size st e)"

lemma shed_of_scan: "shed_of st (scanStream st a b d) = (\<Sum>off = a..<b. size_at st d off)"
proof -
  have "shed_of st (List.map_filter (\<lambda>off. map_option (Pair off) (dRecs d st off)) xs) = sum_list (map (size_at st d) xs)" for xs
    by (induction xs) (auto simp: shed_of_def List.map_filter_simps size_at_def split: option.split)
  then show ?thesis by (simp add: scanStream_def sum.distinct_set_conv_list [symmetric] flip: set_upt)
qed

lemma stream_size_sum: "stream_size st s = (\<Sum>off = sLWM s st..<sNext s st. size_at st (sDisk s) off)"
  by (simp add: stream_size_def shed_of_scan)

lemma size_at_cong: "dRecs d st off = dRecs d' st off \<Longrightarrow> size_at st d off = size_at st d' off"
  by (simp add: size_at_def)

lemma grow_fields:
  "sNext (grow st recs s) = (sNext s)(st := sNext s st + length recs)" "sLWM (grow st recs s) = sLWM s"
  "sBytes (grow st recs s) = (sBytes s)(st := sBytes s st + records_size st (sNext s st) recs)"
  "sHoles (grow st recs s) = sHoles s" "sSigFrom (grow st recs s) = sSigFrom s" "sTargetFrom (grow st recs s) = sTargetFrom s"
  "sHWMs (grow st recs s) = sHWMs s" "sAdopted (grow st recs s) = sAdopted s"
  by (simp_all add: grow_def Let_def)

lemma grow_disk:
  "dRecs (sDisk (grow st recs s)) = dRecs (add_records st (sNext s st) recs (sDisk s))"
  "dMeta (sDisk (grow st recs s)) = (dMeta (sDisk s))(st \<mapsto> sNext s st + length recs)"
  "dIndexed (sDisk (grow st recs s)) = (dIndexed (sDisk s))(st \<mapsto> sNext s st + length recs)"
  "dBytes (sDisk (grow st recs s)) = (dBytes (sDisk s))(st \<mapsto> sBytes s st + records_size st (sNext s st) recs)"
  "dLWM (sDisk (grow st recs s)) = dLWM (sDisk s)" "dJournal (sDisk (grow st recs s)) = dJournal (sDisk s)"
  "dSig (sDisk (grow st recs s)) = dSig (add_records st (sNext s st) recs (sDisk s))"
  "dTarget (sDisk (grow st recs s)) = dTarget (add_records st (sNext s st) recs (sDisk s))"
  "dKV (sDisk (grow st recs s)) = dKV (add_records st (sNext s st) recs (sDisk s))"
  "dKVIndex (sDisk (grow st recs s)) = dKVIndex (add_records st (sNext s st) recs (sDisk s))"
  "dSigFrom (sDisk (grow st recs s)) = dSigFrom (sDisk s)" "dTargetFrom (sDisk (grow st recs s)) = dTargetFrom (sDisk s)"
  "dHWM (sDisk (grow st recs s)) = dHWM (sDisk s)" "dChildStore (sDisk (grow st recs s)) = dChildStore (sDisk s)"
  "dRefresh (sDisk (grow st recs s)) = dRefresh (sDisk s)"
  by (simp_all add: grow_def Let_def setBytes_def setHead_def add_records_simps add_records_from)

lemma grow_recs:
  "dRecs (sDisk (grow st recs s)) st' off =
     (if st' = st \<and> sNext s st \<le> off \<and> off < sNext s st + length recs
      then Some (encode_record off (recs ! (off - sNext s st))) else dRecs (sDisk s) st' off)"
  by (simp add: grow_disk add_records_dRecs)

lemma grow_counters: "counters_ok s \<Longrightarrow> sNext s st \<noteq> 0 \<Longrightarrow> counters_ok (grow st recs s)"
  using unknown_stream(2) [of s st] unfolding counters_ok_def grow_fields grow_disk
  by (auto simp: restored_def readCounter_def fun_eq_iff split: if_split_asm)

lemma grow_records:
  assumes ok: "counters_ok s" "records_ok s"
  shows "records_ok (grow st recs s)"
proof -
  have le: "sLWM s st \<le> sNext s st" by (rule unknown_stream(3) [OF ok(1)])
  have "stream_size st' (grow st recs s) = sBytes (grow st recs s) st'" for st'
  proof (cases "st' = st")
    case False
    then have "stream_size st' (grow st recs s) = stream_size st' s"
      unfolding stream_size_sum by (simp add: grow_fields grow_recs size_at_def)
    then show ?thesis using ok(2) False by (simp add: records_ok_def grow_fields)
  next
    case True
    have "{sLWM s st..<sNext s st + length recs} = {sLWM s st..<sNext s st} \<union> {sNext s st..<sNext s st + length recs}"
      using le by auto
    moreover have "(\<Sum>off = sNext s st..<sNext s st + length recs. size_at st (sDisk (grow st recs s)) off) =
        records_size st (sNext s st) recs"
      unfolding records_size_nth
      by (rule sum.reindex_bij_witness [of _ "\<lambda>i. sNext s st + i" "\<lambda>off. off - sNext s st"]) (auto simp: size_at_def grow_recs)
    moreover have "(\<Sum>off = sLWM s st..<sNext s st. size_at st (sDisk (grow st recs s)) off) = sBytes s st"
      using ok(2) unfolding records_ok_def stream_size_sum by (auto simp: size_at_def grow_recs intro!: sum.cong)
    ultimately show ?thesis
      unfolding stream_size_sum True grow_fields by (simp add: sum.union_disjoint)
  qed
  moreover have "\<forall>st' off e. dRecs (sDisk (grow st recs s)) st' off = Some e \<longrightarrow>
      sLWM (grow st recs s) st' \<le> off \<and> off < sNext (grow st recs s) st'"
    using ok(2) le unfolding records_ok_def grow_fields grow_recs by (auto, fastforce+)
  ultimately show ?thesis by (simp add: records_ok_def)
qed

lemma grow_signals:
  assumes ok: "counters_ok s" "records_ok s" "signals_ok s" "sNext s st \<noteq> 0"
  shows "signals_ok (grow st recs s)"
proof -
  have old: "dRecs (sDisk (grow st recs s)) st' off = dRecs (sDisk s) st' off" if "dRecs (sDisk s) st' off = Some e" for st' off e
    using ok(2) that unfolding records_ok_def grow_recs by fastforce
  have "\<exists>e. dRecs (sDisk (grow st recs s)) st' off = Some e \<and> xSignalID e = sig \<and> sig \<noteq> ''''"
    if "(st', sig, off) \<in> dSig (sDisk (grow st recs s))" for st' sig off
  proof (cases "(st', sig, off) \<in> dSig (sDisk s)")
    case True
    then show ?thesis using ok(3) old unfolding signals_ok_def by fastforce
  next
    case False
    then show ?thesis using that by (auto simp: grow_disk(7) add_records_sig grow_recs)
  qed
  moreover have "(st', xSignalID e, off) \<in> dSig (sDisk (grow st recs s))"
    if "dRecs (sDisk (grow st recs s)) st' off = Some e" "sSigFrom s st' \<le> off" "xSignalID e \<noteq> ''''" for st' off e
  proof (cases "st' = st \<and> sNext s st \<le> off \<and> off < sNext s st + length recs")
    case True
    then show ?thesis using that by (auto simp: grow_recs grow_disk(7) add_records_sig intro!: exI [of _ "off - sNext s st"])
  next
    case False
    then have "dRecs (sDisk s) st' off = Some e" using that(1) by (auto simp: grow_recs split: if_split_asm)
    then show ?thesis using ok(3) that unfolding signals_ok_def grow_disk(7) add_records_sig by blast
  qed
  moreover have "dSigFrom (sDisk s) st' = Some (sSigFrom s st') \<and> sSigFrom s st' \<le> sNext (grow st recs s) st'" if "st' \<in> set streams" for st'
    using ok(3) that by (auto simp: signals_ok_def grow_fields)
  ultimately show ?thesis unfolding signals_ok_def grow_fields grow_disk by simp
qed

lemma grow_targets:
  assumes ok: "records_ok s" "targets_ok s" "sNext s st \<noteq> 0"
  shows "targets_ok (grow st recs s)"
proof -
  let ?s = "grow st recs s"
  have in_dTarget: "x \<in> dTarget (sDisk ?s) \<longleftrightarrow> x \<in> dTarget (sDisk s) \<or>
      (\<exists>i < length recs. recordTarget (rTopic (recs ! i)) \<noteq> '''' \<and> x = (st, recordTarget (rTopic (recs ! i)), sNext s st + i))" for x
    unfolding grow_disk(8) add_records_target by auto
  have below: "off < sNext s st' \<and> t \<noteq> ''''" if "(st', t, off) \<in> dTarget (sDisk s)" for st' t off
    using ok(2) that unfolding targets_ok_def by blast
  have "recordTarget (xTopic e) = t" if "(st', t, off) \<in> dTarget (sDisk ?s)" "dRecs (sDisk ?s) st' off = Some e" for st' t off e
  proof (cases "(st', t, off) \<in> dTarget (sDisk s)")
    case True
    then have "dRecs (sDisk s) st' off = Some e" using below [OF True] that(2) by (auto simp: grow_recs split: if_split_asm)
    then show ?thesis using ok(2) True unfolding targets_ok_def by blast
  next
    case False
    then show ?thesis using that by (auto simp: in_dTarget grow_recs)
  qed
  moreover have "off < sNext ?s st' \<and> t \<noteq> ''''" if "(st', t, off) \<in> dTarget (sDisk ?s)" for st' t off
    using that below unfolding in_dTarget grow_fields by fastforce
  moreover have "(st', recordTarget (xTopic e), off) \<in> dTarget (sDisk ?s)"
    if "dRecs (sDisk ?s) st' off = Some e" "sTargetFrom s st' \<le> off" "recordTarget (xTopic e) \<noteq> ''''" for st' off e
  proof (cases "st' = st \<and> sNext s st \<le> off \<and> off < sNext s st + length recs")
    case True
    then show ?thesis using that by (auto simp: grow_recs in_dTarget intro!: exI [of _ "off - sNext s st"])
  next
    case False
    then have "dRecs (sDisk s) st' off = Some e" using that(1) by (auto simp: grow_recs split: if_split_asm)
    then show ?thesis using ok(2) that unfolding targets_ok_def in_dTarget by blast
  qed
  moreover have "dTargetFrom (sDisk s) st' = Some (sTargetFrom s st') \<and> sTargetFrom s st' \<le> sNext ?s st'" if "st' \<in> set streams" for st'
    using ok(2) that by (auto simp: targets_ok_def grow_fields)
  ultimately show ?thesis unfolding targets_ok_def grow_fields(6) grow_disk(12) by (intro conjI) blast+
qed

lemma grow_ok:
  assumes "store_ok s" "sNext s st \<noteq> 0"
  shows "store_ok (grow st recs s)"
proof -
  have ok: "counters_ok s" "records_ok s" "signals_ok s" "targets_ok s" "state_ok s" "journals_ok s" "marks_ok s" "refreshes_ok (sDisk s)"
    using assms(1) by (simp_all add: store_ok_def)
  have "state_ok (grow st recs s)"
    using add_records_state [of "sDisk s" st "sNext s st" recs] ok(5) unfolding state_ok_def grow_disk
    by (simp add: kv_index_of_def grow_disk)
  moreover have "journals_ok (grow st recs s)" "marks_ok (grow st recs s)" "refreshes_ok (sDisk (grow st recs s))"
    using ok(6-8) by (simp_all add: journals_ok_def marks_ok_def refreshes_ok_def list_all_iff refresh_valid_def hwm_on_disk_def
        grow_fields grow_disk)
  ultimately show ?thesis
    using ok grow_counters grow_records grow_signals grow_targets assms(2) by (simp add: store_ok_def)
qed

section \<open>Removing records\<close>

text \<open>What prefix cuts and scattered removals have in common.\<close>

definition removes :: "string \<Rightarrow> (nat \<Rightarrow> bool) \<Rightarrow> Store \<Rightarrow> Store \<Rightarrow> bool" where
  "removes st gone s s' \<longleftrightarrow>
     (\<forall>st' off. dRecs (sDisk s') st' off = (if st' = st \<and> gone off then None else dRecs (sDisk s) st' off)) \<and>
     dSig (sDisk s') = dSig (sDisk s) - {(st, sig, off) | sig off. gone off \<and> (\<exists>e. dRecs (sDisk s) st off = Some e \<and> xSignalID e = sig \<and> sig \<noteq> '''')} \<and>
     dTarget (sDisk s') \<subseteq> dTarget (sDisk s) \<and>
     (\<forall>st' t off. (st', t, off) \<in> dTarget (sDisk s) \<and> \<not> (st' = st \<and> gone off) \<longrightarrow> (st', t, off) \<in> dTarget (sDisk s')) \<and>
     sNext s' = sNext s \<and> sSigFrom s' = sSigFrom s \<and> sTargetFrom s' = sTargetFrom s \<and>
     dSigFrom (sDisk s') = dSigFrom (sDisk s) \<and> dTargetFrom (sDisk s') = dTargetFrom (sDisk s)"

lemma removes_signals:
  assumes "removes st gone s s'" "signals_ok s"
  shows "signals_ok s'"
proof -
  have r: "dRecs (sDisk s') st' off = (if st' = st \<and> gone off then None else dRecs (sDisk s) st' off)" for st' off
    using assms(1) by (simp add: removes_def)
  have sig: "(st', sig, off) \<in> dSig (sDisk s') \<longleftrightarrow> (st', sig, off) \<in> dSig (sDisk s) \<and>
      \<not> (st' = st \<and> gone off \<and> (\<exists>e. dRecs (sDisk s) st off = Some e \<and> xSignalID e = sig \<and> sig \<noteq> ''''))" for st' sig off
    using assms(1) unfolding removes_def by auto
  have "\<exists>e. dRecs (sDisk s') st' off = Some e \<and> xSignalID e = sig \<and> sig \<noteq> ''''" if "(st', sig, off) \<in> dSig (sDisk s')" for st' sig off
  proof -
    have "(st', sig, off) \<in> dSig (sDisk s)"
      and kept: "\<not> (st' = st \<and> gone off \<and> (\<exists>e. dRecs (sDisk s) st off = Some e \<and> xSignalID e = sig \<and> sig \<noteq> ''''))"
      using that by (simp_all only: sig) simp_all
    then obtain e where "dRecs (sDisk s) st' off = Some e" "xSignalID e = sig" "sig \<noteq> ''''"
      using assms(2) unfolding signals_ok_def by blast
    then show ?thesis using kept by (cases "st' = st \<and> gone off") (auto simp: r)
  qed
  moreover have "(st', xSignalID e, off) \<in> dSig (sDisk s')"
    if "dRecs (sDisk s') st' off = Some e" "sSigFrom s st' \<le> off" "xSignalID e \<noteq> ''''" for st' off e
  proof -
    have "dRecs (sDisk s) st' off = Some e" "\<not> (st' = st \<and> gone off)" using that(1) by (simp_all add: r split: if_split_asm)
    then show ?thesis using assms(2) that(2,3) unfolding signals_ok_def sig by blast
  qed
  moreover have "sSigFrom s' = sSigFrom s" "sNext s' = sNext s" "dSigFrom (sDisk s') = dSigFrom (sDisk s)"
    using assms(1) by (simp_all add: removes_def)
  ultimately show ?thesis using assms(2) unfolding signals_ok_def by simp
qed

lemma removes_targets:
  assumes "removes st gone s s'" "targets_ok s"
  shows "targets_ok s'"
proof -
  have r: "dRecs (sDisk s') st' off = (if st' = st \<and> gone off then None else dRecs (sDisk s) st' off)" for st' off
    using assms(1) by (simp add: removes_def)
  have sub: "dTarget (sDisk s') \<subseteq> dTarget (sDisk s)" using assms(1) by (simp only: removes_def)
  have "\<forall>st' t off. (st', t, off) \<in> dTarget (sDisk s) \<and> \<not> (st' = st \<and> gone off) \<longrightarrow> (st', t, off) \<in> dTarget (sDisk s')"
    using assms(1) unfolding removes_def by (elim conjE)
  then have keep: "(st', t, off) \<in> dTarget (sDisk s')" if "(st', t, off) \<in> dTarget (sDisk s)" "\<not> (st' = st \<and> gone off)" for st' t off
    using that by blast
  have "(st', recordTarget (xTopic e), off) \<in> dTarget (sDisk s')"
    if "dRecs (sDisk s') st' off = Some e" "sTargetFrom s st' \<le> off" "recordTarget (xTopic e) \<noteq> ''''" for st' off e
  proof -
    have *: "dRecs (sDisk s) st' off = Some e" "\<not> (st' = st \<and> gone off)" using that(1) by (simp_all add: r split: if_split_asm)
    then show ?thesis using assms(2) that(2,3) unfolding targets_ok_def by (intro keep) blast+
  qed
  moreover have "recordTarget (xTopic e) = t" if "(st', t, off) \<in> dTarget (sDisk s')" "dRecs (sDisk s') st' off = Some e" for st' t off e
  proof -
    have "dRecs (sDisk s) st' off = Some e" using that(2) by (simp add: r split: if_split_asm)
    then show ?thesis using assms(2) that(1) sub unfolding targets_ok_def by blast
  qed
  moreover have "off < sNext s st' \<and> t \<noteq> ''''" if "(st', t, off) \<in> dTarget (sDisk s')" for st' t off
    using assms(2) that sub unfolding targets_ok_def by blast
  moreover have "sTargetFrom s' = sTargetFrom s" "sNext s' = sNext s" "dTargetFrom (sDisk s') = dTargetFrom (sDisk s)"
    using assms(1) by (simp_all add: removes_def)
  moreover have "\<forall>st \<in> set streams. dTargetFrom (sDisk s) st = Some (sTargetFrom s st) \<and> sTargetFrom s st \<le> sNext s st"
    using assms(2) by (simp add: targets_ok_def)
  ultimately show ?thesis unfolding targets_ok_def by (intro conjI) (blast, simp, simp, simp)
qed

lemma stats_index:
  "set (psIndex (fold (stats_add st) es p)) = set (psIndex p) \<union> {(xSignalID e, off) | e off. (off, e) \<in> set es \<and> xSignalID e \<noteq> ''''} \<and>
   set (psTargets (fold (stats_add st) es p)) =
     set (psTargets p) \<union> {(recordTarget (xTopic e), off) | e off. (off, e) \<in> set es \<and> recordTarget (xTopic e) \<noteq> ''''}"
proof (induction es arbitrary: p)
  case (Cons x es)
  obtain off e where "x = (off, e)" by (cases x)
  then have "set (psIndex (stats_add st x p)) = set (psIndex p) \<union> (if xSignalID e = '''' then {} else {(xSignalID e, off)})"
    "set (psTargets (stats_add st x p)) = set (psTargets p) \<union> (if recordTarget (xTopic e) = '''' then {} else {(recordTarget (xTopic e), off)})"
    by (simp_all add: stats_add_def)
  then show ?case using Cons.IH [of "stats_add st x p"] \<open>x = (off, e)\<close> by auto
qed simp

lemma cut_fields:
  "sNext (cut_prefix_at st upTo s) = sNext s" "sLWM (cut_prefix_at st upTo s) = (sLWM s)(st := upTo)"
  "sBytes (cut_prefix_at st upTo s) = (sBytes s)(st := sBytes s st - shed_of st (scanStream st (sLWM s st) upTo (sDisk s)))"
  "sHoles (cut_prefix_at st upTo s) = sHoles s" "sSigFrom (cut_prefix_at st upTo s) = sSigFrom s"
  "sTargetFrom (cut_prefix_at st upTo s) = sTargetFrom s" "sHWMs (cut_prefix_at st upTo s) = sHWMs s"
  "sAdopted (cut_prefix_at st upTo s) = sAdopted s"
  by (simp_all add: cut_prefix_at_def Let_def scanDoomed_def stats_shed no_stats_def)

lemma cut_batch:
  "\<exists>t. sDisk (cut_prefix_at st upTo s) =
     (let stats = scanDoomed st (sLWM s st) upTo (sDisk s) in
      setBytes st (sBytes s st - psShed stats) (delete_prefix st (sLWM s st) upTo stats (sDisk s)))\<lparr>dJournal := t\<rparr>"
  using writeJournal_batch [of st "prune_span st upTo s" "sDisk s" "let stats = scanDoomed st (sLWM s st) upTo (sDisk s) in
      setBytes st (sBytes s st - psShed stats) (delete_prefix st (sLWM s st) upTo stats (sDisk s))"]
  by (auto simp: cut_prefix_at_def Let_def)

lemma cut_disk:
  "dRecs (sDisk (cut_prefix_at st upTo s)) st' off =
     (if st' = st \<and> sLWM s st \<le> off \<and> off < upTo then None else dRecs (sDisk s) st' off)"
  "dMeta (sDisk (cut_prefix_at st upTo s)) = dMeta (sDisk s)" "dIndexed (sDisk (cut_prefix_at st upTo s)) = dIndexed (sDisk s)"
  "dBytes (sDisk (cut_prefix_at st upTo s)) = (dBytes (sDisk s))(st \<mapsto> sBytes (cut_prefix_at st upTo s) st)"
  "dLWM (sDisk (cut_prefix_at st upTo s)) = (dLWM (sDisk s))(st \<mapsto> upTo)"
  "dKV (sDisk (cut_prefix_at st upTo s)) = dKV (sDisk s)" "dKVIndex (sDisk (cut_prefix_at st upTo s)) = dKVIndex (sDisk s)"
  "dSig (sDisk (cut_prefix_at st upTo s)) = dSig (sDisk s) -
     {(st, xSignalID e, off) | e off. (off, e) \<in> set (scanStream st (sLWM s st) upTo (sDisk s)) \<and> xSignalID e \<noteq> ''''}"
  "dTarget (sDisk (cut_prefix_at st upTo s)) = dTarget (sDisk s) -
     {(st, recordTarget (xTopic e), off) | e off. (off, e) \<in> set (scanStream st (sLWM s st) upTo (sDisk s)) \<and> recordTarget (xTopic e) \<noteq> ''''}"
  "dSigFrom (sDisk (cut_prefix_at st upTo s)) = dSigFrom (sDisk s)" "dTargetFrom (sDisk (cut_prefix_at st upTo s)) = dTargetFrom (sDisk s)"
  "dHWM (sDisk (cut_prefix_at st upTo s)) = dHWM (sDisk s)" "dChildStore (sDisk (cut_prefix_at st upTo s)) = dChildStore (sDisk s)"
  "dRefresh (sDisk (cut_prefix_at st upTo s)) = dRefresh (sDisk s)"
  by (insert cut_batch [of st upTo s]; elim exE;
      auto simp: delete_prefix_def setBytes_def scanDoomed_def stats_index no_stats_def stats_shed cut_fields)+

lemma cut_journal:
  "dJournal (sDisk (cut_prefix_at st upTo s)) st' =
     (if st' = st then dJournal (writeJournal st (prune_span st upTo s) (sDisk s)
        (setBytes st (sBytes s st - psShed (scanDoomed st (sLWM s st) upTo (sDisk s)))
           (delete_prefix st (sLWM s st) upTo (scanDoomed st (sLWM s st) upTo (sDisk s)) (sDisk s)))) st
      else dJournal (sDisk s) st')"
  using writeJournal_batch [of st "prune_span st upTo s" "sDisk s" "let stats = scanDoomed st (sLWM s st) upTo (sDisk s) in
      setBytes st (sBytes s st - psShed stats) (delete_prefix st (sLWM s st) upTo stats (sDisk s))"]
  by (auto simp: cut_prefix_at_def Let_def setBytes_def delete_prefix_def)

lemma cut_removes: "removes st (\<lambda>off. sLWM s st \<le> off \<and> off < upTo) s (cut_prefix_at st upTo s)"
  unfolding removes_def cut_fields cut_disk(1,8-11) by (auto simp: scanned)

lemma cut_counters:
  assumes "counters_ok s" "sLWM s st < upTo" "upTo \<le> sNext s st"
  shows "counters_ok (cut_prefix_at st upTo s)"
proof -
  have st: "st \<in> set streams" using assms unknown_stream(1) [of s st] by fastforce
  have r: "restored (f(st \<mapsto> n)) d = (restored f d)(st := n)" for f n d
    using st by (auto simp: restored_def readCounter_def)
  show ?thesis using assms by (auto simp: counters_ok_def cut_fields cut_disk r)
qed

lemma removes_size:
  assumes "removes st gone s s'" "\<And>st off e. dRecs (sDisk s) st off = Some e \<Longrightarrow> sLWM s st \<le> off \<and> off < sNext s st"
  shows "stream_size st s = (\<Sum>off | off \<in> {sLWM s st..<sNext s st} \<and> gone off. size_at st (sDisk s) off) +
    (\<Sum>off = sLWM s st..<sNext s st. size_at st (sDisk s') off)"
proof -
  have r: "size_at st (sDisk s') off = (if gone off then 0 else size_at st (sDisk s) off)" for off
    using assms(1) by (simp add: removes_def size_at_def)
  have "stream_size st s = (\<Sum>off = sLWM s st..<sNext s st. (if gone off then size_at st (sDisk s) off else 0) + size_at st (sDisk s') off)"
    unfolding stream_size_sum by (rule sum.cong) (simp_all add: r)
  then show ?thesis using sum.inter_filter [of "{sLWM s st..<sNext s st}" "size_at st (sDisk s)" gone] by (simp add: sum.distrib)
qed

lemma removes_other_size:
  assumes "removes st gone s s'" "st' \<noteq> st" "sLWM s' st' = sLWM s st'"
  shows "stream_size st' s' = stream_size st' s"
  unfolding stream_size_sum using assms by (auto simp: removes_def size_at_def intro!: sum.cong)

lemma cut_records:
  assumes ok: "counters_ok s" "records_ok s" and range: "sLWM s st < upTo" "upTo \<le> sNext s st"
  shows "records_ok (cut_prefix_at st upTo s)"
proof -
  let ?s = "cut_prefix_at st upTo s"
  have inside: "sLWM s st \<le> off \<and> off < sNext s st" if "dRecs (sDisk s) st off = Some e" for st off e
    using ok(2) that unfolding records_ok_def by blast
  have "sBytes ?s st' = stream_size st' ?s" for st'
  proof (cases "st' = st")
    case True
    have split: "{sLWM s st..<sNext s st} = {sLWM s st..<upTo} \<union> {upTo..<sNext s st}" using range by auto
    have "{off \<in> {sLWM s st..<sNext s st}. sLWM s st \<le> off \<and> off < upTo} = {sLWM s st..<upTo}" using range by auto
    moreover have "(\<Sum>off = sLWM s st..<sNext s st. size_at st (sDisk ?s) off) = stream_size st ?s"
      unfolding stream_size_sum split cut_fields by (subst sum.union_disjoint) (auto simp: size_at_def cut_disk)
    ultimately have "stream_size st s = shed_of st (scanStream st (sLWM s st) upTo (sDisk s)) + stream_size st ?s"
      using removes_size [OF cut_removes [of st s upTo] inside] by (simp add: shed_of_scan)
    then show ?thesis using ok(2) True by (simp add: cut_fields records_ok_def)
  next
    case False
    then show ?thesis using ok(2) removes_other_size [OF cut_removes [of st s upTo] False] by (simp add: cut_fields records_ok_def)
  qed
  moreover have "sLWM ?s st' \<le> off \<and> off < sNext ?s st'" if "dRecs (sDisk ?s) st' off = Some e" for st' off e
  proof -
    have "dRecs (sDisk s) st' off = Some e" "\<not> (st' = st \<and> sLWM s st \<le> off \<and> off < upTo)"
      using that by (simp_all add: cut_disk split: if_split_asm)
    then show ?thesis using inside [of st' off e] by (auto simp: cut_fields)
  qed
  ultimately show ?thesis by (simp add: records_ok_def)
qed

lemma cut_ok:
  assumes "store_ok s" and range: "sLWM s st < upTo" "upTo \<le> sNext s st"
  shows "store_ok (cut_prefix_at st upTo s)"
proof -
  have ok: "counters_ok s" "records_ok s" "signals_ok s" "targets_ok s" "state_ok s" "journals_ok s" "marks_ok s" "refreshes_ok (sDisk s)"
    using assms(1) by (simp_all add: store_ok_def)
  have "st \<in> set streams" using ok(1) range unknown_stream(1) [of s st] by fastforce
  then have "journal_ok (sLWM s st) (dJournal (sDisk s) st)" using ok(6) by (simp add: journals_ok_def)
  then have "journal_ok upTo (dJournal (sDisk (cut_prefix_at st upTo s)) st)"
    using range writeJournal_ok [of "sLWM s st" "sDisk s" st _ "prune_span st upTo s"]
    by (simp add: cut_journal prune_span_def Let_def setBytes_def delete_prefix_def)
  then have "journals_ok (cut_prefix_at st upTo s)"
    using ok(6) by (simp add: journals_ok_def cut_fields) (simp add: cut_journal)
  moreover have "state_ok (cut_prefix_at st upTo s)" "marks_ok (cut_prefix_at st upTo s)" "refreshes_ok (sDisk (cut_prefix_at st upTo s))"
    using ok(5,7,8) by (simp_all add: state_ok_def kv_index_of_def marks_ok_def refreshes_ok_def list_all_iff refresh_valid_def
        hwm_on_disk_def cut_fields cut_disk)
  ultimately show ?thesis
    using ok(1-4) range cut_counters cut_records removes_signals [OF cut_removes] removes_targets [OF cut_removes]
    by (simp add: store_ok_def)
qed

lemma records_at_mem: "r \<in> set (records_at st offs d) \<longleftrightarrow> fst r \<in> set offs \<and> dRecs d st (fst r) = Some (snd r)"
  by (cases r) (auto simp: records_at_def map_filter_def image_iff split: option.split_asm)

lemma records_at_size:
  assumes "distinct offs"
  shows "sum_list (map (\<lambda>r. rec_size st (snd r)) (records_at st offs d)) = (\<Sum>off \<in> set offs. size_at st d off)"
  using assms
  by (induction offs) (auto simp: records_at_def List.map_filter_simps size_at_def split: option.split)

lemma scatter_fields:
  "sNext (scatter st offs s) = sNext s" "sLWM (scatter st offs s) = sLWM s" "sSigFrom (scatter st offs s) = sSigFrom s"
  "sTargetFrom (scatter st offs s) = sTargetFrom s" "sHWMs (scatter st offs s) = sHWMs s" "sAdopted (scatter st offs s) = sAdopted s"
  "sBytes (scatter st offs s) =
     (sBytes s)(st := sBytes s st - sum_list (map (\<lambda>r. rec_size st (snd r)) (records_at st offs (sDisk s))))"
  by (simp_all add: scatter_def Let_def)

lemma scatter_disk:
  "dRecs (sDisk (scatter st offs s)) st' off = (if st' = st \<and> off \<in> set offs then None else dRecs (sDisk s) st' off)"
  "dSig (sDisk (scatter st offs s)) = dSig (sDisk s) -
     {(st, sig, off) | sig off. off \<in> set offs \<and> (\<exists>e. dRecs (sDisk s) st off = Some e \<and> xSignalID e = sig \<and> sig \<noteq> '''')}"
  "dBytes (sDisk (scatter st offs s)) = (dBytes (sDisk s))(st \<mapsto> sBytes (scatter st offs s) st)"
  "dMeta (sDisk (scatter st offs s)) = dMeta (sDisk s)" "dIndexed (sDisk (scatter st offs s)) = dIndexed (sDisk s)"
  "dLWM (sDisk (scatter st offs s)) = dLWM (sDisk s)" "dJournal (sDisk (scatter st offs s)) = dJournal (sDisk s)"
  "dKV (sDisk (scatter st offs s)) = dKV (sDisk s)" "dKVIndex (sDisk (scatter st offs s)) = dKVIndex (sDisk s)"
  "dTarget (sDisk (scatter st offs s)) = dTarget (sDisk s)"
  "dSigFrom (sDisk (scatter st offs s)) = dSigFrom (sDisk s)" "dTargetFrom (sDisk (scatter st offs s)) = dTargetFrom (sDisk s)"
  "dHWM (sDisk (scatter st offs s)) = dHWM (sDisk s)" "dChildStore (sDisk (scatter st offs s)) = dChildStore (sDisk s)"
  "dRefresh (sDisk (scatter st offs s)) = dRefresh (sDisk s)"
proof -
  let ?ds = "map (\<lambda>r. (fst r, xSignalID (snd r))) (records_at st offs (sDisk s))"
  have d: "sDisk (scatter st offs s) = setBytes st (sBytes (scatter st offs s) st) (delete_records st ?ds (sDisk s))"
    by (simp add: scatter_def Let_def)
  have "set (records_at st offs (sDisk s)) = {(off, e) | off e. off \<in> set offs \<and> dRecs (sDisk s) st off = Some e}"
    by (auto simp: records_at_mem)
  then have ds: "set ?ds = {(off, xSignalID e) | off e. off \<in> set offs \<and> dRecs (sDisk s) st off = Some e}"
    unfolding set_map by (simp only:) force
  have offs: "off \<in> fst ` set ?ds \<longleftrightarrow> off \<in> set offs \<and> dRecs (sDisk s) st off \<noteq> None" for off
    unfolding ds by force
  then show "dRecs (sDisk (scatter st offs s)) st' off = (if st' = st \<and> off \<in> set offs then None else dRecs (sDisk s) st' off)" for st' off
    unfolding d by (auto simp: setBytes_def delete_records_recs)
  have "(\<lambda>(off, sig). (st, sig, off)) ` {d \<in> set ?ds. snd d \<noteq> ''''} =
      {(st, sig, off) | sig off. off \<in> set offs \<and> (\<exists>e. dRecs (sDisk s) st off = Some e \<and> xSignalID e = sig \<and> sig \<noteq> '''')}"
    unfolding ds by force
  then show "dSig (sDisk (scatter st offs s)) = dSig (sDisk s) -
     {(st, sig, off) | sig off. off \<in> set offs \<and> (\<exists>e. dRecs (sDisk s) st off = Some e \<and> xSignalID e = sig \<and> sig \<noteq> '''')}"
    by (simp add: d setBytes_def delete_records_def)
qed (simp_all add: scatter_def Let_def setBytes_def delete_records_def)

lemma scatter_removes: "removes st (\<lambda>off. off \<in> set offs) s (scatter st offs s)"
  unfolding removes_def scatter_fields scatter_disk by simp

lemma scatter_records:
  assumes ok: "records_ok s" and distinct: "distinct offs"
  shows "records_ok (scatter st offs s)"
proof -
  let ?s = "scatter st offs s"
  have inside: "sLWM s st \<le> off \<and> off < sNext s st" if "dRecs (sDisk s) st off = Some e" for st off e
    using ok that unfolding records_ok_def by blast
  have "(\<Sum>off \<in> set offs. size_at st (sDisk s) off) = (\<Sum>off | off \<in> {sLWM s st..<sNext s st} \<and> off \<in> set offs. size_at st (sDisk s) off)"
    using inside by (intro sum.mono_neutral_right) (auto simp: size_at_def split: option.split)
  then have "stream_size st s = sum_list (map (\<lambda>r. rec_size st (snd r)) (records_at st offs (sDisk s))) + stream_size st ?s"
    using removes_size [OF scatter_removes [of st offs s] inside] records_at_size [OF distinct]
    by (simp add: stream_size_sum scatter_fields)
  then have "sBytes ?s st' = stream_size st' ?s" for st'
    using ok removes_other_size [OF scatter_removes [of st offs s], of st'] by (simp add: scatter_fields records_ok_def)
  moreover have "sLWM ?s st' \<le> off \<and> off < sNext ?s st'" if "dRecs (sDisk ?s) st' off = Some e" for st' off e
    using that inside [of st' off e] by (simp add: scatter_disk scatter_fields split: if_split_asm)
  ultimately show ?thesis by (simp add: records_ok_def)
qed

lemma scatter_ok:
  assumes "store_ok s" "distinct offs"
  shows "store_ok (scatter st offs s)"
proof -
  have ok: "counters_ok s" "records_ok s" "signals_ok s" "targets_ok s" "state_ok s" "journals_ok s" "marks_ok s" "refreshes_ok (sDisk s)"
    using assms(1) by (simp_all add: store_ok_def)
  have b: "restored (dBytes (sDisk (scatter st offs s))) 0 = sBytes (scatter st offs s)"
  proof
    fix st'
    have "sBytes s = restored (dBytes (sDisk s)) 0" using ok(1) by (simp add: counters_ok_def)
    then show "restored (dBytes (sDisk (scatter st offs s))) 0 st' = sBytes (scatter st offs s) st'"
      by (auto simp: scatter_disk scatter_fields restored_def readCounter_def)
  qed
  have "counters_ok (scatter st offs s)" using ok(1) b by (simp add: counters_ok_def scatter_fields scatter_disk)
  moreover have "journals_ok (scatter st offs s)" "state_ok (scatter st offs s)" "marks_ok (scatter st offs s)" "refreshes_ok (sDisk (scatter st offs s))"
    using ok(5-8) by (simp_all add: journals_ok_def state_ok_def kv_index_of_def marks_ok_def refreshes_ok_def list_all_iff refresh_valid_def
        hwm_on_disk_def scatter_fields scatter_disk)
  ultimately show ?thesis
    using ok(2-4) assms(2) scatter_records removes_signals [OF scatter_removes] removes_targets [OF scatter_removes]
    by (simp add: store_ok_def)
qed

section \<open>Every move keeps the invariant\<close>

lemma retract_ok:
  assumes "store_ok s"
  shows "store_ok (s\<lparr>sDisk := deleteKV k (sDisk s)\<rparr>)"
proof -
  have same: "dRecs (deleteKV k d) = dRecs d" "dMeta (deleteKV k d) = dMeta d" "dIndexed (deleteKV k d) = dIndexed d" "dLWM (deleteKV k d) = dLWM d"
    "dBytes (deleteKV k d) = dBytes d" "dSig (deleteKV k d) = dSig d" "dTarget (deleteKV k d) = dTarget d" "dJournal (deleteKV k d) = dJournal d"
    "dSigFrom (deleteKV k d) = dSigFrom d" "dTargetFrom (deleteKV k d) = dTargetFrom d" "dHWM (deleteKV k d) = dHWM d"
    "dChildStore (deleteKV k d) = dChildStore d" "dRefresh (deleteKV k d) = dRefresh d" for d
    by (simp_all add: deleteKV_def)
  have "state_ok (s\<lparr>sDisk := deleteKV k (sDisk s)\<rparr>)"
    using assms kv_index_set(2) [of "sDisk s" k] by (simp add: store_ok_def state_ok_def) (simp add: deleteKV_def)
  then show ?thesis
    using assms by (simp add: store_ok_def counters_ok_def records_ok_def stream_size_sum size_at_def signals_ok_def targets_ok_def
        journals_ok_def marks_ok_def refreshes_ok_def list_all_iff refresh_valid_def hwm_on_disk_def same)
qed

lemma other_ok:
  assumes "store_ok s" "same_records s s'" "marks_ok s \<longrightarrow> marks_ok s'" "refreshes_ok (sDisk s) \<longrightarrow> refreshes_ok (sDisk s')"
  shows "store_ok s'"
  using assms by (simp add: store_ok_def counters_ok_def records_ok_def stream_size_sum size_at_def signals_ok_def targets_ok_def
      state_ok_def kv_index_of_def journals_ok_def same_records_def Let_def)

lemma store_move_ok: "store_move s s' \<Longrightarrow> store_ok s \<Longrightarrow> store_ok s'"
  by (induction rule: store_move.induct) (simp_all add: grow_ok cut_ok scatter_ok retract_ok other_ok)

lemma moves_ok: "moves s s' \<Longrightarrow> store_ok s \<Longrightarrow> store_ok s'"
  by (induction rule: rtranclp_induct) (simp_all add: store_move_ok)

end
