(* ===== verification/Store_Moves.thy ===== *)
theory Store_Moves
  imports Store_Inv
begin

text \<open>
  Every operation of a store is a sequence of moves: one lemma per operation, failed commits included.
  With \<^verbatim>\<open>moves_ok\<close> each operation keeps the invariant.
\<close>

section \<open>Changes no record sees\<close>

definition unseen :: "Store \<Rightarrow> Store \<Rightarrow> bool" where
  "unseen s s' \<longleftrightarrow> same_records s s' \<and> sHWMs s' = sHWMs s \<and> sAdopted s' = sAdopted s \<and> dHWM (sDisk s') = dHWM (sDisk s) \<and>
     dChildStore (sDisk s') = dChildStore (sDisk s) \<and> dRefresh (sDisk s') = dRefresh (sDisk s)"

lemmas unseen_defs = unseen_def same_records_def Let_def

lemma unseen_moves: "unseen s s' \<Longrightarrow> moves s s'"
  by (intro r_into_rtranclp store_move.other)
    (simp_all add: unseen_def marks_ok_def refreshes_ok_def hwm_on_disk_def list_all_iff refresh_valid_def)

lemma unseen_refl [simp]: "unseen s s"
  by (simp add: unseen_defs)

section \<open>Appends\<close>

lemma appended_moves:
  assumes "sNext s st \<noteq> 0"
  shows "moves s (appended st recs lo s)"
proof -
  let ?g = "grow st (with_local_only lo recs) s"
  have "store_move s ?g" using assms by (rule store_move.grow)
  moreover have "unseen ?g (appended st recs lo s)"
    by (simp add: unseen_defs appended_def grow_def)
  ultimately show ?thesis using unseen_moves by (meson converse_rtranclp_into_rtranclp)
qed

lemma check_unseen:
  assumes "checkAppend rt st recs s = (x, s1)"
  shows "\<exists>pol. s1 = s\<lparr>sPolicies := pol\<rparr>"
  using checkAppend_agree [of rt st recs s s] assms by (auto simp: check_agree_def)

lemma policies_moves: "moves s (s\<lparr>sPolicies := pol\<rparr>)"
  by (rule unseen_moves) (simp add: unseen_defs)

lemma appendAdvancing_moves: "moves s (snd (appendAdvancingLocked rt now ok st recs adv s))"
proof -
  obtain x pol where ck: "checkAppend rt st recs s = (x, s\<lparr>sPolicies := pol\<rparr>)"
    using check_unseen by (cases "checkAppend rt st recs s") metis
  let ?p = "s\<lparr>sPolicies := pol\<rparr>"
  show ?thesis
  proof (cases "sNext s st = 0 \<or> isl x \<or> \<not> ok")
    case True
    then show ?thesis
      using policies_moves [of s pol] by (cases x) (auto simp: appendAdvancingLocked_def ck writeAppend_eq Let_def)
  next
    case False
    then obtain lo where x: "x = Inr lo" by (cases x) auto
    have "unseen (appended st recs lo ?p) (snd (appendAdvancingLocked rt now ok st recs adv s))"
      using False x by (simp add: appendAdvancingLocked_def ck writeAppend_eq appended_def unseen_defs setCursor_def split: option.split)
    then have "moves (appended st recs lo ?p) (snd (appendAdvancingLocked rt now ok st recs adv s))"
      by (rule unseen_moves)
    moreover have "moves ?p (appended st recs lo ?p)" using False by (intro appended_moves) simp
    ultimately show ?thesis using policies_moves [of s pol] by (meson rtranclp_trans)
  qed
qed

lemma append_moves: "moves s (snd (appendLocked rt ok st recs s))"
  unfolding appendLocked_def by (rule appendAdvancing_moves)

lemma AppendAdvancing_moves: "moves s (snd (AppendAdvancing rt now ok st recs adv s))"
  using appendAdvancing_moves [of s rt now ok st recs "Some adv"]
  by (auto simp: AppendAdvancing_def split: prod.split sum.split)

lemma AppendIfKVUnchanged_moves: "moves s (snd (AppendIfKVUnchanged rt ok st r at s))"
  using append_moves by (auto simp: AppendIfKVUnchanged_def split: option.split prod.split sum.split) (metis snd_conv)+

lemma MoveRetained_moves: "moves s (snd (MoveRetained rt ok st ms auth s))"
  using append_moves by (auto simp: MoveRetained_def Let_def split: prod.split sum.split) (metis snd_conv)+

text \<open>Group commit, through the store its batch stands for.\<close>

lemma group_effect_moves: "moves q (snd (group_effect st recs y q))"
  by (auto simp: group_effect_def appended_moves split: sum.split)

lemma group_moves:
  assumes "group_sim s0 g q"
  shows "\<exists>q'. group_sim s0 (fold (group_request rt) reqs g) q' \<and> moves q q'"
  using assms
proof (induction reqs arbitrary: g q)
  case (Cons r rs)
  obtain y pol where ck: "checkAppend rt (aqStream r) (aqRecs r) (acStore g) = (y, (acStore g)\<lparr>sPolicies := pol\<rparr>)"
    using check_unseen by (cases "checkAppend rt (aqStream r) (aqRecs r) (acStore g)") metis
  define q0 where "q0 = (if sNext q (aqStream r) = 0 then q else q\<lparr>sPolicies := pol\<rparr>)"
  obtain x q1 where eff: "group_effect (aqStream r) (aqRecs r) y q0 = (x, q1)" by fastforce
  have "moves q q0" unfolding q0_def using policies_moves by simp
  moreover have "moves q0 q1" using group_effect_moves [of q0] eff by (metis snd_conv)
  moreover have "group_sim s0 (group_request rt r g) q1"
    using group_step_effect [OF Cons.prems ck eff [unfolded q0_def]] by blast
  ultimately show ?case using Cons.IH by simp (meson rtranclp_trans)
qed auto

lemma commitAppendBatch_moves: "moves s (snd (commitAppendBatch rt ok reqs s))"
proof -
  define g where "g = fold (group_request rt) reqs (group_start s)"
  obtain q where q: "group_sim s g q" "moves s q" using group_moves [OF group_sim_start] unfolding g_def by blast
  have store: "acStore g = s\<lparr>sPolicies := sPolicies q\<rparr>" using q(1) by (simp add: group_sim_def)
  show ?thesis
  proof (cases ok)
    case True
    obtain h where "snd (commitAppendBatch rt True reqs s) = q\<lparr>sHeads := h\<rparr>"
      using commit_batch_sim [OF g_def q(1)] by auto
    moreover have "moves q (q\<lparr>sHeads := h\<rparr>)" by (rule unseen_moves) (simp add: unseen_defs)
    ultimately show ?thesis using q(2) True by simp
  next
    case False
    then have "snd (commitAppendBatch rt ok reqs s) = acStore g"
      by (simp add: commitAppendBatch_def g_def [symmetric] Let_def)
    then show ?thesis using policies_moves unfolding store by simp
  qed
qed

lemma commitAppends_moves: "moves s (snd (commitAppends rt ok i reqs s))"
proof (induction rt ok i reqs s rule: commitAppends.induct)
  case (1 rt ok i reqs s)
  obtain res s1 where b: "commitAppendBatch rt (ok i) (take (batch_len False reqs) reqs) s = (res, s1)" by fastforce
  then have "moves s s1" using commitAppendBatch_moves [of s rt "ok i"] by (metis snd_conv)
  then show ?case
    using 1 [OF _ refl b [symmetric]] b by (subst commitAppends.simps) (auto simp: Let_def split: prod.split)
qed

lemma Append_moves: "moves s (snd (Append rt ok st recs s))"
  using commitAppends_moves [of s rt "\<lambda>_. ok" 0 "[\<lparr>aqStream = st, aqRecs = recs\<rparr>]"] by (simp add: Append_def case_prod_beta)

section \<open>Replication\<close>

lemma marks_moves:
  assumes "same_records s s'" "dRefresh (sDisk s') = dRefresh (sDisk s)" "marks_ok s \<Longrightarrow> marks_ok s'"
  shows "moves s s'"
  using assms by (intro r_into_rtranclp store_move.other) (simp_all add: refreshes_ok_def list_all_iff refresh_valid_def)

lemma HWMGet_moves: "moves s (snd (HWMGet child st s))"
  by (rule marks_moves) (auto simp: HWMGet_def same_records_def marks_ok_def Let_def split: option.split)

lemma build_records:
  "buildReplicated st rs hwm off b = Inr (a, h, n, y, b1) \<Longrightarrow>
   \<exists>recs. b1 = add_records st off recs b \<and> n = off + length recs \<and> y = records_size st off recs"
proof (induction rs arbitrary: hwm off b a h n y b1)
  case (Cons r rs)
  show ?case
  proof (cases "invalid_skip st r \<or> qChildOffset r \<le> hwm \<or> qSkipFrom r \<noteq> 0")
    case True
    then obtain a' hwm' where "buildReplicated st rs hwm' off b = Inr (a', h, n, y, b1)"
      using Cons.prems by (auto simp: Let_def split: if_split_asm sum.split_asm prod.split_asm)
    then show ?thesis by (rule Cons.IH)
  next
    case False
    define rec where "rec = repl_record (with_origin r)"
    obtain a' y' where rest: "buildReplicated st rs (qChildOffset r) (Suc off) (fst (addRecord st off rec b)) = Inr (a', h, n, y', b1)"
        "y = snd (addRecord st off rec b) + y'"
      using Cons.prems False
      by (auto simp: Let_def rec_def case_prod_beta split: if_split_asm sum.split_asm prod.split_asm)
    then obtain recs where "b1 = add_records st (Suc off) recs (fst (addRecord st off rec b))" "n = Suc off + length recs"
        "y' = records_size st (Suc off) recs"
      using Cons.IH by blast
    then show ?thesis using rest(2) by (intro exI [of _ "rec # recs"]) (simp add: addRecord_simps)
  qed
qed (auto intro!: exI [of _ "[]"])

lemma repl_one_moves: "moves s (snd (repl_one r s))"
proof -
  obtain prev s1 where get: "HWMGet (gChild r) (gStream r) s = (prev, s1)" by fastforce
  obtain c where s1: "s1 = s\<lparr>sHWMs := c\<rparr>" using HWMGet_cases [OF get] by blast
  have m1: "moves s s1" using HWMGet_moves [of s] get by (metis snd_conv)
  show ?thesis
  proof (cases "sNext s (gStream r) = 0 \<or> isl (buildReplicated (gStream r) (gRecs r) prev (sNext s (gStream r)) (sDisk s))")
    case True
    then show ?thesis
      using m1 by (auto simp: repl_one_def get Let_def split: sum.split)
  next
    case False
    define st where "st = gStream r"
    define key where "key = (gChild r, st)"
    have known: "sNext s1 st \<noteq> 0" using False by (simp add: s1 st_def)
    obtain a h n y b where b: "buildReplicated st (gRecs r) prev (sNext s st) (sDisk s) = Inr (a, h, n, y, b)"
      using False by (auto simp: st_def isl_def split: sum.split) (metis obj_sumE prod_cases5)
    obtain recs where recs: "b = add_records st (sNext s st) recs (sDisk s)" "n = sNext s st + length recs" "y = records_size st (sNext s st) recs"
      using build_records [OF b] by blast
    define s2 where "s2 = (if recs = [] then s1 else grow st recs s1)"
    have "moves s1 s2" using store_move.grow [OF known, of recs] by (simp add: s2_def r_into_rtranclp)
    define s3 where "s3 = s2\<lparr>sHWMs := (sHWMs s2)(key \<mapsto> h), sDisk := (sDisk s2)\<lparr>dHWM := tput key h (dHWM (sDisk s2))\<rparr>\<rparr>"
    have m3: "moves s2 s3"
      by (rule marks_moves) (auto simp: s3_def same_records_def marks_ok_def Let_def hwm_on_disk_def tget_def)
    have "snd (repl_one r s) = (if a = [] then s1 else s3)"
      using known b recs unfolding s3_def s2_def key_def
      by (simp add: repl_one_def get [folded st_def] st_def [symmetric] Let_def grow_def s1)
    then show ?thesis using m1 rtranclp_trans [OF m1 rtranclp_trans [OF \<open>moves s1 s2\<close> m3]] by simp
  qed
qed

lemma seq_one_moves: "moves s (snd (seq_one reqs s))"
proof (induction reqs arbitrary: s)
  case (Cons r rs)
  show ?case using rtranclp_trans [OF repl_one_moves [of s r] Cons.IH] by simp
qed simp

lemma repl_request_store: "moves (rgStore g) (rgStore (repl_request r g))"
proof -
  have "rgStore (repl_request r g) = rgStore g \<or> rgStore (repl_request r g) = snd (HWMGet (gChild r) (gStream r) (rgStore g))"
    unfolding repl_request_def repl_answer_def Let_def case_prod_beta
    by (cases "map_of (rgHWMs g) (gChild r, gStream r)") (simp_all split: sum.split)
  then show ?thesis using HWMGet_moves [of "rgStore g" "gChild r" "gStream r"] by (elim disjE) simp_all
qed

lemma repl_requests_store: "moves (rgStore g) (rgStore (fold repl_request reqs g))"
proof (induction reqs arbitrary: g)
  case (Cons r rs)
  show ?case using rtranclp_trans [OF repl_request_store [of g r] Cons.IH] by simp
qed simp

lemma failed_marks_moves:
  "moves s (fold (\<lambda>(r, committed, res) s. if committed then snd (HWMGet (gChild r) (gStream r) s) else s) ds s)"
proof (induction ds arbitrary: s)
  case (Cons d ds)
  obtain r committed res where d: "d = (r, committed, res)" by (metis prod.collapse)
  show ?case using Cons.IH [of s] rtranclp_trans [OF HWMGet_moves [of s "gChild r" "gStream r"] Cons.IH] by (simp add: d)
qed simp

lemma commitReplicated_moves:
  assumes "marks_ok s"
  shows "moves s (snd (commitReplicated ok reqs s))"
proof (cases ok)
  case True
  obtain h where "snd (commitReplicated True reqs s) = snd (seq_one reqs s)\<lparr>sHeads := h\<rparr>"
    using commitReplicated_seq_one [of s reqs] assms by (auto simp: marks_ok_def)
  moreover have "moves (snd (seq_one reqs s)) (snd (seq_one reqs s)\<lparr>sHeads := h\<rparr>)"
    by (rule unseen_moves) (simp add: unseen_defs)
  ultimately show ?thesis using True rtranclp_trans [OF seq_one_moves [of s reqs]] by simp
next
  case False
  have "moves s (rgStore (fold repl_request reqs (repl_start s)))"
    using repl_requests_store [of "repl_start s" reqs] by (simp add: repl_start_def)
  then show ?thesis
    using False rtranclp_trans [OF _ failed_marks_moves [of "rgStore (fold repl_request reqs (repl_start s))" "rgDone (fold repl_request reqs (repl_start s))"]]
    by (simp add: commitReplicated_def Let_def)
qed

lemma AdoptChildStore_moves: "moves s (snd (AdoptChildStore ok child sid s))"
proof -
  define prev where "prev = (case dChildStore (sDisk s) child of Some v \<Rightarrow> v | None \<Rightarrow> '''')"
  define h where "h = (if prev \<noteq> '''' then filter (\<lambda>e. fst (fst e) \<noteq> child) (dHWM (sDisk s)) else dHWM (sDisk s))"
  define c where "c = (if prev \<noteq> '''' then (\<lambda>k. if fst k = child then None else sHWMs s k) else sHWMs s)"
  define adopted where "adopted = s\<lparr>sDisk := (sDisk s)\<lparr>dHWM := h, dChildStore := (dChildStore (sDisk s))(child \<mapsto> sid)\<rparr>,
    sHWMs := c, sAdopted := (sAdopted s)(child \<mapsto> sid)\<rparr>"
  have get: "map_of (filter (\<lambda>e. fst (fst e) \<noteq> child) t) k = (if fst k = child then None else map_of t k)"
    for k :: "string \<times> string" and t :: "(string \<times> string, nat) table"
    by (induction t) auto
  have tab: "table_ok (filter P t)" if "table_ok t" for P and t :: "(string \<times> string, nat) table"
    using that by (simp add: table_ok_def sorted_wrt_map sorted_wrt_filter)
  have "marks_ok adopted" if "marks_ok s"
    using that tab unfolding marks_ok_def adopted_def h_def c_def by (simp add: hwm_on_disk_def tget_def get)
  then have "moves s adopted" by (intro marks_moves) (simp_all add: adopted_def same_records_def Let_def)
  moreover have "moves s (s\<lparr>sAdopted := (sAdopted s)(child \<mapsto> sid)\<rparr>)" if "prev = sid" "sid \<noteq> ''''"
  proof (rule marks_moves)
    have "dChildStore (sDisk s) child = Some sid" using that by (auto simp: prev_def split: option.split_asm)
    then show "marks_ok (s\<lparr>sAdopted := (sAdopted s)(child \<mapsto> sid)\<rparr>)" if "marks_ok s"
      using that by (auto simp: marks_ok_def hwm_on_disk_def)
  qed (simp_all add: same_records_def Let_def)
  moreover have "snd (AdoptChildStore ok child sid s) =
      (if sid = '''' \<or> sAdopted s child = Some sid then s
       else if prev = sid then s\<lparr>sAdopted := (sAdopted s)(child \<mapsto> sid)\<rparr> else if \<not> ok then s else adopted)"
    unfolding AdoptChildStore_def prev_def [symmetric] Let_def adopted_def h_def c_def hwmsDropped_def by (simp cong: if_cong)
  ultimately show ?thesis by simp
qed

section \<open>Cursors and node state\<close>

text \<open>Cursors, acks, set-aside records, the parent's state and the incarnation are families of their own.\<close>

definition cursor_change :: "Disk \<Rightarrow> Disk \<Rightarrow> bool" where
  "cursor_change d d' \<longleftrightarrow>
     d' = d\<lparr>dCursor := dCursor d', dCT := dCT d', dAcked := dAcked d', dSetAside := dSetAside d', dParentState := dParentState d',
            dStoreID := dStoreID d', dIncarnation := dIncarnation d'\<rparr>"

lemma cursor_change_refl [simp]: "cursor_change d d"
  by (simp add: cursor_change_def)

lemma cursor_change_step [intro]:
  "cursor_change d d' \<Longrightarrow> cursor_change d (setCursor n st off now d')"
  "cursor_change d d' \<Longrightarrow> cursor_change d (d'\<lparr>dAcked := a\<rparr>)"
  by (cases d; cases d'; simp add: cursor_change_def setCursor_def)+

lemma cursor_change_moves:
  assumes "cursor_change (sDisk s) (sDisk s')" "s' = s\<lparr>sDisk := sDisk s', sID := sID s', sIDMinted := sIDMinted s'\<rparr>"
  shows "moves s s'"
proof (rule unseen_moves)
  obtain d i m where s': "s' = s\<lparr>sDisk := d, sID := i, sIDMinted := m\<rparr>" using assms(2) by blast
  obtain c t a x p y z where "d = (sDisk s)\<lparr>dCursor := c, dCT := t, dAcked := a, dSetAside := x, dParentState := p,
      dStoreID := y, dIncarnation := z\<rparr>"
    using assms(1) unfolding cursor_change_def s' by auto
  then show "unseen s s'" by (simp add: s' unseen_defs)
qed

lemma ack_step_change:
  "cursor_change d (agBatch g) \<Longrightarrow> cursor_change d (agBatch (ack_step now s r g))"
  by (auto simp: ack_step_def Let_def)

lemma acks_change: "cursor_change d (agBatch g) \<Longrightarrow> cursor_change d (agBatch (fold (ack_step now s) reqs g))"
  by (induction reqs arbitrary: g) (simp_all add: ack_step_change)

lemma commitAcks_moves: "moves s (snd (commitAcks now ok reqs s))"
  using acks_change [of "sDisk s" "ack_start s" now s reqs]
  by (intro cursor_change_moves) (simp_all add: commitAcks_def Let_def ack_start_def)

lemma CursorSetIfAbsent_moves: "moves s (snd (CursorSetIfAbsent now ok n st off s))"
  by (rule cursor_change_moves) (auto simp: CursorSetIfAbsent_def split: option.split)

lemma CursorDelete_moves: "moves s (snd (CursorDelete ok n st s))"
  by (rule cursor_change_moves) (simp_all add: CursorDelete_def cursor_change_def)

lemma CursorMarkSeen_moves: "moves s (CursorMarkSeen ok n st ts s)"
  by (rule cursor_change_moves) (simp_all add: CursorMarkSeen_def cursor_change_def)

lemma SetAsideUplink_moves: "moves s (snd (SetAsideUplink now ok c r s))"
  by (rule cursor_change_moves) (simp_all add: SetAsideUplink_def cursor_change_def setCursor_def)

lemma ClearSetAside_moves: "moves s (snd (ClearSetAside ok p st off s))"
  by (rule cursor_change_moves) (simp_all add: ClearSetAside_def cursor_change_def split: option.split)

lemma reincarnate_moves: "moves s (snd (reincarnate now ok minted from why s))"
  by (rule cursor_change_moves) (simp_all add: reincarnate_def cursor_change_def Let_def)

lemma SetParentState_moves: "moves s (snd (SetParentState ok p v s))"
  by (rule cursor_change_moves) (simp_all add: SetParentState_def cursor_change_def)

lemma resync_change:
  "cursor_change d b \<Longrightarrow> cursor_change d (fold (\<lambda>c. setCursor (cName c) (cStream c) (cTo c) now) cs b)"
  "cursor_change d b \<Longrightarrow> cursor_change d (fold (\<lambda>(stream, mark) b. b\<lparr>dAcked := tput (p, stream) mark (dAcked b)\<rparr>) ms b)"
proof -
  show "cursor_change d b \<Longrightarrow> cursor_change d (fold (\<lambda>c. setCursor (cName c) (cStream c) (cTo c) now) cs b)"
    by (induction cs arbitrary: b) auto
  show "cursor_change d b \<Longrightarrow> cursor_change d (fold (\<lambda>(stream, mark) b. b\<lparr>dAcked := tput (p, stream) mark (dAcked b)\<rparr>) ms b)"
    by (induction ms arbitrary: b) auto
qed

lemma ResyncParent_moves: "moves s (snd (ResyncParent now ok p v cs ms s))"
proof (rule cursor_change_moves)
  define b where "b = fold (\<lambda>(stream, mark) b. b\<lparr>dAcked := tput (p, stream) mark (dAcked b)\<rparr>) ms
    (fold (\<lambda>c. setCursor (cName c) (cStream c) (cTo c) now) cs (sDisk s))"
  have "cursor_change (sDisk s) b" unfolding b_def by (intro resync_change) simp
  then have "cursor_change (sDisk s) (b\<lparr>dParentState := x\<rparr>)" for x
    by (cases "sDisk s"; cases b) (simp add: cursor_change_def)
  then show "cursor_change (sDisk s) (sDisk (snd (ResyncParent now ok p v cs ms s)))"
    by (simp add: ResyncParent_def Let_def b_def)
qed (simp add: ResyncParent_def Let_def)

lemma SetMaxRecordBytes_moves: "moves s (SetMaxRecordBytes n s)"
  by (rule unseen_moves) (simp add: SetMaxRecordBytes_def unseen_defs)

section \<open>Removals\<close>

lemma removal_is_scatter:
  assumes "\<And>r. r \<in> set gone \<Longrightarrow> dRecs (sDisk s) st (fst r) = Some (snd r)"
  shows "commit_removal st (map (\<lambda>r. (fst r, xSignalID (snd r))) gone) (sum_list (map (\<lambda>r. rec_size st (snd r)) gone)) s =
    scatter st (map fst gone) s"
proof -
  have "records_at st (map fst gone) (sDisk s) = gone"
    using assms by (induction gone) (auto simp: records_at_def List.map_filter_simps)
  then show ?thesis by (simp add: commit_removal_def scatter_def Let_def minus_nat_def [symmetric] min_def)
qed

lemma removal_moves:
  assumes "\<And>r. r \<in> set gone \<Longrightarrow> dRecs (sDisk s) st (fst r) = Some (snd r)" "distinct (map fst gone)"
  shows "moves s (commit_removal st (map (\<lambda>r. (fst r, xSignalID (snd r))) gone) (sum_list (map (\<lambda>r. rec_size st (snd r)) gone)) s)"
  using store_move.scatter [OF assms(2)] by (simp add: removal_is_scatter [OF assms(1)] r_into_rtranclp)

text \<open>A scan still describes a store: what it read below its head is there.\<close>

definition scan_fresh :: "string \<Rightarrow> Store \<Rightarrow> Store \<Rightarrow> bool" where
  "scan_fresh st s0 s \<longleftrightarrow> (\<forall>off < sNext s0 st. dRecs (sDisk s) st off = dRecs (sDisk s0) st off)"

lemma scanStream_distinct: "distinct (map fst (scanStream st a b d))"
proof -
  have "distinct (map fst (List.map_filter (\<lambda>off. map_option (Pair off) (f off)) xs))" if "distinct xs" for f :: "nat \<Rightarrow> recEnc option" and xs
    using that by (induction xs) (auto simp: List.map_filter_simps map_filter_def split: option.split)
  then show ?thesis by (simp add: scanStream_def)
qed

lemma Compact_moves:
  assumes "sLWM s st = sLWM s0 st \<and> sHoles s st = sHoles s0 st \<Longrightarrow> scan_fresh st s0 s"
  shows "moves s (snd (Compact ok st s0 s))"
proof -
  define es where "es = scanStream st (sLWM s0 st) (sNext s0 st) (sDisk s0)"
  define P where "P r \<longleftrightarrow> superseded (latest_of es) r \<or> spent_tombstone (latest_of es) (cursorFloorLocked st (sNext s st) (sDisk s)) r" for r
  define s1 where "s1 = commit_removal st (map (\<lambda>r. (fst r, xSignalID (snd r))) (filter P es)) (sum_list (map (\<lambda>r. rec_size st (snd r)) (filter P es))) s"
  have "moves s s1" if "scan_fresh st s0 s"
    unfolding s1_def
  proof (rule removal_moves)
    show "dRecs (sDisk s) st (fst r) = Some (snd r)" if "r \<in> set (filter P es)" for r
      using that \<open>scan_fresh st s0 s\<close> by (simp add: es_def scanned scan_fresh_def)
    show "distinct (map fst (filter P es))" using scanStream_distinct by (simp add: es_def distinct_map_filter)
  qed
  moreover have "snd (Compact ok st s0 s) = s \<or> (sLWM s st = sLWM s0 st \<and> sHoles s st = sHoles s0 st) \<and> snd (Compact ok st s0 s) = s1"
    unfolding Compact_def Let_def es_def [symmetric] P_def [symmetric] s1_def by simp
  ultimately show ?thesis using assms by (elim disjE) simp_all
qed

lemma EvictRecords_moves:
  assumes "sLWM s st = sLWM s0 st \<Longrightarrow> scan_fresh st s0 s"
  shows "moves s (snd (EvictRecords ok st from n doomed s0 s))"
proof -
  define a where "a = (if from < sLWM s0 st then sLWM s0 st else from)"
  define es where "es = scanStream st a (sNext s0 st) (sDisk s0)"
  define gone where "gone = filter (\<lambda>r. doomed (xTopic (snd r))) (take n es)"
  define s1 where "s1 = commit_removal st (map (\<lambda>r. (fst r, xSignalID (snd r))) gone) (sum_list (map (\<lambda>r. rec_size st (snd r)) gone)) s"
  have "moves s s1" if "scan_fresh st s0 s"
    unfolding s1_def
  proof (rule removal_moves)
    show "dRecs (sDisk s) st (fst r) = Some (snd r)" if "r \<in> set gone" for r
    proof -
      have "r \<in> set es" using that by (auto simp: gone_def dest: in_set_takeD)
      then show ?thesis using \<open>scan_fresh st s0 s\<close> by (simp add: es_def scanned scan_fresh_def)
    qed
    show "distinct (map fst gone)"
      using distinct_take [OF scanStream_distinct, of n] by (simp add: es_def gone_def distinct_map_filter take_map)
  qed
  moreover have "snd (EvictRecords ok st from n doomed s0 s) = s \<or>
      sLWM s st = sLWM s0 st \<and> snd (EvictRecords ok st from n doomed s0 s) = s1"
    unfolding EvictRecords_def Let_def a_def [symmetric] es_def [symmetric] gone_def [symmetric] s1_def by simp
  ultimately show ?thesis using assms by (elim disjE) simp_all
qed

lemma retracts_moves: "moves s (s\<lparr>sDisk := fold deleteKV ks (sDisk s)\<rparr>)"
proof (induction ks arbitrary: s)
  case (Cons k ks)
  show ?case
    using converse_rtranclp_into_rtranclp [OF store_move.retract [of s k] Cons.IH] by simp
qed simp

lemma EvictKV_moves: "moves s (snd (EvictKV ok doomed s0 s))"
  using retracts_moves by (simp add: EvictKV_def Let_def)

text \<open>A prefix cut with records for the head and a refresh.\<close>

lemma addRecord_aside:
  "addRecord st off r (b\<lparr>dBytes := y, dJournal := j\<rparr>) = (fst (addRecord st off r b)\<lparr>dBytes := y, dJournal := j\<rparr>, snd (addRecord st off r b))"
  by (cases b) (simp add: addRecord_def project_kv_def setKV_def deleteKV_def Let_def split: option.split)

lemma add_records_aside:
  "add_records st off recs (b\<lparr>dBytes := y, dJournal := j\<rparr>) = (add_records st off recs b)\<lparr>dBytes := y, dJournal := j\<rparr>"
  by (induction recs arbitrary: off b) (simp_all add: addRecord_aside)

lemma add_records_bytes: "add_records st off recs (b\<lparr>dBytes := y\<rparr>) = (add_records st off recs b)\<lparr>dBytes := y\<rparr>"
proof (induction recs arbitrary: off b)
  case (Cons r rs)
  have "fst (addRecord st off r (b\<lparr>dBytes := y\<rparr>)) = fst (addRecord st off r b)\<lparr>dBytes := y\<rparr>"
    by (cases b) (simp add: addRecord_def project_kv_def setKV_def deleteKV_def Let_def split: option.split)
  then show ?case using Cons by simp
qed simp

lemma merge_oldest_at:
  "\<exists>es' m' f. \<forall>b. merge_oldest st es m b = (es', m', b\<lparr>dJournal := (dJournal b)(st := f (dJournal b st))\<rparr>)"
proof (induction "length es" arbitrary: es m)
  case 0
  then show ?case by (intro exI [of _ "[]"] exI [of _ m] exI [of _ "\<lambda>t. t"]) simp
next
  case (Suc n)
  show ?case
  proof (cases "length es > journalCap \<and> length es \<ge> 2")
    case True
    then obtain e0 e1 rest where es: "es = e0 # e1 # rest"
      by (metis (no_types, lifting) One_nat_def Suc_le_length_iff numeral_2_eq_2)
    obtain es' m' f where f: "\<forall>b. merge_oldest st (merge_spans e0 e1 # rest) True b = (es', m', b\<lparr>dJournal := (dJournal b)(st := f (dJournal b st))\<rparr>)"
      using Suc(1) [of "merge_spans e0 e1 # rest" True] Suc(2) es by auto
    show ?thesis using True es f by (intro exI [of _ es'] exI [of _ m'] exI [of _ "\<lambda>t. f (tdel (jFrom e1) t)"]) simp
  next
    case False
    then have "merge_oldest st es m b = (es, m, b)" for b by (cases es rule: remdups_adj.cases) auto
    then show ?thesis by (intro exI [of _ es] exI [of _ m] exI [of _ "\<lambda>t. t"]) simp
  qed
qed

lemma writeJournal_at: "\<exists>f. \<forall>b. writeJournal st span d b = b\<lparr>dJournal := (dJournal b)(st := f (dJournal b st))\<rparr>"
proof -
  obtain es m f where f: "\<forall>b. merge_oldest st (PruneJournal st d @ [span]) False b = (es, m, b\<lparr>dJournal := (dJournal b)(st := f (dJournal b st))\<rparr>)"
    using merge_oldest_at by metis
  define put where "put sp t = tput (jFrom sp) (sp\<lparr>jShed := 0\<rparr>) t" for sp :: PruneSpan and t
  show ?thesis
    by (rule exI [of _ "\<lambda>t. put span (if m then put (hd es) (f t) else f t)"])
      (simp add: writeJournal_def f setJournal_def put_def)
qed

lemma pruned_store_moves:
  assumes range: "sLWM s st < upTo" "upTo \<le> sNext s st"
    and valid: "\<And>sp r. plan = Some sp \<Longrightarrow> poRefresh (sp (prune_span st upTo s)) = Some r \<Longrightarrow> fst r < snd r"
  shows "moves s (pruned_store plan st upTo s)"
proof -
  define out where "out = prune_outcome plan st upTo s"
  define gaps where "gaps = poGapRecords out"
  define D where "D = delete_prefix st (sLWM s st) upTo (scanDoomed st (sLWM s st) upTo (sDisk s)) (sDisk s)"
  define live where "live = sBytes s st - psShed (scanDoomed st (sLWM s st) upTo (sDisk s))"
  define s1 where "s1 = cut_prefix_at st upTo s"
  define s2 where "s2 = (if gaps = [] then s1 else grow st gaps s1)"
  obtain f where wj: "\<forall>b. writeJournal st (prune_span st upTo s) (sDisk s) b = b\<lparr>dJournal := (dJournal b)(st := f (dJournal b st))\<rparr>"
    using writeJournal_at by metis
  define J where "J = (dJournal D)(st := f (dJournal D st))"
  have s1: "s1 = s\<lparr>sDisk := D\<lparr>dBytes := (dBytes D)(st \<mapsto> live), dJournal := J\<rparr>, sLWM := (sLWM s)(st := upTo), sBytes := (sBytes s)(st := live)\<rparr>"
    by (simp add: s1_def cut_prefix_at_def Let_def wj setBytes_def D_def live_def J_def delete_prefix_def)
  define R where "R = (case poRefresh out of None \<Rightarrow> dRefresh D | Some r \<Rightarrow> (dRefresh D)(st \<mapsto> merge_refresh r (refreshPending st (sDisk s))))"
  define b where "b = (add_records st (sNext s st) gaps D)\<lparr>dBytes := (dBytes D)(st \<mapsto> live + records_size st (sNext s st) gaps), dJournal := J, dRefresh := R\<rparr>"
  have pruned: "pruned_store plan st upTo s = s\<lparr>sDisk := (if gaps = [] then b else setHead st (sNext s st + length gaps) b),
      sNext := (sNext s)(st := sNext s st + length gaps), sLWM := (sLWM s)(st := upTo),
      sBytes := (sBytes s)(st := live + records_size st (sNext s st) gaps)\<rparr>"
    unfolding pruned_store_def Let_def out_def [symmetric] gaps_def [symmetric] D_def [symmetric] live_def [symmetric]
    by (simp add: wj b_def R_def J_def setBytes_def setHead_def add_records_simps split: option.split)
  have "store_move s s1" unfolding s1_def using range by (rule store_move.cut)
  moreover have "moves s1 s2"
    using store_move.grow [of s1 st gaps] range by (simp add: s2_def s1 r_into_rtranclp)
  moreover have "moves s2 (pruned_store plan st upTo s)"
  proof (intro r_into_rtranclp store_move.other impI)
    show "same_records s2 (pruned_store plan st upTo s)"
      unfolding same_records_def Let_def s2_def pruned
      by (simp add: s1 grow_def Let_def add_records_aside b_def setBytes_def setHead_def)
    have same: "sHWMs s2 = sHWMs s" "sAdopted s2 = sAdopted s" "dHWM (sDisk s2) = dHWM D" "dChildStore (sDisk s2) = dChildStore D"
      "dRefresh (sDisk s2) = dRefresh D"
      by (simp_all add: s2_def s1 grow_def Let_def add_records_simps setBytes_def setHead_def)
    show "marks_ok (pruned_store plan st upTo s)" if "marks_ok s2"
      using that unfolding marks_ok_def same by (simp add: pruned b_def setHead_def add_records_simps hwm_on_disk_def same)
    have R: "R st' = dRefresh D st' \<or> (\<exists>x. R st' = Some x \<and> fst x < snd x)" for st'
    proof (cases "poRefresh out")
      case (Some r)
      then have "fst r < snd r" using valid by (auto simp: out_def prune_outcome_def split: option.split_asm)
      then have "fst (merge_refresh r c) < snd (merge_refresh r c)" for c
        by (auto simp: merge_refresh_def min_def max_def split: option.split)
      then show ?thesis by (cases "merge_refresh r (refreshPending st (sDisk s))") (auto simp: R_def Some, metis fst_conv snd_conv)
    qed (simp add: R_def)
    have "dRefresh (sDisk (pruned_store plan st upTo s)) = R" by (simp add: pruned b_def setHead_def)
    then show "refreshes_ok (sDisk (pruned_store plan st upTo s))" if "refreshes_ok (sDisk s2)"
      using that R unfolding refreshes_ok_def list_all_iff refresh_valid_def same by (metis (no_types, lifting) case_prod_beta option.simps(5))
  qed
  ultimately show ?thesis by (rule converse_rtranclp_into_rtranclp [OF _ rtranclp_trans])
qed

definition plan_valid :: "(PruneSpan \<Rightarrow> PruneOutcome) option \<Rightarrow> bool" where
  "plan_valid plan \<longleftrightarrow> (\<forall>p span r. plan = Some p \<and> poRefresh (p span) = Some r \<longrightarrow> fst r < snd r)"

lemma PruneScanned_moves:
  assumes "scan_ok scan s" "plan_valid plan"
  shows "moves s (snd (PruneScanned ok scan ov plan s))"
proof -
  define upTo where "upTo = cursor_floor (zStream scan) ov (zUpTo scan) (sDisk s)"
  have "upTo \<le> zUpTo scan" unfolding upTo_def by (rule cursor_floor_le)
  then have "moves s (pruned_store plan (zStream scan) upTo s)"
    if "sLWM s (zStream scan) < upTo" "zUpTo scan \<le> sNext s (zStream scan)"
    using that assms(2) by (intro pruned_store_moves) (auto simp: plan_valid_def)
  then show ?thesis
    unfolding PruneScanned_eq [OF assms(1)] Let_def upTo_def [symmetric] by auto
qed

text \<open>The scan of a snapshot that still describes the store is good.\<close>

lemma fresh_scan_ok:
  assumes "sLWM s st = sLWM s0 st \<and> sHoles s st = sHoles s0 st \<Longrightarrow> scan_fresh st s0 s" "upTo \<le> sNext s0 st"
  shows "scan_ok \<lparr>zStream = st, zFrom = sLWM s0 st, zUpTo = upTo, zHoles = sHoles s0 st,
      zStats = scanDoomed st (sLWM s0 st) upTo (sDisk s0)\<rparr> s"
proof -
  have "scanStream st (sLWM s0 st) upTo (sDisk s0) = scanStream st (sLWM s0 st) upTo (sDisk s)" if "scan_fresh st s0 s"
    using that assms(2) by (intro scanStream_cong) (simp add: scan_fresh_def)
  then show ?thesis using assms(1) by (simp add: scan_ok_def scanDoomed_def)
qed

lemma Prune_moves:
  assumes "sLWM s st = sLWM s0 st \<and> sHoles s st = sHoles s0 st \<Longrightarrow> scan_fresh st s0 s" "plan_valid plan"
  shows "moves s (snd (Prune ok st upTo ov plan s0 s))"
proof (cases "upTo \<le> sNext s0 st")
  case True
  show ?thesis using PruneScanned_moves [OF fresh_scan_ok [OF assms(1) True] assms(2)] by (simp add: Prune_def Let_def)
qed (simp add: Prune_def Let_def)

lemma ClearRefreshPending_moves: "moves s (snd (ClearRefreshPending ok st s))"
proof -
  have "store_move s (s\<lparr>sDisk := (sDisk s)\<lparr>dRefresh := (dRefresh (sDisk s))(st := None)\<rparr>\<rparr>)"
    by (rule store_move.other)
      (simp_all add: same_records_def Let_def marks_ok_def hwm_on_disk_def refreshes_ok_def list_all_iff refresh_valid_def)
  then show ?thesis by (simp add: ClearRefreshPending_def r_into_rtranclp)
qed

section \<open>Retention per signal\<close>

definition good_doomed :: "string \<Rightarrow> Store \<Rightarrow> doomedRec \<Rightarrow> bool" where
  "good_doomed st s d \<longleftrightarrow> (\<exists>e. dRecs (sDisk s) st (oOff d) = Some e \<and> oSignal d = xSignalID e \<and> oSize d = rec_size st e)"

lemma deleteSignalRecords_moves:
  assumes good: "\<And>d. d \<in> set ds \<Longrightarrow> good_doomed st s d" and distinct: "distinct (map oOff ds)" and known: "sNext s st \<noteq> 0"
  shows "moves s (snd (deleteSignalRecords ok st ds ov marker s))"
proof -
  define gone where "gone = filter (\<lambda>d. \<not> (oOff d \<ge> signal_floor st ov s \<or> oOff d < sLWM s st)) ds"
  define passed where "passed = map fst (filter (\<lambda>(name, pos). pos \<le> jTo (doomed_span gone)) (stale_cursors st ov (sDisk s)))"
  define marks where "marks = (case marker of Some m \<Rightarrow> if passed = [] then [] else m (doomed_span gone) passed | None \<Rightarrow> [])"
  define rs where "rs = map (\<lambda>d. (oOff d, the (dRecs (sDisk s) st (oOff d)))) gone"
  have g: "dRecs (sDisk s) st (oOff d) = Some (the (dRecs (sDisk s) st (oOff d)))" "oSignal d = xSignalID (the (dRecs (sDisk s) st (oOff d)))"
    "oSize d = rec_size st (the (dRecs (sDisk s) st (oOff d)))" if "d \<in> set gone" for d
    using good [of d] that by (auto simp: gone_def good_doomed_def)
  have keys: "map (\<lambda>d. (oOff d, oSignal d)) gone = map (\<lambda>r. (fst r, xSignalID (snd r))) rs"
    and shed: "jShed (doomed_span gone) = sum_list (map (\<lambda>r. rec_size st (snd r)) rs)"
    using g by (auto simp: rs_def doomed_span_def comp_def intro!: arg_cong [of _ _ sum_list])
  have offs: "distinct (map fst rs)"
    using distinct by (simp add: rs_def gone_def comp_def distinct_map_filter)
  define s1 where "s1 = scatter st (map fst rs) s"
  have s1: "s1 = commit_removal st (map (\<lambda>r. (fst r, xSignalID (snd r))) rs) (sum_list (map (\<lambda>r. rec_size st (snd r)) rs)) s"
    unfolding s1_def by (rule removal_is_scatter [symmetric]) (use g in \<open>auto simp: rs_def\<close>)
  define s2 where "s2 = (if marks = [] then s1 else grow st marks s1)"
  have clamp: "(if b < a then 0 else b - a) = b - a" "b - min a b = b - a" for a b :: nat by simp_all
  have "moves s s1" unfolding s1_def using store_move.scatter [OF offs] by (rule r_into_rtranclp)
  moreover have "moves s1 s2" using store_move.grow [of s1 st marks] known by (simp add: s2_def s1_def scatter_fields r_into_rtranclp)
  moreover have "snd (deleteSignalRecords ok st ds ov marker s) = (if gone = [] \<or> \<not> ok then s else s2)"
    unfolding deleteSignalRecords_def Let_def gone_def [symmetric] passed_def [symmetric] marks_def [symmetric] writeAppend_eq keys shed
    by (cases s) (simp add: s2_def s1 commit_removal_def grow_def Let_def setBytes_def setHead_def add_records_bytes add_records_simps clamp)
  ultimately show ?thesis using rtranclp_trans [of store_move s s1 s2] by simp
qed

text \<open>The walk: what it is about to delete is there, with the size and signal it remembers.\<close>

definition walk_good :: "prune_call \<Rightarrow> Store \<Rightarrow> prune_walk \<Rightarrow> bool" where
  "walk_good c s w \<longleftrightarrow>
     moves s (pwStore w) \<and> signal_removal (pcStream c) (pcOverridden c) s (pwStore w) \<and> sNext s (pcStream c) \<noteq> 0 \<and>
     distinct (map oOff (pwDoomed w)) \<and>
     (\<forall>d \<in> set (pwDoomed w). good_doomed (pcStream c) (pwStore w) d \<and> oOff d < sNext s (pcStream c))"

lemma walk_good_simps [simp]:
  "walk_good c s (w\<lparr>pwVisited := v\<rparr>) = walk_good c s w" "walk_good c s (w\<lparr>pwRes := r\<rparr>) = walk_good c s w"
  by (simp_all add: walk_good_def)

definition keep_good :: "prune_call \<Rightarrow> Store \<Rightarrow> string \<Rightarrow> nat list \<Rightarrow> prune_walk \<Rightarrow> doomedRec option \<Rightarrow> bool" where
  "keep_good c s sig offs w keep \<longleftrightarrow>
     (\<forall>k. keep = Some k \<longrightarrow> good_doomed (pcStream c) (pwStore w) k \<and> oOff k < sNext s (pcStream c) \<and> oSignal k = sig \<and>
        oOff k \<notin> oOff ` set (pwDoomed w) \<and> oOff k \<notin> set offs)"

lemma flush_good:
  assumes "walk_good c s w"
  shows "walk_good c s (flush_doomed c w)" "pwDoomed (flush_doomed c w) = []"
    "good_doomed (pcStream c) (pwStore w) k \<Longrightarrow> oOff k \<notin> oOff ` set (pwDoomed w) \<Longrightarrow> oOff k < sNext s (pcStream c) \<Longrightarrow>
       good_doomed (pcStream c) (pwStore (flush_doomed c w)) k"
proof -
  define st where "st = pcStream c"
  obtain r s1 where del: "deleteSignalRecords (pcOk c (pwFlushes w)) st (pwDoomed w) (pcOverridden c)
      (map_option (\<lambda>m. m (spOverridden (pwRes w))) (pcMarker c)) (pwStore w) = (r, s1)" by fastforce
  show empty: "pwDoomed (flush_doomed c w) = []"
    using del by (cases r) (auto simp: flush_doomed_def st_def [symmetric])
  have store: "pwStore (flush_doomed c w) = (if pwDoomed w = [] then pwStore w else s1)"
    using del by (cases r) (auto simp: flush_doomed_def st_def [symmetric])
  have w: "moves s (pwStore w)" "signal_removal st (pcOverridden c) s (pwStore w)" "sNext s st \<noteq> 0" "distinct (map oOff (pwDoomed w))"
    "\<And>d. d \<in> set (pwDoomed w) \<Longrightarrow> good_doomed st (pwStore w) d"
    using assms by (auto simp: walk_good_def st_def)
  have le: "sNext s st \<le> sNext (pwStore w) st" using w(2) by (simp add: signal_removal_def)
  have "moves (pwStore w) s1"
    using deleteSignalRecords_moves [OF w(5,4), of "pcOk c (pwFlushes w)" "pcOverridden c"
        "map_option (\<lambda>m. m (spOverridden (pwRes w))) (pcMarker c)"] del le w(3) by simp
  then show "walk_good c s (flush_doomed c w)"
    using rtranclp_trans [OF w(1)] signal_removal_trans [OF w(2) deleteSignalRecords_removal [OF del]] w
    unfolding walk_good_def empty store st_def [symmetric] by simp
  show "good_doomed (pcStream c) (pwStore (flush_doomed c w)) k"
    if "good_doomed (pcStream c) (pwStore w) k" "oOff k \<notin> oOff ` set (pwDoomed w)" "oOff k < sNext s (pcStream c)"
  proof -
    have "dRecs (sDisk s1) st (oOff k) = dRecs (sDisk (pwStore w)) st (oOff k)"
      using del
    proof (cases rule: deleteSignalRecords_cases)
      case (removed gone)
      then show ?thesis using removed(3) [of st "oOff k"] removed(1) that(2,3) le by (auto simp: st_def)
    qed simp
    then show ?thesis using that(1) by (simp add: store good_doomed_def st_def [symmetric])
  qed
qed

lemma walk_good_exchange:
  assumes w: "walk_good c s w" and k: "keep_good c s sig offs w (Some k)" and cand: "keep_good c s sig offs w (Some cand)"
    and ne: "oOff k \<noteq> oOff cand" and doomed: "oOff ` set (pwDoomed w) \<inter> set offs = {}"
    and d: "d = (if b then k else cand)" and keep': "keep' = (if b then cand else k)"
    and w': "w' = (if n then flush_doomed c (w\<lparr>pwDoomed := pwDoomed w @ [d]\<rparr>) else w\<lparr>pwDoomed := pwDoomed w @ [d]\<rparr>)"
  shows "walk_good c s w' \<and> keep_good c s sig offs w' (Some keep') \<and> oOff ` set (pwDoomed w') \<inter> set offs = {} \<and>
    (\<forall>x \<in> set (pwDoomed w'). x \<in> set (pwDoomed w) \<or> oSignal x = sig)"
proof -
  define w2 where "w2 = w\<lparr>pwDoomed := pwDoomed w @ [d]\<rparr>"
  have d: "good_doomed (pcStream c) (pwStore w) d" "oOff d < sNext s (pcStream c)" "oSignal d = sig" "oOff d \<notin> oOff ` set (pwDoomed w)"
      "oOff d \<notin> set offs" "oOff d \<noteq> oOff keep'"
    and kp: "good_doomed (pcStream c) (pwStore w) keep'" "oOff keep' < sNext s (pcStream c)" "oSignal keep' = sig"
      "oOff keep' \<notin> oOff ` set (pwDoomed w2)" "oOff keep' \<notin> set offs"
    using k cand ne by (auto simp: keep_good_def d keep' w2_def split: if_split_asm)
  have w2: "walk_good c s w2" using w d by (auto simp: walk_good_def w2_def)
  have w': "w' = (if n then flush_doomed c w2 else w2)" using w' by (simp add: w2_def)
  show ?thesis
  proof (cases n)
    case True
    then show ?thesis
      using flush_good [OF w2] flush_good(3) [OF w2, of keep'] kp by (simp add: w' keep_good_def) (simp add: w2_def)
  next
    case False
    then show ?thesis using w2 kp d doomed by (simp add: w' keep_good_def) (simp add: w2_def)
  qed
qed

lemma walk_signal_good:
  assumes "walk_good c s w" "keep_good c s sig offs w keep" "oOff ` set (pwDoomed w) \<inter> set offs = {}" "distinct offs"
    and "pcClamp c \<le> sNext s (pcStream c)"
    and "\<forall>off \<in> set offs. \<forall>e. dRecs (sDisk s) (pcStream c) off = Some e \<longrightarrow> xSignalID e = sig"
  shows "walk_good c s (fst (walk_signal c sig offs cf keep w)) \<and>
    (\<forall>x \<in> set (pwDoomed (fst (walk_signal c sig offs cf keep w))). x \<in> set (pwDoomed w) \<or> oSignal x = sig)"
  using assms
proof (induction offs arbitrary: cf keep w)
  case (Cons off offs)
  let ?st = "pcStream c"
  define w1 where "w1 = w\<lparr>pwVisited := Suc (pwVisited w)\<rparr>"
  have w1: "walk_good c s w1" "pwDoomed w1 = pwDoomed w" "pwStore w1 = pwStore w" "keep_good c s sig offs w1 keep"
    using Cons.prems(1,2) by (simp_all add: w1_def keep_good_def)
  have IH: "walk_good c s (fst (walk_signal c sig offs cf keep w')) \<and>
      (\<forall>x \<in> set (pwDoomed (fst (walk_signal c sig offs cf keep w'))). x \<in> set (pwDoomed w) \<or> oSignal x = sig)"
    if "walk_good c s w'" "keep_good c s sig offs w' keep" "oOff ` set (pwDoomed w') \<inter> set offs = {}"
      "\<forall>x \<in> set (pwDoomed w'). x \<in> set (pwDoomed w) \<or> oSignal x = sig" for cf keep w'
    using Cons.IH [OF that(1-3), of cf] Cons.prems(4-6) that(4) by auto
  have disj: "oOff ` set (pwDoomed w1) \<inter> set offs = {}" using Cons.prems(3) w1(2) by auto
  consider "off \<ge> pcClamp c" | "off < pcClamp c" "dRecs (sDisk (pwStore w)) ?st off = None"
    | e where "off < pcClamp c" "dRecs (sDisk (pwStore w)) ?st off = Some e" by fastforce
  then show ?case
  proof cases
    case 1
    then show ?thesis using Cons.prems(1) by simp
  next
    case 2
    then show ?thesis using IH [OF w1(1) w1(4) disj, of cf] w1(2) by (simp add: w1_def)
  next
    case (3 e)
    have off: "off < sNext s ?st" using 3(1) Cons.prems(5) by simp
    have "signal_removal ?st (pcOverridden c) s (pwStore w)" using Cons.prems(1) by (simp add: walk_good_def)
    then have "dRecs (sDisk s) ?st off = Some e" using 3(2) off unfolding signal_removal_def by (metis option.distinct(1))
    then have sig: "xSignalID e = sig" using Cons.prems(6) by simp
    define cand where "cand = \<lparr>oOff = off, oSignal = sig, oTS = xTS e, oSize = rec_size ?st e\<rparr>"
    have cand: "keep_good c s sig offs w1 (Some cand)"
      using 3(2) off sig Cons.prems(3,4) w1(2,3) by (auto simp: keep_good_def good_doomed_def cand_def)
    from 3 w1_def refl cand_def show ?thesis
    proof (cases rule: walk_signal_read [where keep = keep and offs = offs and cf = cf and sig = sig])
      case stop
      then show ?thesis using flush_good [of c s "w1\<lparr>pwRes := (pwRes w1)\<lparr>spResume := sig\<rparr>\<rparr>"] w1(1) by simp
    next
      case window
      then show ?thesis using w1(1,2) by simp
    next
      case (first t)
      show ?thesis using IH [OF w1(1) cand disj, of "Some t"] w1(2) unfolding first(4) by simp
    next
      case (exchange t k d n w3)
      have k: "keep_good c s sig offs w1 (Some k)" "oOff k \<noteq> oOff cand"
        using w1(4) Cons.prems(2) exchange(3) by (auto simp: keep_good_def cand_def)
      note x = walk_good_exchange [OF w1(1) k(1) cand k(2) disj exchange(4) refl exchange(5)]
      have "\<forall>x \<in> set (pwDoomed w3). x \<in> set (pwDoomed w) \<or> oSignal x = sig" using x w1(2) by simp
      with IH [of w3 "Some (if oTS cand \<ge> oTS k then cand else k)" "Some t"] x exchange(6) show ?thesis by metis
    qed
  qed
qed simp

lemma walk_signals_good:
  assumes "index_sound (pcStream c) (sDisk s)" "pcClamp c \<le> sNext s (pcStream c)" "walk_good c s w" "distinct sigs"
    and "\<forall>d \<in> set (pwDoomed w). oSignal d \<notin> set sigs"
  shows "walk_good c s (walk_signals c (sLWM s (pcStream c)) (sDisk s) sigs w)"
  using assms(3-5)
proof (induction sigs arbitrary: w)
  case Nil
  then show ?case using flush_good(1) by simp
next
  case (Cons sig sigs)
  let ?st = "pcStream c" and ?offs = "index_offsets (pcStream c) sig (sLWM s (pcStream c)) (sDisk s)"
  define w1 where "w1 = w\<lparr>pwRes := (pwRes w)\<lparr>spSignals := spSignals (pwRes w) + 1\<rparr>\<rparr>"
  have w1: "walk_good c s w1" "pwDoomed w1 = pwDoomed w" using Cons.prems(1) by (simp_all add: w1_def)
  have offs: "\<forall>off \<in> set ?offs. \<forall>e. dRecs (sDisk s) ?st off = Some e \<longrightarrow> xSignalID e = sig"
    using assms(1) index_offsets_mem by (fastforce simp: index_sound_def)
  have "oOff d \<notin> set ?offs" if "d \<in> set (pwDoomed w)" for d
  proof
    assume "oOff d \<in> set ?offs"
    have "good_doomed ?st (pwStore w) d" "oOff d < sNext s ?st" "signal_removal ?st (pcOverridden c) s (pwStore w)"
      using Cons.prems(1) that by (auto simp: walk_good_def)
    then obtain e where "dRecs (sDisk s) ?st (oOff d) = Some e" "oSignal d = xSignalID e"
      unfolding good_doomed_def signal_removal_def by (metis option.distinct(1))
    then have "oSignal d = sig" using offs \<open>oOff d \<in> set ?offs\<close> by simp
    then show False using Cons.prems(3) that by simp
  qed
  then have disj: "oOff ` set (pwDoomed w1) \<inter> set ?offs = {}" using w1(2) by auto
  define w2 where "w2 = fst (walk_signal c sig ?offs None None w1)"
  have w2: "walk_good c s w2" "\<forall>x \<in> set (pwDoomed w2). x \<in> set (pwDoomed w) \<or> oSignal x = sig"
    using walk_signal_good [OF w1(1) _ disj _ assms(2) offs, of None None] w1(2)
    by (simp_all add: w2_def keep_good_def index_offsets_def)
  then have "walk_good c s (walk_signals c (sLWM s ?st) (sDisk s) sigs w2)"
    using Cons.IH [OF w2(1)] Cons.prems(2,3) by fastforce
  moreover have "walk_good c s (flush_doomed c (w\<lparr>pwRes := (pwRes w)\<lparr>spResume := sig\<rparr>\<rparr>))"
    using flush_good(1) Cons.prems(1) by simp
  ultimately show ?case
    using w2(1) unfolding walk_signals.simps Let_def w1_def [symmetric] w2_def by (simp add: case_prod_beta)
qed

lemma PruneSignals_moves:
  assumes "index_sound (pcStream c) (sDisk s)"
  shows "moves s (snd (PruneSignals c from s))"
proof -
  define w0 where "w0 = \<lparr>pwRes = no_prune_result, pwDoomed = [], pwVisited = 0, pwFlushes = 0, pwStore = s, pwErr = None\<rparr>"
  define c1 where "c1 = c\<lparr>pcClamp := min (pcClamp c) (sNext s (pcStream c))\<rparr>"
  have "moves s (pwStore (walk_signals c1 (sLWM s (pcStream c)) (sDisk s) (index_signals (pcStream c) from (sDisk s)) w0))"
    if "sNext s (pcStream c) \<noteq> 0"
    using walk_signals_good [of c1 s w0 "index_signals (pcStream c) from (sDisk s)"] assms that
    by (simp add: c1_def w0_def index_signals_def walk_good_def)
  then show ?thesis unfolding PruneSignals_def Let_def c1_def [symmetric] w0_def [symmetric] by simp
qed

end
