(* ===== verification/Store_Machine.thy ===== *)
theory Store_Machine
  imports Store_Moves
begin

text \<open>
  The store as a state machine. A state is the live store and the snapshots of it that running operations
  hold: \<^verbatim>\<open>Prune\<close>, \<^verbatim>\<open>Compact\<close> and the evictions scan without the mutex and commit under it, so any
  other operation may come between. A step is one operation, its commit succeeding or not, or a restart of
  the process. Every reachable store is well formed, a snapshot whose counters still stand still describes
  the records, and a restart gives back what the process had in memory.
\<close>

section \<open>What time does to records\<close>

definition later :: "Store \<Rightarrow> Store \<Rightarrow> bool" where
  "later s s' \<longleftrightarrow> (\<forall>st. sNext s st \<le> sNext s' st \<and> sLWM s st \<le> sLWM s' st \<and> sHoles s st \<le> sHoles s' st \<and>
     (sLWM s' st = sLWM s st \<and> sHoles s' st = sHoles s st \<longrightarrow> scan_fresh st s s'))"

lemma later_refl [simp]: "later s s"
  by (simp add: later_def scan_fresh_def)

lemma later_trans:
  assumes "later s s1" "later s1 s2"
  shows "later s s2"
  unfolding later_def
proof (intro allI conjI impI)
  fix st
  have a: "sNext s st \<le> sNext s1 st" "sLWM s st \<le> sLWM s1 st" "sHoles s st \<le> sHoles s1 st"
    "sLWM s1 st = sLWM s st \<and> sHoles s1 st = sHoles s st \<Longrightarrow> scan_fresh st s s1"
    and b: "sNext s1 st \<le> sNext s2 st" "sLWM s1 st \<le> sLWM s2 st" "sHoles s1 st \<le> sHoles s2 st"
    "sLWM s2 st = sLWM s1 st \<and> sHoles s2 st = sHoles s1 st \<Longrightarrow> scan_fresh st s1 s2"
    using assms by (simp_all add: later_def)
  show "sNext s st \<le> sNext s2 st" "sLWM s st \<le> sLWM s2 st" "sHoles s st \<le> sHoles s2 st" using a b by simp_all
  assume "sLWM s2 st = sLWM s st \<and> sHoles s2 st = sHoles s st"
  then have "scan_fresh st s s1" "scan_fresh st s1 s2" using a b by simp_all
  then show "scan_fresh st s s2" using a(1) by (simp add: scan_fresh_def)
qed

lemma store_move_later: "store_move s s' \<Longrightarrow> later s s'"
proof (induction rule: store_move.induct)
  case (grow s st recs)
  show ?case by (simp add: later_def grow_fields scan_fresh_def grow_recs)
next
  case (cut s st upTo)
  then show ?case by (auto simp: later_def cut_fields scan_fresh_def cut_disk)
next
  case (scatter offs s st)
  show ?case by (simp add: later_def scatter_fields scan_fresh_def scatter_disk) (simp add: scatter_def Let_def)
qed (simp_all add: later_def scan_fresh_def same_records_def Let_def deleteKV_def)

lemma moves_later: "moves s s' \<Longrightarrow> later s s'"
  by (induction rule: rtranclp_induct) (auto dest: store_move_later intro: later_trans)

section \<open>Opening\<close>

lemma trusted_open:
  assumes "counters_ok s"
  shows "list_all (indexTrust (sDisk s) legacy (sNext s)) streams"
  using assms by (auto simp: list_all_iff indexTrust_def counters_ok_def Let_def)


definition reopened :: "string \<Rightarrow> Store \<Rightarrow> Store" where
  "reopened minted s =
     \<lparr>sDisk = (sDisk s)\<lparr>dLegacySig := None, dLegacyKV := None,
        dStoreID := Some (case dStoreID (sDisk s) of Some known \<Rightarrow> known | None \<Rightarrow> minted)\<rparr>,
      sNext = sNext s, sLWM = sLWM s, sBytes = sBytes s, sHoles = (\<lambda>_. 0), sHeads = (\<lambda>_ _. 0), sHWMs = (\<lambda>_. None),
      sAdopted = (\<lambda>_. None), sPolicies = [], sSigFrom = (\<lambda>st. if st \<in> set streams then sSigFrom s st else 0),
      sTargetFrom = (\<lambda>st. if st \<in> set streams then sTargetFrom s st else 0), sMaxRecordBytes = 0,
      sID = (case dStoreID (sDisk s) of Some known \<Rightarrow> known | None \<Rightarrow> minted),
      sIDMinted = (dStoreID (sDisk s) = None)\<rparr>"

lemma open_reopened:
  assumes "store_ok s"
  shows "OpenWithOptions admit minted (sDisk s) = Some (reopened minted s)"
proof -
  let ?d = "sDisk s"
  have ok: "counters_ok s" "signals_ok s" "targets_ok s" "list_all (refresh_valid ?d) streams"
    using assms by (simp_all add: store_ok_def refreshes_ok_def)
  have n: "restored (dMeta ?d) 1 = sNext s" "restored (dLWM ?d) 1 = sLWM s" "restored (dBytes ?d) 0 = sBytes s"
    using ok(1) by (simp_all add: counters_ok_def)
  have trust: "indexTrust ?d legacy (sNext s) st" if "st \<in> set streams" for legacy st
    using trusted_open [OF ok(1)] that by (simp add: list_all_iff)
  have sf: "dSigFrom ?d st = Some (sSigFrom s st)" "dTargetFrom ?d st = Some (sTargetFrom s st)" if "st \<in> set streams" for st
    using ok(2,3) that by (simp_all add: signals_ok_def targets_ok_def)
  have idx: "dIndexed ?d st = Some (sNext s st)" if "st \<in> set streams" for st
  proof -
    have "readCounter (dIndexed ?d) 0 st = sNext s st" "1 \<le> sNext s st" using ok(1) that by (force simp: counters_ok_def)+
    then show ?thesis by (auto simp: readCounter_def split: option.split_asm)
  qed
  have frm: "(\<lambda>st. if st \<notin> set streams then 0 else if indexTrust ?d l (sNext s) st then readCounter (dSigFrom ?d) (sNext s st) st else sNext s st) =
      (\<lambda>st. if st \<in> set streams then sSigFrom s st else 0)"
    "(\<lambda>st. if st \<notin> set streams then 0 else if indexTrust ?d l (sNext s) st then readCounter (dTargetFrom ?d) (sNext s st) st else sNext s st) =
      (\<lambda>st. if st \<in> set streams then sTargetFrom s st else 0)" for l
    using trust sf by (auto simp: readCounter_def)
  have put: "(\<lambda>st. if st \<in> set streams then Some (if st \<notin> set streams then 0 else
      if indexTrust ?d l (sNext s) st then readCounter (dSigFrom ?d) (sNext s st) st else sNext s st) else dSigFrom ?d st) = dSigFrom ?d"
    "(\<lambda>st. if st \<in> set streams then Some (if st \<notin> set streams then 0 else
      if indexTrust ?d l (sNext s) st then readCounter (dTargetFrom ?d) (sNext s st) st else sNext s st) else dTargetFrom ?d st) = dTargetFrom ?d"
    "(\<lambda>st. if st \<in> set streams then Some (sNext s st) else dIndexed ?d st) = dIndexed ?d" for l
    using sf idx trust by (auto simp: readCounter_def)
  have "openIndexes admit (sNext s) (sLWM s) ?d =
      (\<lambda>st. if st \<in> set streams then sSigFrom s st else 0, \<lambda>st. if st \<in> set streams then sTargetFrom s st else 0,
       ?d\<lparr>dLegacySig := None, dLegacyKV := None\<rparr>)"
    unfolding openIndexes_def Let_def if_P [OF trusted_open [OF ok(1)]] frm put by simp
  then show ?thesis
    unfolding OpenWithOptions_def n Let_def using ok(4)
    by (simp add: loadOrMintStoreID_def reopened_def split: option.split)
qed

lemma record_stream: "store_ok s \<Longrightarrow> dRecs (sDisk s) st off = Some e \<Longrightarrow> st \<in> set streams"
  using unknown_stream(2) [of s st] unfolding store_ok_def records_ok_def by fastforce

lemma reopened_ok:
  assumes "store_ok s"
  shows "store_ok (reopened minted s)"
proof -
  have ok: "counters_ok s" "records_ok s" "signals_ok s" "targets_ok s" "state_ok s" "journals_ok s" "marks_ok s" "refreshes_ok (sDisk s)"
    using assms by (simp_all add: store_ok_def)
  let ?s = "reopened minted s"
  have same: "sNext ?s = sNext s" "sLWM ?s = sLWM s" "sBytes ?s = sBytes s" "dRecs (sDisk ?s) = dRecs (sDisk s)" "dSig (sDisk ?s) = dSig (sDisk s)"
    "dTarget (sDisk ?s) = dTarget (sDisk s)" "dSigFrom (sDisk ?s) = dSigFrom (sDisk s)" "dTargetFrom (sDisk ?s) = dTargetFrom (sDisk s)"
    "dKV (sDisk ?s) = dKV (sDisk s)" "dKVIndex (sDisk ?s) = dKVIndex (sDisk s)" "dJournal (sDisk ?s) = dJournal (sDisk s)"
    "dHWM (sDisk ?s) = dHWM (sDisk s)" "dRefresh (sDisk ?s) = dRefresh (sDisk s)" "sHWMs ?s = (\<lambda>_. None)" "sAdopted ?s = (\<lambda>_. None)"
    "dMeta (sDisk ?s) = dMeta (sDisk s)" "dLWM (sDisk ?s) = dLWM (sDisk s)" "dBytes (sDisk ?s) = dBytes (sDisk s)" "dIndexed (sDisk ?s) = dIndexed (sDisk s)"
    by (simp_all add: reopened_def)
  have frm: "st \<in> set streams \<Longrightarrow> sSigFrom ?s st = sSigFrom s st" "st \<in> set streams \<Longrightarrow> sTargetFrom ?s st = sTargetFrom s st" for st
    by (simp_all add: reopened_def)
  have "signals_ok ?s" using ok(3) record_stream [OF assms] unfolding signals_ok_def same by (auto simp: frm)
  moreover have "targets_ok ?s" using ok(4) record_stream [OF assms] unfolding targets_ok_def same by (auto simp: frm)
  ultimately show ?thesis
    using ok by (simp add: store_ok_def counters_ok_def records_ok_def stream_size_sum size_at_def state_ok_def kv_index_of_def
        journals_ok_def marks_ok_def refreshes_ok_def list_all_iff refresh_valid_def same)
qed

section \<open>Steps\<close>

text \<open>The operations that scan take a snapshot first. \<^verbatim>\<open>EvictRecords\<close> checks only the low-water mark; the
  node runs it from the goroutine that also runs every other removal of single records, so the count of
  removals still stands when it commits.\<close>

inductive store_step :: "string \<Rightarrow> Store list \<times> Store \<Rightarrow> Store list \<times> Store \<Rightarrow> bool" for rt :: string where
  snapshot: "store_step rt (ss, s) (s # ss, s)"
| appends: "store_step rt (ss, s) (ss, snd (commitAppends rt ok i reqs s))"
| append_locked: "store_step rt (ss, s) (ss, snd (appendLocked rt b st recs s))"
| append_advancing: "store_step rt (ss, s) (ss, snd (AppendAdvancing rt now b st recs adv s))"
| append_unchanged: "store_step rt (ss, s) (ss, snd (AppendIfKVUnchanged rt b st r off s))"
| move_retained: "store_step rt (ss, s) (ss, snd (MoveRetained rt b st ms by' s))"
| replicate: "store_step rt (ss, s) (ss, snd (commitReplicated b rreqs s))"
| adopt: "store_step rt (ss, s) (ss, snd (AdoptChildStore b child sid s))"
| marks: "store_step rt (ss, s) (ss, snd (HWMGet child st s))"
| acks: "store_step rt (ss, s) (ss, snd (commitAcks now b areqs s))"
| cursor_set: "store_step rt (ss, s) (ss, snd (CursorSetIfAbsent now b name st off s))"
| cursor_delete: "store_step rt (ss, s) (ss, snd (CursorDelete b name st s))"
| cursor_seen: "store_step rt (ss, s) (ss, CursorMarkSeen b name st ts s)"
| set_aside: "store_step rt (ss, s) (ss, snd (SetAsideUplink now b name ar s))"
| clear_aside: "store_step rt (ss, s) (ss, snd (ClearSetAside b parent st off s))"
| reincarnate: "store_step rt (ss, s) (ss, snd (reincarnate now b minted only why s))"
| parent_state: "store_step rt (ss, s) (ss, snd (SetParentState b parent state s))"
| resync: "store_step rt (ss, s) (ss, snd (ResyncParent now b parent state cs ks s))"
| limit: "store_step rt (ss, s) (ss, SetMaxRecordBytes n s)"
| prune: "s0 \<in> set ss \<Longrightarrow> plan_valid plan \<Longrightarrow> store_step rt (ss, s) (ss, snd (Prune b st upTo ov plan s0 s))"
| clear_refresh: "store_step rt (ss, s) (ss, snd (ClearRefreshPending b st s))"
| compact: "s0 \<in> set ss \<Longrightarrow> store_step rt (ss, s) (ss, snd (Compact b st s0 s))"
| evict: "s0 \<in> set ss \<Longrightarrow> sHoles s st = sHoles s0 st \<Longrightarrow> store_step rt (ss, s) (ss, snd (EvictRecords b st off n doomed s0 s))"
| evict_kv: "s0 \<in> set ss \<Longrightarrow> store_step rt (ss, s) (ss, snd (EvictKV b doomed s0 s))"
| prune_signals: "store_step rt (ss, s) (ss, snd (PruneSignals c sig s))"
| restart: "OpenWithOptions admit minted (sDisk s) = Some s' \<Longrightarrow> store_step rt (ss, s) ([], s')"

definition reachable :: "string \<Rightarrow> Store list \<Rightarrow> Store \<Rightarrow> bool" where
  "reachable rt ss s \<longleftrightarrow>
     (\<exists>admit minted s0. OpenWithOptions admit minted empty_disk = Some s0 \<and> (store_step rt)\<^sup>*\<^sup>* ([], s0) (ss, s))"

text \<open>A step is a sequence of moves of the live store, or a restart.\<close>

definition machine_ok :: "Store list \<times> Store \<Rightarrow> bool" where
  "machine_ok x \<longleftrightarrow> store_ok (snd x) \<and> (\<forall>s0 \<in> set (fst x). later s0 (snd x))"

lemma machine_moves:
  assumes "machine_ok (ss, s)" "moves s s'"
  shows "machine_ok (ss, s')"
  using assms moves_ok [OF assms(2)] moves_later [OF assms(2)] later_trans by (auto simp: machine_ok_def)

lemma later_fresh:
  assumes "later s0 s"
  shows "sLWM s st = sLWM s0 st \<and> sHoles s st = sHoles s0 st \<Longrightarrow> scan_fresh st s0 s"
  using assms by (simp add: later_def)

lemma ok_index_sound: "store_ok s \<Longrightarrow> index_sound st (sDisk s)"
  unfolding store_ok_def signals_ok_def index_sound_def by fastforce

lemmas step_moves = commitAppends_moves append_moves AppendAdvancing_moves AppendIfKVUnchanged_moves MoveRetained_moves
  AdoptChildStore_moves HWMGet_moves commitAcks_moves CursorSetIfAbsent_moves CursorDelete_moves CursorMarkSeen_moves
  SetAsideUplink_moves ClearSetAside_moves reincarnate_moves SetParentState_moves ResyncParent_moves SetMaxRecordBytes_moves
  ClearRefreshPending_moves EvictKV_moves

lemma step_ok:
  assumes "store_step rt x y" "machine_ok x"
  shows "machine_ok y"
  using assms
proof (induction rule: store_step.induct)
  case (snapshot ss s)
  then show ?case by (simp add: machine_ok_def)
next
  case (replicate ss s b reqs)
  then have "marks_ok s" by (simp add: machine_ok_def store_ok_def)
  then show ?case using machine_moves [OF replicate] commitReplicated_moves by blast
next
  case (prune s0 ss plan s b st upTo ov)
  then have "later s0 s" by (simp add: machine_ok_def)
  then show ?case using machine_moves [OF prune(3)] Prune_moves [OF later_fresh prune(2)] by blast
next
  case (compact s0 ss s b st)
  then have "later s0 s" by (simp add: machine_ok_def)
  then show ?case using machine_moves [OF compact(2)] Compact_moves [OF later_fresh] by blast
next
  case (evict s0 ss s st b off n doomed)
  then have "later s0 s" by (simp add: machine_ok_def)
  then have "sLWM s st = sLWM s0 st \<Longrightarrow> scan_fresh st s0 s" using later_fresh evict(2) by blast
  then show ?case using machine_moves [OF evict(3)] EvictRecords_moves by blast
next
  case (prune_signals ss s c sig)
  then have "index_sound (pcStream c) (sDisk s)" by (simp add: machine_ok_def ok_index_sound)
  then show ?case using machine_moves [OF prune_signals] PruneSignals_moves by blast
next
  case (restart admit minted s s' ss)
  then have "s' = reopened minted s" using open_reopened [of s admit minted] by (simp add: machine_ok_def)
  then show ?case using restart(2) reopened_ok by (simp add: machine_ok_def)
qed (blast intro: machine_moves step_moves)+

section \<open>Reachable stores\<close>

definition first_store :: "string \<Rightarrow> Store" where
  "first_store minted = new_store\<lparr>sDisk := (sDisk new_store)\<lparr>dStoreID := Some minted\<rparr>, sID := minted\<rparr>"

lemma open_empty: "OpenWithOptions admit minted empty_disk = Some (first_store minted)"
proof -
  have r: "restored (dMeta empty_disk) 1 = one_per_stream" "restored (dLWM empty_disk) 1 = one_per_stream"
    "restored (dBytes empty_disk) 0 = (\<lambda>_. 0)"
    by (auto simp: restored_def readCounter_def empty_disk_def)
  have "list_all (refresh_valid empty_disk) streams" by (simp add: list_all_iff refresh_valid_def empty_disk_def)
  then show ?thesis
    unfolding OpenWithOptions_def Let_def r openIndexes_new first_store_def new_store_eq
    by (simp add: loadOrMintStoreID_def) (simp add: empty_disk_def)
qed

lemma first_store_ok: "store_ok (first_store minted)"
proof -
  have fields: "sNext (first_store minted) = one_per_stream" "sLWM (first_store minted) = one_per_stream"
    "sBytes (first_store minted) = (\<lambda>_. 0)" "sHWMs (first_store minted) = (\<lambda>_. None)" "sAdopted (first_store minted) = (\<lambda>_. None)"
    "sSigFrom (first_store minted) = one_per_stream" "sTargetFrom (first_store minted) = one_per_stream"
    by (simp_all add: first_store_def new_store_eq)
  have disk: "sDisk (first_store minted) = empty_disk
      \<lparr>dSigFrom := (\<lambda>st. if st \<in> set streams then Some 1 else None), dTargetFrom := (\<lambda>st. if st \<in> set streams then Some 1 else None),
       dIndexed := (\<lambda>st. if st \<in> set streams then Some 1 else None), dStoreID := Some minted\<rparr>"
    by (simp add: first_store_def new_store_eq)
  have "counters_ok (first_store minted)"
    unfolding counters_ok_def fields disk by (auto simp: empty_disk_def restored_def readCounter_def)
  moreover have "records_ok (first_store minted)"
    unfolding records_ok_def stream_size_sum fields disk by (simp add: empty_disk_def)
  moreover have "signals_ok (first_store minted)" "targets_ok (first_store minted)"
    unfolding signals_ok_def targets_ok_def fields disk by (simp_all add: empty_disk_def)
  moreover have "state_ok (first_store minted)" "marks_ok (first_store minted)" "refreshes_ok (sDisk (first_store minted))"
    unfolding state_ok_def marks_ok_def refreshes_ok_def fields disk
    by (simp_all add: empty_disk_def kv_index_of_def table_ok_def list_all_iff refresh_valid_def)
  moreover have "journals_ok (first_store minted)"
    unfolding journals_ok_def fields disk by (simp add: empty_disk_def journal_ok_def)
  ultimately show ?thesis by (simp add: store_ok_def)
qed

lemma reachable_ok:
  assumes "reachable rt ss s"
  shows "machine_ok (ss, s)"
proof -
  obtain minted where run: "(store_step rt)\<^sup>*\<^sup>* ([], first_store minted) (ss, s)"
    using assms by (auto simp: reachable_def open_empty)
  have "machine_ok ([], first_store minted)" by (simp add: machine_ok_def first_store_ok)
  with run show ?thesis by (induction rule: rtranclp_induct) (auto intro: step_ok)
qed

text \<open>C2: The invariant of a store. Whatever operations ran, in any interleaving of scans and commits, with failed
  commits and restarts in between: the offsets in memory are those on disk, every record lies between the
  low-water mark and the head, the byte counter of a stream is the exact size of its records, the signal index
  lists exactly the records it covers, every target of a record it covers is in the target index, the contract
  index is the one of the current state, the prune journal partitions what was pruned, and the caches of
  high-water marks agree with the disk.\<close>

theorem store_invariant:
  assumes "reachable rt ss s"
  shows "store_ok s"
  using reachable_ok [OF assms] by (simp add: machine_ok_def)

text \<open>C4: A restart loses nothing. Every store a process can be in opens again from its disk, with the heads,
  low-water marks, byte counters and index coverage the process had, and the disk it left.\<close>

theorem restart_restores:
  assumes "reachable rt ss s"
  shows "\<exists>s'. OpenWithOptions admit minted (sDisk s) = Some s' \<and>
    (\<forall>st. sNext s' st = sNext s st \<and> sLWM s' st = sLWM s st \<and> sBytes s' st = sBytes s st) \<and>
    (\<forall>st \<in> set streams. sSigFrom s' st = sSigFrom s st \<and> sTargetFrom s' st = sTargetFrom s st) \<and>
    sDisk s' = (sDisk s)\<lparr>dLegacySig := None, dLegacyKV := None, dStoreID := Some (sID s')\<rparr> \<and>
    (\<forall>known. dStoreID (sDisk s) = Some known \<longrightarrow> sID s' = known)"
proof -
  have "store_ok s" using reachable_ok [OF assms] by (simp add: machine_ok_def)
  then show ?thesis
    by (intro exI [of _ "reopened minted s"]) (simp add: open_reopened, simp add: reopened_def)
qed

text \<open>C10: A scan without the mutex is still right when it matters. If neither the low-water mark nor the count of
  removals of a stream changed since a snapshot was taken, the stream holds below the snapshot's head exactly the
  records it held then, so what \<^verbatim>\<open>Prune\<close> and \<^verbatim>\<open>Compact\<close> read before they took the mutex is what they delete.\<close>

theorem snapshot_scan_holds:
  assumes "reachable rt ss s" "s0 \<in> set ss" "sLWM s st = sLWM s0 st" "sHoles s st = sHoles s0 st" "upTo \<le> sNext s0 st"
  shows "scanStream st (sLWM s0 st) upTo (sDisk s) = scanStream st (sLWM s0 st) upTo (sDisk s0) \<and> upTo \<le> sNext s st"
proof -
  have "later s0 s" using reachable_ok [OF assms(1)] assms(2) by (simp add: machine_ok_def)
  then have "scan_fresh st s0 s" "sNext s0 st \<le> sNext s st" using later_fresh [of s0 s st] assms(3,4) by (simp_all add: later_def)
  then show ?thesis using assms(5) by (auto simp: scan_fresh_def intro!: scanStream_cong)
qed

section \<open>Witnesses\<close>

lemma reachable_start: "reachable rt [] (first_store minted)"
  unfolding reachable_def by (intro exI conjI, rule open_empty) (rule rtranclp.rtrancl_refl)

lemma reachable_step: "reachable rt ss s \<Longrightarrow> store_step rt (ss, s) (ss', s') \<Longrightarrow> reachable rt ss' s'"
  unfolding reachable_def by (meson rtranclp.rtrancl_into_rtrancl)

definition demo_log :: Store where
  "demo_log = snd (appendLocked ''colca'' True ''entities'' [demo_metric, demo_metric] (first_store ''0f''))"

lemma demo_log_reachable: "reachable ''colca'' [first_store ''0f''] demo_log"
  unfolding demo_log_def
  by (rule reachable_step [OF reachable_step [OF reachable_start store_step.snapshot] store_step.append_locked])

lemma add_records_id: "dStoreID (add_records st off recs b) = dStoreID b"
  by (induction recs arbitrary: off b) (simp_all add: addRecord_def Let_def project_kv_def setKV_def deleteKV_def split: option.split)

lemma demo_log_head: "sNext demo_log ''entities'' = 3" "sLWM demo_log ''entities'' = 1" "sHoles demo_log ''entities'' = 0"
  "dStoreID (sDisk demo_log) = Some ''0f''"
proof -
  have first: "sNext (first_store ''0f'') ''entities'' = 1" "sLWM (first_store ''0f'') ''entities'' = 1" "sHoles (first_store ''0f'') ''entities'' = 0"
    "sMaxRecordBytes (first_store ''0f'') = 0" "dStoreID (sDisk (first_store ''0f'')) = Some ''0f''"
    by (simp_all add: first_store_def new_store_eq streams_def)
  have "checkAppend ''colca'' ''entities'' [demo_metric, demo_metric] (first_store ''0f'') = (Inr None, first_store ''0f'')"
    by (simp add: checkAppend_def too_large_def first)
  from appendLocked_cases [OF this, of True]
  have log: "demo_log = appended ''entities'' [demo_metric, demo_metric] None (first_store ''0f'')"
    unfolding demo_log_def by (simp add: first)
  show "sNext demo_log ''entities'' = 3" "sLWM demo_log ''entities'' = 1" "sHoles demo_log ''entities'' = 0" "dStoreID (sDisk demo_log) = Some ''0f''"
    unfolding log by (simp_all add: appended_def Let_def first with_local_only_def setBytes_def setHead_def add_records_id del: add_records_Cons)
qed

theorem store_invariant_witness:
  "reachable ''colca'' [first_store ''0f''] demo_log \<and> sNext demo_log ''entities'' = 3 \<and> store_ok demo_log"
  using store_invariant [OF demo_log_reachable] demo_log_reachable demo_log_head by simp

theorem restart_restores_witness:
  "reachable ''colca'' [first_store ''0f''] demo_log \<and>
   (\<exists>s'. OpenWithOptions (\<lambda>_. 1) ''1a'' (sDisk demo_log) = Some s' \<and> sNext s' ''entities'' = 3 \<and> sID s' = ''0f'')"
proof -
  obtain s' where "OpenWithOptions (\<lambda>_. 1) ''1a'' (sDisk demo_log) = Some s'" "sNext s' ''entities'' = sNext demo_log ''entities''"
    "\<forall>known. dStoreID (sDisk demo_log) = Some known \<longrightarrow> sID s' = known"
    using restart_restores [OF demo_log_reachable, of "\<lambda>_. 1" "''1a''"] by (elim exE conjE) (rule that; simp)
  then show ?thesis using demo_log_reachable demo_log_head by (intro conjI exI [of _ s']) simp_all
qed

definition demo_longer :: Store where
  "demo_longer = snd (appendLocked ''colca'' True ''entities'' [demo_metric] demo_log)"

theorem snapshot_scan_holds_witness:
  "demo_log \<in> set [demo_log, first_store ''0f''] \<and> reachable ''colca'' [demo_log, first_store ''0f''] demo_longer \<and>
   sLWM demo_longer ''entities'' = sLWM demo_log ''entities'' \<and>
   scanStream ''entities'' 1 3 (sDisk demo_longer) = scanStream ''entities'' 1 3 (sDisk demo_log) \<and> 3 \<le> sNext demo_longer ''entities''"
proof -
  have r: "reachable ''colca'' [demo_log, first_store ''0f''] demo_longer"
    unfolding demo_longer_def
    by (rule reachable_step [OF reachable_step [OF demo_log_reachable store_step.snapshot] store_step.append_locked])
  have same: "sLWM demo_longer = sLWM demo_log" "sHoles demo_longer = sHoles demo_log"
    by (simp_all add: demo_longer_def appendLocked_def appendAdvancingLocked_def checkAppend_def Let_def writeAppend_eq)
  show ?thesis
    using snapshot_scan_holds [OF r, of demo_log "''entities''" 3] r demo_log_head same by simp
qed

end
