(* ===== verification/Store_Upgrade.thy ===== *)
theory Store_Upgrade
  imports Store_Machine
begin

text \<open>
  Opening a disk that an earlier version of the node wrote, before the signal and the target index existed
  (\<^verbatim>\<open>openIndexes\<close> in \<^verbatim>\<open>sigindex.go\<close>): the new indexes cover each stream from its head on, and the store is
  well formed. Together with the steps of \<^verbatim>\<open>Store_Machine\<close> this gives the well-formed stores whose indexes
  begin inside a stream.
\<close>

definition without_indexes :: "Disk \<Rightarrow> Disk" where
  "without_indexes d = d\<lparr>dSig := {}, dTarget := {}, dSigFrom := (\<lambda>_. None), dTargetFrom := (\<lambda>_. None),
     dIndexed := (\<lambda>_. None), dLegacySig := None, dLegacyKV := None\<rparr>"

section \<open>Recovery touches the contract index only\<close>

lemma repair_rows_rest: "\<exists>x. fold (repair_row phase) cks b = b\<lparr>dKVIndex := x\<rparr>"
proof (induction cks arbitrary: b)
  case Nil
  show ?case by (intro exI [of _ "dKVIndex b"]) simp
next
  case (Cons ck cks)
  have "\<exists>x. repair_row phase ck b = b\<lparr>dKVIndex := x\<rparr>"
    by (cases "kvIndexKey (snd ck)") (auto simp: repair_row_def intro: exI [of _ "dKVIndex b"])
  then obtain x where "repair_row phase ck b = b\<lparr>dKVIndex := x\<rparr>" by blast
  then show ?case using Cons [of "b\<lparr>dKVIndex := x\<rparr>"] by auto
qed

lemma reconcile_rest: "\<exists>x y. reconcile admit i p b = b\<lparr>dKVIndex := x, dKVRecovery := y\<rparr>"
proof (induction admit i p b rule: reconcile.induct)
  case (1 admit i p b)
  show ?case
  proof (cases "2 \<le> kvPhase p")
    case True
    then show ?thesis
      by (intro exI [of _ "dKVIndex b"] exI [of _ "dKVRecovery b"]) (simp add: reconcile.simps [of admit i p b])
  next
    case False
    obtain x y where "snd (recovery_page (page_rows admit i) p b) = b\<lparr>dKVIndex := x, dKVRecovery := y\<rparr>"
      using repair_rows_rest [of "kvPhase p" "take (page_rows admit i) (recovery_keys p b)" b]
      by (auto simp: recovery_page_def Let_def)
    then show ?thesis using 1 [OF False] False reconcile.simps [of admit i p b] by auto
  qed
qed

lemma kv_index_of_finite: "finite (kv_index_of b)"
proof -
  have "kv_index_of b \<subseteq> (\<lambda>k. the (kvIndexKey k)) ` dom (map_of (dKV b))"
    by (force simp: kv_index_of_def image_iff)
  then show ?thesis using finite_surj finite_dom_map_of by blast
qed

lemma reconciled:
  assumes "state_ok s" "dKVRecovery (sDisk s) = None" "dKV d = dKV (sDisk s)" "dKVIndex d = dKVIndex (sDisk s)" "dKVRecovery d = None"
  shows "\<exists>y. reconcileKVIndex admit next d = d\<lparr>dKVIndex := kv_index_of (sDisk s), dKVRecovery := y\<rparr>"
proof -
  have "recovery_inv (recovery_start next d) d"
    using assms kv_index_of_finite by (intro recovery_start_inv) (simp_all add: state_ok_def)
  then have "dKVIndex (reconcileKVIndex admit next d) = kv_index_of d"
    using reconcile_exact unfolding reconcileKVIndex_def by blast
  moreover have "kv_index_of d = kv_index_of (sDisk s)" using assms(3) by (simp add: kv_index_of_def)
  moreover obtain x y where "reconcileKVIndex admit next d = d\<lparr>dKVIndex := x, dKVRecovery := y\<rparr>"
    using reconcile_rest unfolding reconcileKVIndex_def by blast
  ultimately show ?thesis by auto
qed

section \<open>The upgraded store\<close>

lemma surj_disk: "d\<lparr>dKVIndex := dKVIndex d, dKVRecovery := dKVRecovery d\<rparr> = (d :: Disk)"
  by simp

text \<open>The store that opens such a disk, up to the state of the recovery.\<close>

lemma open_upgraded:
  assumes "store_ok s" "dKVRecovery (sDisk s) = None"
  shows "\<exists>s' y. OpenWithOptions admit minted (without_indexes (sDisk s)) = Some s' \<and>
    sDisk s' = (sDisk s)\<lparr>dSig := {}, dTarget := {}, dSigFrom := (\<lambda>st. if st \<in> set streams then Some (sNext s st) else None),
        dTargetFrom := (\<lambda>st. if st \<in> set streams then Some (sNext s st) else None),
        dIndexed := (\<lambda>st. if st \<in> set streams then Some (sNext s st) else None), dLegacySig := None, dLegacyKV := None,
        dKVRecovery := y, dStoreID := Some (sID s')\<rparr> \<and>
    sNext s' = sNext s \<and> sLWM s' = sLWM s \<and> sBytes s' = sBytes s \<and> sHWMs s' = (\<lambda>_. None) \<and> sAdopted s' = (\<lambda>_. None) \<and>
    sSigFrom s' = sNext s \<and> sTargetFrom s' = sNext s \<and> sMaxRecordBytes s' = 0"
proof -
  define d where "d = without_indexes (sDisk s)"
  have ok: "counters_ok s" "state_ok s" "list_all (refresh_valid (sDisk s)) streams"
    using assms(1) by (simp_all add: store_ok_def refreshes_ok_def)
  have n: "restored (dMeta d) 1 = sNext s" "restored (dLWM d) 1 = sLWM s" "restored (dBytes d) 0 = sBytes s"
    using ok(1) by (simp_all add: counters_ok_def d_def without_indexes_def)
  have fresh: "dSigFrom d = (\<lambda>_. None)" "dTargetFrom d = (\<lambda>_. None)" "dIndexed d = (\<lambda>_. None)" "dLegacySig d = None" "dLegacyKV d = None"
    "dKV d = dKV (sDisk s)" "dKVIndex d = dKVIndex (sDisk s)" "dKVRecovery d = None" "list_all (refresh_valid d) streams"
    using assms(2) ok(3) by (simp_all add: d_def without_indexes_def list_all_iff refresh_valid_def)
  have legacy: "legacyClean None w nx lw = False" for w nx lw by (simp add: legacyClean_def)
  obtain y where d1: "(if list_all (indexTrust d False (sNext s)) streams then d else reconcileKVIndex admit (sNext s) d) =
      d\<lparr>dKVIndex := dKVIndex (sDisk s), dKVRecovery := y\<rparr>"
  proof (cases "list_all (indexTrust d False (sNext s)) streams")
    case True
    then show ?thesis using that [of None] fresh(7,8) by (simp add: surj_disk)
  next
    case False
    have "kv_index_of (sDisk s) = dKVIndex (sDisk s)" using ok(2) by (simp add: state_ok_def)
    then show ?thesis using that False reconciled [OF ok(2) assms(2) fresh(6-8), of admit "sNext s"] by auto
  qed
  have out: "st \<notin> set streams \<Longrightarrow> sNext s st = 0" for st using unknown_stream(1) [OF ok(1)] by blast
  have cover: "(\<lambda>st. if st \<notin> set streams then 0 else if indexTrust d False (sNext s) st then readCounter (\<lambda>_. None) (sNext s st) st else sNext s st) = sNext s"
    using out by (auto simp: readCounter_def fun_eq_iff)
  define b where "b = d\<lparr>dKVIndex := dKVIndex (sDisk s), dKVRecovery := y,
    dSigFrom := (\<lambda>st. if st \<in> set streams then Some (sNext s st) else None),
    dTargetFrom := (\<lambda>st. if st \<in> set streams then Some (sNext s st) else None),
    dIndexed := (\<lambda>st. if st \<in> set streams then Some (sNext s st) else None), dLegacySig := None, dLegacyKV := None\<rparr>"
  have "openIndexes admit (sNext s) (sLWM s) d = (sNext s, sNext s, b)"
    unfolding openIndexes_def Let_def fresh(1-5) legacy d1 cover b_def by (simp add: fresh readCounter_def cong: if_cong)
  then have "OpenWithOptions admit minted d = (case loadOrMintStoreID minted b of (own, new, d2) \<Rightarrow>
      Some \<lparr>sDisk = d2, sNext = sNext s, sLWM = sLWM s, sBytes = sBytes s, sHoles = (\<lambda>_. 0), sHeads = (\<lambda>_ _. 0),
        sHWMs = (\<lambda>_. None), sAdopted = (\<lambda>_. None), sPolicies = [], sSigFrom = sNext s, sTargetFrom = sNext s,
        sMaxRecordBytes = 0, sID = own, sIDMinted = new\<rparr>)"
    unfolding OpenWithOptions_def n Let_def using fresh(9) by simp
  moreover define own where "own = (case dStoreID b of Some known \<Rightarrow> known | None \<Rightarrow> minted)"
  moreover have "b\<lparr>dStoreID := Some own\<rparr> = b" if "dStoreID b = Some own" using that by (cases b) simp
  then have "\<exists>new. loadOrMintStoreID minted b = (own, new, b\<lparr>dStoreID := Some own\<rparr>)"
    by (cases "dStoreID b") (auto simp: loadOrMintStoreID_def own_def)
  moreover have "b\<lparr>dStoreID := Some own\<rparr> = (sDisk s)\<lparr>dSig := {}, dTarget := {},
      dSigFrom := (\<lambda>st. if st \<in> set streams then Some (sNext s st) else None),
      dTargetFrom := (\<lambda>st. if st \<in> set streams then Some (sNext s st) else None),
      dIndexed := (\<lambda>st. if st \<in> set streams then Some (sNext s st) else None), dLegacySig := None, dLegacyKV := None,
      dKVRecovery := y, dStoreID := Some own\<rparr>"
    by (simp add: b_def d_def without_indexes_def)
  ultimately show ?thesis unfolding d_def [symmetric] by auto
qed

text \<open>It is well formed, holds what the disk held, and its indexes begin at the heads.\<close>

lemma upgrade_ok:
  assumes "store_ok s" "dKVRecovery (sDisk s) = None" "OpenWithOptions admit minted (without_indexes (sDisk s)) = Some s'"
  shows "store_ok s'"
proof -
  obtain y where s': "sDisk s' = (sDisk s)\<lparr>dSig := {}, dTarget := {}, dSigFrom := (\<lambda>st. if st \<in> set streams then Some (sNext s st) else None),
        dTargetFrom := (\<lambda>st. if st \<in> set streams then Some (sNext s st) else None),
        dIndexed := (\<lambda>st. if st \<in> set streams then Some (sNext s st) else None), dLegacySig := None, dLegacyKV := None,
        dKVRecovery := y, dStoreID := Some (sID s')\<rparr>"
    "sNext s' = sNext s" "sLWM s' = sLWM s" "sBytes s' = sBytes s" "sHWMs s' = (\<lambda>_. None)" "sAdopted s' = (\<lambda>_. None)"
    "sSigFrom s' = sNext s" "sTargetFrom s' = sNext s"
    using open_upgraded [OF assms(1,2), of admit minted] assms(3) by auto
  have ok: "counters_ok s" "records_ok s" "state_ok s" "journals_ok s" "marks_ok s" "refreshes_ok (sDisk s)"
    using assms(1) by (simp_all add: store_ok_def)
  have above: "dRecs (sDisk s) st off = Some e \<Longrightarrow> \<not> sNext s st \<le> off" for st off e
    using ok(2) by (fastforce simp: records_ok_def)
  have "counters_ok s'" using ok(1) unfolding counters_ok_def s' by (auto simp: readCounter_def)
  moreover have "records_ok s'" using ok(2) unfolding records_ok_def stream_size_def s' by (simp add: scanStream_def)
  moreover have "signals_ok s'" "targets_ok s'" using above unfolding signals_ok_def targets_ok_def s' by auto
  moreover have "state_ok s'" using ok(3) unfolding state_ok_def s' by (simp add: kv_index_of_def)
  moreover have "journals_ok s'" "marks_ok s'" using ok(4,5) unfolding journals_ok_def marks_ok_def s' by simp_all
  moreover have "refreshes_ok (sDisk s')" using ok(6) unfolding refreshes_ok_def s' by (simp add: list_all_iff refresh_valid_def)
  ultimately show ?thesis by (simp add: store_ok_def)
qed

text \<open>A run of the machine from any well-formed store stays well formed.\<close>

lemma run_ok:
  assumes "store_ok s0" "(store_step rt)\<^sup>*\<^sup>* ([], s0) (ss, s)"
  shows "store_ok s"
proof -
  have "machine_ok ([], s0)" using assms(1) by (simp add: machine_ok_def)
  with assms(2) have "machine_ok (ss, s)" by (induction rule: rtranclp_induct) (auto intro: step_ok)
  then show ?thesis by (simp add: machine_ok_def)
qed

end
