(* ===== verification/Store_Peek.thy ===== *)
theory Store_Peek
  imports Store_Types
begin

text \<open>
  \<^verbatim>\<open>recpeek.go\<close>: the head of a stored record read from its bytes without decoding them. The bytes are
  those \<^verbatim>\<open>encoding/json\<close> writes (\<^verbatim>\<open>marshal_rec\<close>); what the peek answers is what a decode would.
\<close>

section \<open>The peek\<close>

text \<open>\<^verbatim>\<open>bytes.Index\<close> and \<^verbatim>\<open>bytes.LastIndex\<close>.\<close>

fun index_str :: "string \<Rightarrow> string \<Rightarrow> nat option" where
  "index_str sub [] = (if sub = [] then Some 0 else None)"
| "index_str sub (c # s) = (if has_prefix (c # s) sub then Some 0 else map_option Suc (index_str sub s))"

fun last_index_str :: "string \<Rightarrow> string \<Rightarrow> nat option" where
  "last_index_str sub [] = (if sub = [] then Some 0 else None)"
| "last_index_str sub (c # s) =
     (case last_index_str sub s of Some i \<Rightarrow> Some (Suc i) | None \<Rightarrow> if has_prefix (c # s) sub then Some 0 else None)"

definition cut_suffix :: "string \<Rightarrow> string \<Rightarrow> string option" where
  "cut_suffix s p = (if has_suffix s p then Some (take (length s - length p) s) else None)"

text \<open>\<^verbatim>\<open>strconv.ParseInt(s, 10, 64)\<close> of an optional minus and digits.\<close>

definition ParseInt :: "string \<Rightarrow> int option" where
  "ParseInt s =
     (let neg = (take 1 s = ''-''); ds = (if neg then tl s else s);
          n = (if neg then - int (digits_val ds) else int (digits_val ds)) in
      if ds = [] \<or> \<not> list_all is_digit ds \<or> n < - (2 ^ 63) \<or> n \<ge> 2 ^ 63 then None else Some n)"

abbreviation quoted :: "string \<Rightarrow> string" where "quoted k \<equiv> quote_char # k @ [quote_char]"

definition sidSuffix :: string where "sidSuffix = '','' @ quoted ''sid'' @ '':'' @ [quote_char]"

definition topic_prefix :: string where "topic_prefix = quoted ''t'' @ '':'' @ [quote_char]"

definition peekHead :: "string \<Rightarrow> (string \<times> string) option" where
  "peekHead val =
     (case (case cut_prefix val (''{'' @ topic_prefix) of Some rest \<Rightarrow> Some rest
            | None \<Rightarrow> cut_prefix val (''{'' @ quoted ''slo'' @ '':true,'' @ topic_prefix)) of
        None \<Rightarrow> None
      | Some rest \<Rightarrow>
          (case cut_at quote_char rest of
             None \<Rightarrow> None
           | Some (topic, _) \<Rightarrow>
               if backslash \<in> set topic then None
               else
                 (case last_index_str sidSuffix val of
                    None \<Rightarrow> Some (topic, '''')
                  | Some i \<Rightarrow>
                      (case cut_suffix (drop (i + length sidSuffix) val) (quote_char # ''}'') of
                         None \<Rightarrow> None
                       | Some sid \<Rightarrow> if quote_char \<in> set sid \<or> backslash \<in> set sid then None else Some (topic, sid)))))"

record recHead =
  hTopic :: string
  hSignalID :: string
  hTS :: int
  hEmptyPayload :: bool

text \<open>The payload: \<^verbatim>\<open>null\<close> or a string; the second result is what follows it.\<close>

definition peek_payload :: "string \<Rightarrow> (bool \<times> string) option" where
  "peek_payload rest =
     (case cut_prefix rest ''null'' of
        Some after \<Rightarrow> Some (True, after)
      | None \<Rightarrow>
          (case cut_prefix rest [quote_char] of
             None \<Rightarrow> None
           | Some body \<Rightarrow> map_option (\<lambda>(b, after). (b = [], after)) (cut_at quote_char body)))"

definition peek_ts :: "string \<Rightarrow> int option" where
  "peek_ts rest =
     (let (sg, ds) = (case rest of c # cs \<Rightarrow> if c = CHR ''-'' then ([c], cs) else ([], rest) | [] \<Rightarrow> ([], rest));
          num = sg @ takeWhile is_digit ds; after = dropWhile is_digit ds in
      case ParseInt num of
        None \<Rightarrow> None
      | Some ts \<Rightarrow> (case after of [] \<Rightarrow> None | c # _ \<Rightarrow> if c = CHR '','' \<or> c = CHR ''}'' then Some ts else None))"

definition peekRecord :: "string \<Rightarrow> recHead option" where
  "peekRecord val =
     (case peekHead val of
        None \<Rightarrow> None
      | Some (topic, sid) \<Rightarrow>
          let at = the (index_str topic_prefix val) in
          (case cut_prefix (drop (at + length topic_prefix + length topic + 1) val) ('','' @ quoted ''p'' @ '':'') of
             None \<Rightarrow> None
           | Some rest \<Rightarrow>
               (case peek_payload rest of
                  None \<Rightarrow> None
                | Some (none, rest1) \<Rightarrow>
                    (case cut_prefix rest1 ('','' @ quoted ''ts'' @ '':'') of
                       None \<Rightarrow> None
                     | Some rest2 \<Rightarrow>
                         map_option (\<lambda>ts. \<lparr>hTopic = topic, hSignalID = sid, hTS = ts, hEmptyPayload = none\<rparr>)
                           (peek_ts rest2)))))"

definition head_of :: "recEnc \<Rightarrow> recHead" where
  "head_of e = \<lparr>hTopic = xTopic e, hSignalID = xSignalID e, hTS = xTS e, hEmptyPayload = (slice_bytes (xPayload e) = [])\<rparr>"

text \<open>The head of a stored record: the decode of its bytes is the record.\<close>

definition headOf :: "recEnc \<Rightarrow> recHead" where
  "headOf e = (case peekRecord (marshal_rec e) of Some h \<Rightarrow> h | None \<Rightarrow> head_of e)"

section \<open>Quoted strings\<close>

lemma special_chars [simp]: "quote_char \<noteq> backslash" "backslash \<noteq> quote_char"
  by (simp_all add: quote_char_def backslash_def)

lemma byte_special: "byte quote_char = 34" "byte backslash = 92"
  by (simp_all add: byte_def quote_char_def backslash_def)

lemma rune_bytes:
  assumes "128 \<le> byte c" "rune_width (c # cs) \<noteq> 0" "x \<in> set (take (rune_width (c # cs)) (c # cs))"
  shows "128 \<le> byte x"
  using assms
  by (auto simp: Let_def cont_in_def take_Suc_conv_app_nth split: if_split_asm list.split_asm)

lemma byte_char_of: "n < 256 \<Longrightarrow> byte (char_of n) = n"
  by (simp add: byte_def)

text \<open>What \<^verbatim>\<open>quote_body\<close> writes: special bytes only after a backslash, and the string itself when there is
  no backslash.\<close>

fun escaped :: "string \<Rightarrow> bool" where
  "escaped [] = True"
| "escaped [c] = (c \<noteq> quote_char \<and> c \<noteq> backslash)"
| "escaped (c # d # s) = (if c = backslash then escaped s else c \<noteq> quote_char \<and> escaped (d # s))"

lemma escaped_pair: "escaped (backslash # c # s) = escaped s"
  by simp

lemma escaped_plain: "quote_char \<notin> set w \<Longrightarrow> backslash \<notin> set w \<Longrightarrow> escaped (w @ s) = escaped s"
proof (induction w)
  case (Cons c w)
  then show ?case by (cases "w @ s") auto
qed simp

lemma escaped_escape: "escaped s \<Longrightarrow> escaped (escape_byte c @ s)"
proof -
  assume s: "escaped s"
  have hex: "hex_char n \<noteq> quote_char \<and> hex_char n \<noteq> backslash" if "n < 16" for n
  proof -
    have "byte (hex_char n) \<noteq> byte quote_char \<and> byte (hex_char n) \<noteq> byte backslash"
      using that by (simp add: hex_char_def byte_char_of byte_special)
    then show ?thesis by metis
  qed
  have "byte c < 256" by (simp add: byte_def)
  then have "byte c div 16 < 16" "byte c mod 16 < 16" by simp_all
  note hex [OF this(1)] hex [OF this(2)]
  then have "escaped ([CHR ''0'', CHR ''0'', hex_char (byte c div 16), hex_char (byte c mod 16)] @ s)"
    using s by (subst escaped_plain) (auto simp: quote_char_def backslash_def)
  moreover have "escaped ([c] @ s)" if "c \<noteq> quote_char" "c \<noteq> backslash" using s that by (subst escaped_plain) auto
  ultimately show ?thesis using s unfolding escape_byte_def by (simp add: escaped_pair del: escaped.simps(3))
qed

text \<open>One step of \<^verbatim>\<open>quote_body\<close>: an escaped byte, the escape of a rune, or a rune as it stands.\<close>

lemma quote_step:
  assumes "s \<noteq> []"
  obtains c r where "s = c # r" "quote_body s = escape_byte c @ quote_body r"
  | h r where "length r < length s" "quote_body s = backslash # CHR ''u'' # h @ quote_body r"
      "quote_char \<notin> set h" "backslash \<notin> set h"
  | w r where "s = w @ r" "w \<noteq> []" "quote_body s = w @ quote_body r" "\<And>x. x \<in> set w \<Longrightarrow> 128 \<le> byte x"
proof -
  obtain c cs where s: "s = c # cs" using assms by (cases s) auto
  have hs: "quote_char \<notin> set ''fffd'' \<and> backslash \<notin> set ''fffd''" "quote_char \<notin> set ''2028'' \<and> backslash \<notin> set ''2028''"
    "quote_char \<notin> set ''2029'' \<and> backslash \<notin> set ''2029''"
    by (simp_all add: quote_char_def backslash_def)
  define w where "w = rune_width s"
  note body = quote_body.simps [of s, folded w_def]
  consider "byte c < 128" | "128 \<le> byte c" "w = 0" | "128 \<le> byte c" "w \<noteq> 0" "take 3 s = [CHR 0xE2, CHR 0x80, CHR 0xA8]"
    | "128 \<le> byte c" "w \<noteq> 0" "take 3 s = [CHR 0xE2, CHR 0x80, CHR 0xA9]"
    | "128 \<le> byte c" "w \<noteq> 0" "take 3 s \<noteq> [CHR 0xE2, CHR 0x80, CHR 0xA8]" "take 3 s \<noteq> [CHR 0xE2, CHR 0x80, CHR 0xA9]"
    by linarith
  then show thesis
  proof cases
    case 1
    then show thesis using that(1) [of c cs] body by (simp add: s)
  next
    case 2
    then show thesis using that(2) [of cs "''fffd''"] body hs by (simp add: s)
  next
    case 3
    then show thesis using that(2) [of "drop 3 s" "''2028''"] body hs by (simp add: s)
  next
    case 4
    then show thesis using that(2) [of "drop 3 s" "''2029''"] body hs by (simp add: s)
  next
    case 5
    have "128 \<le> byte x" if "x \<in> set (take w s)" for x
      using rune_bytes [of c cs x] 5(1,2) that by (simp add: w_def s)
    moreover have "quote_body s = take w s @ quote_body (drop w s)"
      unfolding body using 5 by (cases s) (use s in auto)
    ultimately show thesis using that(3) [of "take w s" "drop w s"] 5(2) by (simp add: s)
  qed
qed

lemma escaped_body: "escaped (quote_body s)"
proof (induction s rule: length_induct)
  case (1 s)
  note IH = this
  show ?case
  proof (cases "s = []")
    case True
    then show ?thesis by (simp add: quote_body.simps)
  next
    case False
    then show ?thesis
    proof (cases rule: quote_step)
      case (1 c r)
      then show ?thesis using IH escaped_escape by simp
    next
      case (2 h r)
      then show ?thesis using IH by (simp add: escaped_pair escaped_plain del: escaped.simps(3))
    next
      case (3 w r)
      have "quote_char \<notin> set w" "backslash \<notin> set w" using 3(4) [of quote_char] 3(4) [of backslash] by (auto simp: byte_special)
      then show ?thesis using IH 3(1-3) by (simp add: escaped_plain)
    qed
  qed
qed

lemma escape_byte_plain: "backslash \<notin> set (escape_byte c) \<Longrightarrow> escape_byte c = [c]"
  by (auto simp: escape_byte_def split: if_split_asm)

lemma body_plain: "backslash \<notin> set (quote_body s) \<Longrightarrow> quote_body s = s"
proof (induction s rule: length_induct)
  case (1 s)
  note IH = "1.IH" and plain = "1.prems"
  show ?case
  proof (cases "s = []")
    case True
    then show ?thesis by (simp add: quote_body.simps)
  next
    case False
    then show ?thesis
    proof (cases rule: quote_step)
      case (1 c r)
      then show ?thesis using IH plain escape_byte_plain [of c] by simp
    next
      case (2 h r)
      then show ?thesis using plain by simp
    next
      case (3 w r)
      then show ?thesis using IH plain by simp
    qed
  qed
qed

lemma escaped_quote: "escaped s \<Longrightarrow> quote_char \<in> set s \<Longrightarrow> backslash \<in> set (takeWhile (\<lambda>c. c \<noteq> quote_char) s)"
  by (induction s rule: escaped.induct) (auto split: if_split_asm)

text \<open>The text before the closing quote of a quoted string is the string when it holds no backslash.\<close>

lemma cut_quoted:
  assumes "cut_at quote_char (quote_body s @ quote_char # r) = Some (t, r')" "backslash \<notin> set t"
  shows "t = s" "r' = r" "quote_body s = s"
proof -
  have eq: "quote_body s @ quote_char # r = t @ quote_char # r'" "quote_char \<notin> set t" using assms(1) by simp_all
  have "quote_char \<notin> set (quote_body s)"
  proof
    assume q: "quote_char \<in> set (quote_body s)"
    have "takeWhile (\<lambda>c. c \<noteq> quote_char) (t @ quote_char # r') = t" using eq(2) by (subst takeWhile_append2) auto
    moreover have "takeWhile (\<lambda>c. c \<noteq> quote_char) (quote_body s @ quote_char # r) = takeWhile (\<lambda>c. c \<noteq> quote_char) (quote_body s)"
      using q by (subst takeWhile_append1) auto
    ultimately have "t = takeWhile (\<lambda>c. c \<noteq> quote_char) (quote_body s)" by (simp only: eq(1))
    then show False using escaped_quote [OF escaped_body q] assms(2) by blast
  qed
  then have "quote_body s = t" "r = r'" using assms(1) by (simp_all del: cut_at_Some)
  then show "t = s" "r' = r" "quote_body s = s" using body_plain [of s] assms(2) by simp_all
qed

text \<open>An escaped text has a backslash before every quote.\<close>

lemma escaped_no_quote [simp]: "\<not> escaped (quote_char # b)"
  by (cases b) simp_all

lemma escaped_before_quote: "escaped (a @ c # quote_char # b) \<Longrightarrow> c = backslash"
proof (induction a rule: induct_list012)
  case 1
  then show ?case by (cases "c = backslash") simp_all
next
  case (2 x)
  then show ?case by (cases "x = backslash"; cases "c = backslash") simp_all
next
  case (3 x y s)
  then show ?case by (cases "x = backslash") simp_all
qed

section \<open>The shape of an encoded record\<close>

lemma quote_letters: "list_all (\<lambda>c. 97 \<le> byte c \<and> byte c \<le> 122) k \<Longrightarrow> quote_body k = k"
proof (induction k)
  case (Cons c k)
  then have c: "97 \<le> byte c" "byte c \<le> 122" by simp_all
  have "byte x \<noteq> byte c" if "byte x < 97" for x using c(1) that by simp
  then have "c \<noteq> x" if "byte x < 97" for x using that by blast
  then have "c \<noteq> quote_char" "c \<noteq> backslash" "c \<noteq> CHR ''<''" "c \<noteq> CHR ''>''" "c \<noteq> CHR ''&''"
    by (simp_all add: byte_def quote_char_def backslash_def)
  then have "escape_byte c = [c]" using c(1) by (simp add: escape_byte_def)
  then show ?case using Cons c by (simp add: quote_body.simps)
qed (simp add: quote_body.simps)

definition field_text :: "string \<times> string option \<Rightarrow> string option" where
  "field_text f = map_option (\<lambda>v. json_quote (fst f) @ '':'' @ v) (snd f)"

lemma json_object_fields: "json_object fs = ''{'' @ join_with CHR '','' (List.map_filter field_text fs) @ ''}''"
  unfolding json_object_def field_text_def [abs_def] case_prod_beta ..

lemma join_last: "xs \<noteq> [] \<Longrightarrow> \<exists>pre. join_with c (x # xs) = pre @ c # last xs"
  using join_append [of "x # butlast xs" "[last xs]" c] by simp

section \<open>The last field\<close>

lemma split_last: "a @ c # x = b @ c # y \<Longrightarrow> c \<notin> set x \<Longrightarrow> c \<notin> set y \<Longrightarrow> a = b \<and> x = y"
proof -
  assume eq: "a @ c # x = b @ c # y" and no: "c \<notin> set x" "c \<notin> set y"
  have tw: "takeWhile (\<lambda>z. z \<noteq> c) (rev (a @ c # x)) = rev x" if "c \<notin> set x" for a x
    using that takeWhile_append2 [of "rev x" "\<lambda>z. z \<noteq> c" "c # rev a"] by auto
  have "rev x = rev y" using tw [OF no(1), of a] tw [OF no(2), of b] by (simp only: eq)
  then show ?thesis using eq by simp
qed

lemma last_index_Some: "last_index_str p s = Some i \<Longrightarrow> \<exists>a b. s = a @ p @ b \<and> length a = i"
proof (induction p s arbitrary: i rule: last_index_str.induct)
  case (2 p c s)
  show ?case
  proof (cases "last_index_str p s")
    case None
    then have "prefix p (c # s)" "i = 0" using 2(2) by (simp_all split: if_split_asm)
    then show ?thesis by (auto simp: prefix_def)
  next
    case (Some j)
    then obtain a b where "s = a @ p @ b" "length a = j" using 2(1) by blast
    then have "c # s = (c # a) @ p @ b" "length (c # a) = i" using 2(2) Some by simp_all
    then show ?thesis by blast
  qed
qed (simp split: if_split_asm)

lemma last_index_None: "last_index_str p s = None \<Longrightarrow> s \<noteq> a @ p @ b"
proof (induction p s arbitrary: a rule: last_index_str.induct)
  case (2 p c s)
  then show ?case by (cases a) (auto split: option.split_asm if_split_asm simp: prefix_def)
qed (simp split: if_split_asm)

text \<open>The text after an occurrence of \<^const>\<open>sidSuffix\<close>, when it holds no quote, is the value of the last
  field, and that field is \<^verbatim>\<open>sid\<close>: a quote inside a value has a backslash before it, not a colon.\<close>

lemma sid_tail:
  assumes eq: "q @ CHR '','' # quote_char # k @ quote_char # CHR '':'' # quote_char # quote_body v = p @ sidSuffix @ i"
    and i: "quote_char \<notin> set i" and k: "quote_char \<notin> set k"
  shows "k = ''sid''" "i = quote_body v"
proof -
  define w where "w = q @ CHR '','' # quote_char # k @ [quote_char, CHR '':'']"
  define u where "u = p @ CHR '','' # quote_char # ''sid'' @ [quote_char, CHR '':'']"
  have eq': "w @ quote_char # quote_body v = u @ quote_char # i"
    using eq by (simp add: w_def u_def sidSuffix_def)
  have "quote_char \<notin> set (quote_body v)"
  proof
    assume "quote_char \<in> set (quote_body v)"
    then obtain y z where yz: "quote_body v = y @ quote_char # z" "quote_char \<notin> set z" using split_list_last by metis
    then have "(w @ quote_char # y) @ quote_char # z = u @ quote_char # i" using eq' by simp
    then have "w @ quote_char # y = u" using split_last [OF _ yz(2) i] by blast
    then have "last (w @ quote_char # y) = last u" by simp
    then have "last (quote_char # y) = CHR '':''" by (simp add: u_def)
    then obtain y' where "y = y' @ [CHR '':'']"
      by (cases y rule: rev_cases) (simp_all add: quote_char_def)
    then have "escaped (y' @ CHR '':'' # quote_char # z)" using escaped_body [of v] yz(1) by simp
    then have "CHR '':'' = backslash" by (rule escaped_before_quote)
    then show False by (simp add: backslash_def)
  qed
  then have wu: "w = u" "quote_body v = i" using split_last [OF eq' _ i] by blast+
  then show "i = quote_body v" by simp
  have "(q @ [CHR '','']) @ quote_char # k = (p @ [CHR '','']) @ quote_char # ''sid''"
    using wu(1) by (simp add: w_def u_def)
  from split_last [OF this k] show "k = ''sid''" by (simp add: quote_char_def)
qed

text \<open>A field that is no string ends with a digit or a bracket.\<close>

definition ends_plain :: "string \<Rightarrow> bool" where
  "ends_plain v \<longleftrightarrow> v \<noteq> [] \<and> last v \<noteq> quote_char"

lemma digits_last: "last (dec_digits n) = char_of (48 + n mod 10)" "dec_digits n \<noteq> []"
  by (subst dec_digits.simps; simp)+

lemma digits_end: "ends_plain (dec_digits n)"
proof -
  have "byte (last (dec_digits n)) = 48 + n mod 10" by (simp add: digits_last byte_char_of)
  then show ?thesis using digits_last(2) byte_special(1) by (auto simp: ends_plain_def)
qed

lemma int_end: "ends_plain (json_int i)"
  using digits_end by (simp add: json_int_def ends_plain_def digits_last(2))

lemma strings_end: "ends_plain (json_strings xs)"
  by (simp add: json_strings_def ends_plain_def quote_char_def)

text \<open>The last field of an encoded record: its text, and that it is \<^verbatim>\<open>sid\<close> exactly when there is a signal id.\<close>

definition tail_field :: "string \<times> string option \<Rightarrow> bool" where
  "tail_field f = (list_all (\<lambda>c. 97 \<le> byte c \<and> byte c \<le> 122) (fst f) \<and>
     (\<forall>v. snd f = Some v \<longrightarrow> ends_plain v \<or> (\<exists>s. v = json_quote s)))"

definition tail_fields :: "recEnc \<Rightarrow> (string \<times> string option) list" where
  "tail_fields e =
     [(''ts'', Some (json_int (xTS e))), (''wb'', str_field (xWrittenBy e)),
      (''oo'', nat_field (xOriginOffset e)), (''aid'', str_field (xActorID e)),
      (''al'', str_field (xActorLabel e)), (''ak'', str_field (xActorKind e)),
      (''ag'', strs_field (xActorGroups e)), (''ac'', str_field (xActorClient e)),
      (''ae'', str_field (xActorEmail e)), (''acs'', strs_field (xActorClasses e)),
      (''acr'', str_field (xActorCredential e)), (''door'', str_field (xDoor e))]"

lemma tail_field_kinds:
  assumes "list_all (\<lambda>c. 97 \<le> byte c \<and> byte c \<le> 122) k"
  shows "tail_field (k, str_field s)" "tail_field (k, nat_field n)" "tail_field (k, strs_field xs)" "tail_field (k, Some (json_int i))"
  using assms by (auto simp: tail_field_def str_field_def nat_field_def strs_field_def int_end digits_end strings_end)

lemma tail_fields_ok: "\<forall>f \<in> set (tail_fields e). tail_field f \<and> fst f \<noteq> ''sid''"
  by (simp add: tail_fields_def tail_field_kinds byte_def)

lemma map_filter_append: "List.map_filter f (xs @ ys) = List.map_filter f xs @ List.map_filter f ys"
  by (simp add: List.map_filter_def)

definition head_fields :: "recEnc \<Rightarrow> (string \<times> string option) list" where
  "head_fields e =
     [(''slo'', if xSourceLocalOnly e then Some ''true'' else None),
      (''t'', Some (json_quote (xTopic e))), (''p'', Some (json_slice (xPayload e)))]"

lemma marshal_parts:
  "marshal_rec e =
     ''{'' @ join_with CHR '','' (List.map_filter field_text (head_fields e)) @
     '','' @ join_with CHR '','' (List.map_filter field_text (tail_fields e @ [(''sid'', str_field (xSignalID e))])) @ ''}''"
proof -
  have "marshal_rec e = json_object (head_fields e @ tail_fields e @ [(''sid'', str_field (xSignalID e))])"
    by (simp add: marshal_rec_def head_fields_def tail_fields_def)
  moreover have "List.map_filter field_text (head_fields e) \<noteq> []" "List.map_filter field_text (tail_fields e @ x) \<noteq> []" for x
    by (simp_all add: head_fields_def tail_fields_def List.map_filter_simps field_text_def)
  ultimately show ?thesis
    unfolding json_object_fields map_filter_append [of _ "head_fields e"] by (simp only: join_append append.assoc append_Cons append_Nil simp_thms)
qed

text \<open>The text of the last field.\<close>

lemma marshal_last:
  obtains q k v where "marshal_rec e = q @ '','' @ json_quote k @ '':'' @ v @ ''}''" "tail_field (k, Some v)"
    "xSignalID e = '''' \<longrightarrow> k \<noteq> ''sid''" "xSignalID e \<noteq> '''' \<longrightarrow> k = ''sid'' \<and> v = json_quote (xSignalID e)"
proof -
  define fs where "fs = tail_fields e @ [(''sid'', str_field (xSignalID e))]"
  define ts where "ts = List.map_filter field_text fs"
  have ne: "ts \<noteq> []" by (simp add: ts_def fs_def tail_fields_def List.map_filter_simps field_text_def)
  have join: "\<exists>pre. '','' @ join_with CHR '','' ts = pre @ '','' @ last ts"
    using join_last [of ts "CHR '',''" "[]"] ne by (cases ts) auto
  have "\<exists>k v. (k, Some v) \<in> set fs \<and> last ts = json_quote k @ '':'' @ v \<and> (xSignalID e \<noteq> '''' \<longrightarrow> k = ''sid'')"
  proof (cases "xSignalID e = ''''")
    case True
    have "last ts \<in> set ts" using ne by simp
    then obtain f where f: "f \<in> set fs" "field_text f = Some (last ts)" by (auto simp: ts_def List.map_filter_def)
    then obtain v where "snd f = Some v" "last ts = json_quote (fst f) @ '':'' @ v" by (auto simp: field_text_def)
    then show ?thesis using True f(1) by (metis prod.collapse)
  next
    case False
    then have "last ts = json_quote ''sid'' @ '':'' @ json_quote (xSignalID e)"
      by (simp add: ts_def fs_def map_filter_append List.map_filter_simps field_text_def str_field_def)
    moreover have "(''sid'', Some (json_quote (xSignalID e))) \<in> set fs" using False by (simp add: fs_def str_field_def)
    ultimately show ?thesis by blast
  qed
  then obtain k v where kv: "(k, Some v) \<in> set fs" "last ts = json_quote k @ '':'' @ v" "xSignalID e \<noteq> '''' \<longrightarrow> k = ''sid''" by blast
  have "(k, Some v) \<in> set (tail_fields e) \<or> k = ''sid'' \<and> Some v = str_field (xSignalID e)" using kv(1) by (auto simp: fs_def)
  moreover have "tail_field (''sid'', str_field (xSignalID e))" by (simp add: tail_field_kinds byte_def)
  ultimately have "tail_field (k, Some v)" "xSignalID e = '''' \<longrightarrow> k \<noteq> ''sid''"
     "xSignalID e \<noteq> '''' \<longrightarrow> k = ''sid'' \<and> v = json_quote (xSignalID e)"
    using tail_fields_ok [of e] kv(3) by (auto simp: str_field_def split: if_split_asm)
  moreover obtain pre where "marshal_rec e = pre @ '','' @ json_quote k @ '':'' @ v @ ''}''"
    using join kv(2) unfolding marshal_parts fs_def [symmetric] ts_def [symmetric] by (auto simp: that)
  ultimately show thesis using that by blast
qed

section \<open>The peek and the record\<close>

lemma digits_no_special: "list_all is_digit (dec_digits n)"
proof (induction n rule: dec_digits.induct)
  case (1 n)
  have "is_digit (char_of (48 + d))" if "d < 10" for d :: nat using that by (simp add: is_digit_def byte_char_of)
  from this [of n] this [of "n mod 10"] 1 show ?case by (subst dec_digits.simps) simp
qed

lemma digits_round_trip: "digits_val (dec_digits n) = n"
proof (induction n rule: dec_digits.induct)
  case (1 n)
  then show ?case by (subst dec_digits.simps) (simp add: digits_val_def byte_char_of)
qed

lemma base64_char_no_quote: "base64_char n \<noteq> quote_char"
proof -
  have "byte (base64_char n) \<noteq> byte quote_char"
    by (simp add: base64_char_def byte_char_of byte_special) (auto simp: byte_def)
  then show ?thesis by metis
qed

lemma base64_no_quote: "quote_char \<notin> set (base64 b)"
  using base64_char_no_quote
  by (induction b rule: base64.induct) (simp_all add: base64_char_no_quote [symmetric], simp_all add: quote_char_def)

lemma topic_start:
  "\<exists>r. marshal_rec e = ''{'' @ (if xSourceLocalOnly e then quoted ''slo'' @ '':true,'' else []) @ topic_prefix @
      quote_body (xTopic e) @ quote_char # '','' @ quoted ''p'' @ '':'' @ json_slice (xPayload e) @
      '','' @ quoted ''ts'' @ '':'' @ json_int (xTS e) @ r \<and> r \<noteq> [] \<and> (hd r = CHR '','' \<or> hd r = CHR ''}'')"
proof -
  have keys: "quote_body ''slo'' = ''slo''" "quote_body ''t'' = ''t''" "quote_body ''p'' = ''p''" "quote_body ''ts'' = ''ts''"
    by (rule quote_letters, simp add: byte_def)+
  obtain fs where fs: "tail_fields e @ [(''sid'', str_field (xSignalID e))] = (''ts'', Some (json_int (xTS e))) # fs"
    by (simp add: tail_fields_def)
  define r where "r = (let ts = List.map_filter field_text fs in if ts = [] then [] else '','' @ join_with CHR '','' ts) @ ''}''"
  have "join_with CHR '','' (x # ts) = x @ (if ts = [] then [] else '','' @ join_with CHR '','' ts)" for x ts by (cases ts) auto
  then have "join_with CHR '','' (List.map_filter field_text ((''ts'', Some (json_int (xTS e))) # fs)) @ ''}'' =
      quoted ''ts'' @ '':'' @ json_int (xTS e) @ r"
    by (simp add: List.map_filter_simps field_text_def keys json_quote_def r_def Let_def)
  then show ?thesis unfolding marshal_parts fs
    by (intro exI [of _ r]) (auto simp: head_fields_def List.map_filter_simps field_text_def keys topic_prefix_def json_quote_def r_def Let_def)
qed

lemma sid_found:
  assumes i: "last_index_str sidSuffix (marshal_rec e) = Some i"
    and s: "cut_suffix (drop (i + length sidSuffix) (marshal_rec e)) (quote_char # ''}'') = Some sid"
    and plain: "quote_char \<notin> set sid" "backslash \<notin> set sid"
  shows "sid = xSignalID e"
proof -
  obtain a b where ab: "marshal_rec e = a @ sidSuffix @ b" "length a = i" using last_index_Some [OF i] by blast
  then have "drop (i + length sidSuffix) (marshal_rec e) = b" by simp
  then have "b = sid @ quote_char # ''}''" using s by (auto simp: cut_suffix_def suffix_def split: if_split_asm)
  then have m: "marshal_rec e = (a @ sidSuffix @ sid) @ quote_char # ''}''" using ab(1) by simp
  obtain q k v where q: "marshal_rec e = q @ '','' @ json_quote k @ '':'' @ v @ ''}''" "tail_field (k, Some v)"
    "xSignalID e = '''' \<longrightarrow> k \<noteq> ''sid''" "xSignalID e \<noteq> '''' \<longrightarrow> k = ''sid'' \<and> v = json_quote (xSignalID e)"
    by (rule marshal_last)
  have letters: "list_all (\<lambda>c. 97 \<le> byte c \<and> byte c \<le> 122) k" using q(2) by (simp add: tail_field_def)
  have k: "quote_body k = k" "quote_char \<notin> set k" using quote_letters [OF letters] letters by (auto simp: list_all_iff byte_special)
  have "(q @ '','' @ json_quote k @ '':'') @ v = (a @ sidSuffix @ sid) @ [quote_char]" using q(1) m by simp
  then have "last ((q @ '','' @ json_quote k @ '':'') @ v) = quote_char" by simp
  then have "\<not> ends_plain v" by (simp add: ends_plain_def split: if_split_asm)
  then obtain w where w: "v = json_quote w" using q(2) by (auto simp: tail_field_def)
  have "q @ CHR '','' # quote_char # k @ quote_char # CHR '':'' # quote_char # quote_body w = a @ sidSuffix @ sid"
    using q(1) m by (simp add: w json_quote_def k(1))
  from sid_tail [OF this plain(1) k(2)] have sid: "k = ''sid''" "sid = quote_body w" .
  then have "sid = quote_body (xSignalID e)" using q(3,4) w by (auto simp: json_quote_def)
  then show ?thesis using body_plain [of "xSignalID e"] plain(2) by simp
qed

lemma sid_absent:
  assumes "last_index_str sidSuffix (marshal_rec e) = None"
  shows "xSignalID e = ''''"
proof (rule ccontr)
  assume "xSignalID e \<noteq> ''''"
  moreover obtain q k v where "marshal_rec e = q @ '','' @ json_quote k @ '':'' @ v @ ''}''"
    "xSignalID e \<noteq> '''' \<longrightarrow> k = ''sid'' \<and> v = json_quote (xSignalID e)" by (rule marshal_last)
  moreover have "quote_body ''sid'' = ''sid''" by (rule quote_letters) (simp add: byte_def)
  ultimately have "marshal_rec e = q @ sidSuffix @ quote_body (xSignalID e) @ quote_char # ''}''"
    by (simp add: json_quote_def sidSuffix_def)
  then show False using last_index_None [OF assms] by blast
qed

lemma topic_cut:
  assumes "marshal_rec e = ''{'' @ (if xSourceLocalOnly e then quoted ''slo'' @ '':true,'' else []) @ topic_prefix @ r"
  shows "(case cut_prefix (marshal_rec e) (''{'' @ topic_prefix) of Some rest \<Rightarrow> Some rest
          | None \<Rightarrow> cut_prefix (marshal_rec e) (''{'' @ quoted ''slo'' @ '':true,'' @ topic_prefix)) = Some r"
    and "the (index_str topic_prefix (marshal_rec e)) + length topic_prefix =
      length (''{'' @ (if xSourceLocalOnly e then quoted ''slo'' @ '':true,'' else []) @ topic_prefix)"
  using assms by (simp_all add: topic_prefix_def cut_prefix_def quote_char_def)

lemma peekHead_ok:
  assumes "peekHead (marshal_rec e) = Some (t, i)"
  shows "t = xTopic e" "i = xSignalID e" "quote_body (xTopic e) = xTopic e"
proof -
  obtain r where "marshal_rec e = ''{'' @ (if xSourceLocalOnly e then quoted ''slo'' @ '':true,'' else []) @ topic_prefix @
      quote_body (xTopic e) @ quote_char # r" using topic_start [of e] by auto
  note cut_topic = topic_cut(1) [OF this]
  obtain t' r' where t: "cut_at quote_char (quote_body (xTopic e) @ quote_char # r) = Some (t', r')" "backslash \<notin> set t'" "t' = t"
    using assms unfolding peekHead_def cut_topic option.case
    by (simp del: cut_at_Some cut_at_None split: option.split_asm prod.split_asm if_split_asm)
  from cut_quoted [OF t(1,2)] show "t = xTopic e" "quote_body (xTopic e) = xTopic e" using t(3) by simp_all
  show "i = xSignalID e"
    using assms sid_absent [of e] sid_found [of e] unfolding peekHead_def cut_topic option.case t(1)
    by (auto simp del: cut_at_Some cut_at_None split: option.split_asm if_split_asm)
qed

lemma peek_payload_ok:
  "peek_payload (json_slice p @ r) = Some (slice_bytes p = [], r)"
proof (cases p)
  case None
  then show ?thesis by (simp add: peek_payload_def json_slice_def slice_bytes_def cut_prefix_def)
next
  case (Some b)
  have "cut_at quote_char (base64 b @ quote_char # r) = Some (base64 b, r)" by (simp add: base64_no_quote)
  moreover have "base64 b = [] \<longleftrightarrow> b = []" by (cases b rule: base64.cases) simp_all
  ultimately show ?thesis
    using Some by (simp add: peek_payload_def json_slice_def slice_bytes_def cut_prefix_def quote_char_def del: cut_at_Some)
qed

lemma ParseInt_json_int: "ParseInt (json_int i) = (if - (2 ^ 63) \<le> i \<and> i < 2 ^ 63 then Some i else None)"
proof -
  have no_minus: "take (Suc 0) (dec_digits n) \<noteq> ''-''" for n
    using digits_no_special [of n] by (cases "dec_digits n") (auto simp: is_digit_def byte_def)
  show ?thesis
  proof (cases "i < 0")
    case True
    then show ?thesis
      by (simp add: ParseInt_def json_int_def digits_no_special digits_round_trip digits_last(2)) linarith
  next
    case False
    then show ?thesis
      by (simp add: ParseInt_def json_int_def digits_no_special digits_round_trip digits_last(2) no_minus) linarith
  qed
qed

lemma peek_ts_json_int:
  assumes "r \<noteq> []" "hd r = CHR '','' \<or> hd r = CHR ''}''" "peek_ts (json_int i @ r) = Some ts"
  shows "ts = i"
proof -
  obtain c cs where r: "r = c # cs" "\<not> is_digit c" using assms(1,2) by (cases r) (auto simp: is_digit_def byte_def)
  have run: "takeWhile is_digit (dec_digits n @ r) = dec_digits n" "dropWhile is_digit (dec_digits n @ r) = r" for n
    using digits_no_special [of n] r by (auto simp: list_all_iff)
  have no_minus: "(case dec_digits n @ r of c # cs \<Rightarrow> if c = CHR ''-'' then ([c], cs) else ([], dec_digits n @ r) | [] \<Rightarrow> ([], dec_digits n @ r))
      = ([], dec_digits n @ r)" for n
    using digits_no_special [of n] digits_last(2) [of n] by (cases "dec_digits n") (auto simp: is_digit_def byte_def)
  have "peek_ts (json_int i @ r) = (case ParseInt (json_int i) of None \<Rightarrow> None
      | Some ts \<Rightarrow> (case r of [] \<Rightarrow> None | c # _ \<Rightarrow> if c = CHR '','' \<or> c = CHR ''}'' then Some ts else None))"
    by (simp add: peek_ts_def json_int_def Let_def run no_minus cong: option.case_cong)
  then have "ParseInt (json_int i) = Some ts" using assms(3) by (simp add: r(1) split: option.split_asm if_split_asm)
  then show ?thesis by (simp add: ParseInt_json_int split: if_split_asm)
qed

lemma peekRecord_ok: "peekRecord (marshal_rec e) = Some h \<Longrightarrow> h = head_of e"
proof -
  assume some: "peekRecord (marshal_rec e) = Some h"
  obtain t i where ti: "peekHead (marshal_rec e) = Some (t, i)"
    using some by (auto simp: peekRecord_def split: option.split_asm)
  note t = peekHead_ok [OF ti]
  define pre where "pre = ''{'' @ (if xSourceLocalOnly e then quoted ''slo'' @ '':true,'' else []) @ topic_prefix"
  obtain r where m: "marshal_rec e = pre @ quote_body (xTopic e) @ quote_char # '','' @ quoted ''p'' @ '':'' @
      json_slice (xPayload e) @ '','' @ quoted ''ts'' @ '':'' @ json_int (xTS e) @ r"
    and r: "r \<noteq> []" "hd r = CHR '','' \<or> hd r = CHR ''}''" using topic_start [of e] by (auto simp: pre_def)

  have "the (index_str topic_prefix (marshal_rec e)) + length topic_prefix = length pre"
    using topic_cut(2) [of e] m by (simp add: pre_def)
  then have "drop (the (index_str topic_prefix (marshal_rec e)) + length topic_prefix + length t + 1) (marshal_rec e) =
      '','' @ quoted ''p'' @ '':'' @ json_slice (xPayload e) @ '','' @ quoted ''ts'' @ '':'' @ json_int (xTS e) @ r"
    by (simp add: m t)
  then have "map_option (\<lambda>ts. \<lparr>hTopic = t, hSignalID = i, hTS = ts, hEmptyPayload = (slice_bytes (xPayload e) = [])\<rparr>)
      (peek_ts (json_int (xTS e) @ r)) = Some h"
    using some ti unfolding peekRecord_def by (simp add: Let_def peek_payload_ok cut_prefix_def)
  then show ?thesis using peek_ts_json_int [OF r] t by (auto simp: head_of_def)
qed

text \<open>C34: whatever a stored record holds, the head that retention, compaction, eviction and the log reader read off its
  bytes is the head of the decoded record, and the topic and the signal id a filtered read peeks, when the peek
  succeeds, are the record's own: no text inside a value is taken for the signal id field.\<close>

theorem peek_agrees_with_decode:
  "headOf e = head_of e \<and> (peekHead (marshal_rec e) = None \<or> peekHead (marshal_rec e) = Some (xTopic e, xSignalID e))"
proof -
  have "headOf e = head_of e" using peekRecord_ok by (auto simp: headOf_def split: option.split)
  moreover have "peekHead (marshal_rec e) = None \<or> peekHead (marshal_rec e) = Some (xTopic e, xSignalID e)"
    using peekHead_ok(1,2) by (cases "peekHead (marshal_rec e)") auto
  ultimately show ?thesis by blast
qed

lemma peek_plain_record:
  "peekRecord (''{'' @ topic_prefix @ ''colca/v1/n1/_Metric/m1'' @ quote_char # '','' @ quoted ''p'' @ '':'' @ quoted ''eA=='' @
     '','' @ quoted ''ts'' @ '':-12'' @ sidSuffix @ ''s1'' @ quote_char # ''}'') =
   Some \<lparr>hTopic = ''colca/v1/n1/_Metric/m1'', hSignalID = ''s1'', hTS = -12, hEmptyPayload = False\<rparr>"
  by code_simp

end
