(* ===== verification/Store_Read.thy ===== *)
theory Store_Read
  imports Store_Upgrade Store_Peek
begin

text \<open>
  The read paths of the store: \<^verbatim>\<open>readRange\<close>, \<^verbatim>\<open>ReadRecordsBounded\<close>, \<^verbatim>\<open>FirstMatch\<close> (\<^verbatim>\<open>store.go\<close>,
  \<^verbatim>\<open>readpage.go\<close>), \<^verbatim>\<open>ReadSignals\<close> (\<^verbatim>\<open>sigindex.go\<close>), \<^verbatim>\<open>ReadTarget\<close> (\<^verbatim>\<open>targetindex.go\<close>),
  \<^verbatim>\<open>SeekTS\<close> and \<^verbatim>\<open>EachRecord\<close> (\<^verbatim>\<open>seekts.go\<close>). An iterator over a key range is the list of what the
  range holds, a snapshot the store it was taken of. \<^verbatim>\<open>ctx\<close> says at which of its checks the context of
  the request has ended. A page of a reader holds exactly the matching records between the position it
  was asked for and the position it returns, so a client that follows the positions sees every matching
  record once.
\<close>

section \<open>Pages\<close>

record pageBytes =
  pgMax :: nat
  pgUsed :: nat

definition take_page :: "nat \<Rightarrow> nat \<Rightarrow> pageBytes \<Rightarrow> pageBytes option" where
  "take_page sz n p =
     (if pgMax p > 0 \<and> n > 0 \<and> pgUsed p + sz > pgMax p then None else Some (p\<lparr>pgUsed := pgUsed p + sz\<rparr>))"

text \<open>The checks of the request's context: every 1024th record scanned, every 64th signal of a round.\<close>

datatype checkpoint = AtRecord nat | AtSignal nat nat

datatype read_error = Cancelled

text \<open>What a reader asks for beside the position: how many records, how much work, which records. A nil filter
  is one that keeps everything.\<close>

record read_request =
  qLimit :: nat
  qMaxScan :: nat
  qMaxBytes :: nat
  qHead :: "string \<Rightarrow> string \<Rightarrow> bool"
  qFilter :: "StoredRecord \<Rightarrow> bool"

record read_state =
  rdOut :: "StoredRecord list"
  rdNext :: nat
  rdScanned :: nat
  rdPage :: pageBytes

definition read_start :: "nat \<Rightarrow> read_request \<Rightarrow> read_state" where
  "read_start from q = \<lparr>rdOut = [], rdNext = from, rdScanned = 0, rdPage = \<lparr>pgMax = qMaxBytes q, pgUsed = 0\<rparr>\<rparr>"

text \<open>\<^verbatim>\<open>topic, signalID, ok := peekHead(val); ok && !head(topic, signalID)\<close>\<close>

definition head_rejects :: "read_request \<Rightarrow> recEnc \<Rightarrow> bool" where
  "head_rejects q e = (case peekHead (marshal_rec e) of None \<Rightarrow> False | Some (topic, sid) \<Rightarrow> \<not> qHead q topic sid)"

definition cancelled :: "(checkpoint \<Rightarrow> bool) \<Rightarrow> nat \<Rightarrow> bool" where
  "cancelled ctx scanned \<longleftrightarrow> scanned mod 1024 = 0 \<and> ctx (AtRecord scanned)"

definition spent :: "read_request \<Rightarrow> read_state \<Rightarrow> bool" where
  "spent q st \<longleftrightarrow> length (rdOut st) \<ge> qLimit q \<or> qMaxScan q > 0 \<and> rdScanned st \<ge> qMaxScan q"

section \<open>Reading a range\<close>

fun read_rows :: "(checkpoint \<Rightarrow> bool) \<Rightarrow> read_request \<Rightarrow> (nat \<times> recEnc) list \<Rightarrow> read_state \<Rightarrow> read_error + (read_state \<times> bool)" where
  "read_rows ctx q [] st = Inr (st, length (rdOut st) \<ge> qLimit q)"
| "read_rows ctx q ((off, e) # rows) st =
     (if spent q st then Inr (st, True)
      else let st1 = st\<lparr>rdScanned := rdScanned st + 1\<rparr>; moved = st1\<lparr>rdNext := off + 1\<rparr>; r = storedRecord off e in
        if cancelled ctx (rdScanned st1) then Inl Cancelled
        else if head_rejects q e \<or> \<not> qFilter q r then read_rows ctx q rows moved
        else (case take_page (length (marshal_rec e)) (length (rdOut st)) (rdPage st) of
                None \<Rightarrow> Inr (st1, True)
              | Some page \<Rightarrow> read_rows ctx q rows (moved\<lparr>rdOut := rdOut st @ [r], rdPage := page\<rparr>)))"

definition readRange :: "(checkpoint \<Rightarrow> bool) \<Rightarrow> string \<Rightarrow> nat \<Rightarrow> nat \<Rightarrow> read_request \<Rightarrow> Disk \<Rightarrow> read_error + (read_state \<times> bool)" where
  "readRange ctx stream from upTo q d = read_rows ctx q (scanStream stream from upTo d) (read_start from q)"

type_synonym read_page = "StoredRecord list \<times> nat"

definition page_of :: "read_state \<Rightarrow> read_page" where
  "page_of st = (rdOut st, rdNext st)"

definition ReadRecordsBounded :: "(checkpoint \<Rightarrow> bool) \<Rightarrow> string \<Rightarrow> nat \<Rightarrow> read_request \<Rightarrow> Store \<Rightarrow> read_error + read_page" where
  "ReadRecordsBounded ctx stream from q s =
     (case readRange ctx stream from (sNext s stream) q (sDisk s) of Inl e \<Rightarrow> Inl e | Inr (st, _) \<Rightarrow> Inr (page_of st))"

definition never :: "checkpoint \<Rightarrow> bool" where "never c = False"

definition Read :: "string \<Rightarrow> nat \<Rightarrow> nat \<Rightarrow> (string \<Rightarrow> bool) option \<Rightarrow> Store \<Rightarrow> read_error + read_page" where
  "Read stream from limit f s =
     (let keep = (case f of None \<Rightarrow> (\<lambda>_. True) | Some p \<Rightarrow> p) in
      ReadRecordsBounded never stream from
        \<lparr>qLimit = limit, qMaxScan = 0, qMaxBytes = 0, qHead = (\<lambda>topic _. keep topic), qFilter = (\<lambda>r. keep (oTopic r))\<rparr> s)"

definition ReadRecords :: "string \<Rightarrow> nat \<Rightarrow> nat \<Rightarrow> (StoredRecord \<Rightarrow> bool) \<Rightarrow> Store \<Rightarrow> read_error + read_page" where
  "ReadRecords stream from limit f s =
     ReadRecordsBounded never stream from \<lparr>qLimit = limit, qMaxScan = 0, qMaxBytes = 0, qHead = (\<lambda>_ _. True), qFilter = f\<rparr> s"

definition FirstMatch :: "string \<Rightarrow> nat \<Rightarrow> nat \<Rightarrow> (string \<Rightarrow> string \<Rightarrow> bool) \<Rightarrow> (StoredRecord \<Rightarrow> bool) \<Rightarrow> Store \<Rightarrow> read_error + StoredRecord option" where
  "FirstMatch stream from upTo head f s =
     (if upTo \<le> from then Inr None
      else (case readRange never stream from upTo \<lparr>qLimit = 1, qMaxScan = 0, qMaxBytes = 0, qHead = head, qFilter = f\<rparr> (sDisk s) of
              Inl e \<Rightarrow> Inl e
            | Inr (st, _) \<Rightarrow> (case rdOut st of [] \<Rightarrow> Inr None | r # _ \<Rightarrow> Inr (Some r))))"

section \<open>Reading through the signal index\<close>

text \<open>The index entries of one signal in \<^verbatim>\<open>[from, upTo)\<close>, in offset order.\<close>

definition sig_entries :: "string \<Rightarrow> string \<Rightarrow> nat \<Rightarrow> nat \<Rightarrow> Disk \<Rightarrow> nat list" where
  "sig_entries stream sig from upTo d = filter (\<lambda>off. (stream, sig, off) \<in> dSig d) [from..<upTo]"

text \<open>\<^verbatim>\<open>offsetMaxHeap\<close> under \<^verbatim>\<open>container/heap\<close>: the offsets it holds, ascending, the top last. The walk of
  one signal's entries pushes until the heap holds \<^verbatim>\<open>n\<close>, then replaces the top by anything smaller.\<close>

fun heap_entries :: "nat \<Rightarrow> nat list \<Rightarrow> nat list \<Rightarrow> nat list" where
  "heap_entries n [] offs = offs"
| "heap_entries n (off # rest) offs =
     (if length offs < n then heap_entries n rest (insort off offs)
      else if off \<ge> last offs then offs
      else heap_entries n rest (insort off (butlast offs)))"

fun heap_signals :: "(checkpoint \<Rightarrow> bool) \<Rightarrow> nat \<Rightarrow> string \<Rightarrow> nat \<Rightarrow> nat \<Rightarrow> nat \<Rightarrow> Disk \<Rightarrow> nat \<Rightarrow> string list \<Rightarrow> nat list \<Rightarrow> nat list option" where
  "heap_signals ctx scanned stream from head n d i [] offs = Some offs"
| "heap_signals ctx scanned stream from head n d i (sig # sigs) offs =
     (if i mod 64 = 0 \<and> ctx (AtSignal scanned i) then None
      else let upTo = (if length offs = n then last offs else head) in
        if length offs = n \<and> upTo - from < n then Some offs
        else heap_signals ctx scanned stream from head n d (i + 1) sigs (heap_entries n (sig_entries stream sig from upTo d) offs))"

definition smallestSigOffsets ::
    "(checkpoint \<Rightarrow> bool) \<Rightarrow> nat \<Rightarrow> string \<Rightarrow> string list \<Rightarrow> nat \<Rightarrow> nat \<Rightarrow> nat \<Rightarrow> Disk \<Rightarrow> nat list option" where
  "smallestSigOffsets ctx scanned stream signals from head n d = heap_signals ctx scanned stream from head n d 0 signals []"

definition maxSigRound :: nat where "maxSigRound = 65536"

text \<open>One round over the offsets it collected. \<^term>\<open>Inl\<close> is the answer of the read, \<^term>\<open>Inr\<close> where the round
  left off and whether an entry is left after it.\<close>

fun visit_sigs :: "(checkpoint \<Rightarrow> bool) \<Rightarrow> string \<Rightarrow> read_request \<Rightarrow> Disk \<Rightarrow> bool \<Rightarrow> nat list \<Rightarrow> read_state \<Rightarrow>
    (read_error + read_page) + (read_state \<times> bool)" where
  "visit_sigs ctx stream q d left [] st = Inr (st, left)"
| "visit_sigs ctx stream q d left (off # offs) st =
     (let st1 = st\<lparr>rdScanned := rdScanned st + 1, rdNext := off + 1\<rparr> in
      if cancelled ctx (rdScanned st1) then Inl (Inl Cancelled)
      else (case dRecs d stream off of
              None \<Rightarrow> visit_sigs ctx stream q d left offs st1
            | Some e \<Rightarrow>
                if head_rejects q e \<or> \<not> qFilter q (storedRecord off e) then visit_sigs ctx stream q d left offs st1
                else (case take_page (length (marshal_rec e)) (length (rdOut st)) (rdPage st) of
                        None \<Rightarrow> Inl (Inr (rdOut st, off))
                      | Some page \<Rightarrow>
                          let st2 = st1\<lparr>rdOut := rdOut st @ [storedRecord off e], rdPage := page\<rparr> in
                          if length (rdOut st2) = qLimit q then Inr (st2, left \<or> offs \<noteq> [])
                          else visit_sigs ctx stream q d left offs st2)))"

lemma heap_entries_mem: "set (heap_entries n es offs) \<subseteq> set es \<union> set offs"
proof (induction n es offs rule: heap_entries.induct)
  case (2 n off rest offs)
  then show ?case by (auto simp: set_insort_key dest: in_set_butlastD)
qed simp

lemma heap_signals_mem:
  "heap_signals ctx scanned stream a head n d i sigs offs = Some offs' \<Longrightarrow> \<forall>off \<in> set offs. a \<le> off \<and> off < head \<Longrightarrow> n \<noteq> 0 \<Longrightarrow>
   \<forall>off \<in> set offs'. a \<le> off \<and> off < head"
proof (induction ctx scanned stream a head n d i sigs offs rule: heap_signals.induct)
  case (2 ctx scanned stream a head n d i sig sigs offs)
  define upTo where "upTo = (if length offs = n then last offs else head)"
  have "upTo \<le> head" using 2(3,4) by (auto simp: upTo_def intro!: less_imp_le)
  then have "\<forall>off \<in> set (heap_entries n (sig_entries stream sig a upTo d) offs). a \<le> off \<and> off < head"
    using heap_entries_mem [of n "sig_entries stream sig a upTo d" offs] 2(3) by (fastforce simp: sig_entries_def)
  then show ?case using 2 by (simp add: Let_def upTo_def split: if_split_asm)
qed simp

lemma visit_sigs_next:
  "visit_sigs ctx stream q d left offs st = Inr (st', left') \<Longrightarrow> offs \<noteq> [] \<Longrightarrow> \<forall>off \<in> set offs. m \<le> off \<Longrightarrow> m < rdNext st'"
proof (induction ctx stream q d left offs st rule: visit_sigs.induct)
  case (2 ctx stream q d left off offs st)
  have "m < rdNext st'" if "visit_sigs ctx stream q d left offs st1 = Inr (st', left')" "m < rdNext st1"
     "offs \<noteq> [] \<Longrightarrow> m < rdNext st'" for st1
    using that by (cases offs) auto
  with 2 show ?case
    by (auto simp: Let_def split: if_split_asm option.split_asm)
qed simp

definition sig_budget :: "read_request \<Rightarrow> read_state \<Rightarrow> nat" where
  "sig_budget q st = (if qMaxScan q > 0 then min maxSigRound (qMaxScan q - rdScanned st) else maxSigRound)"

lemma budget_pos: "\<not> spent q st \<Longrightarrow> 0 < min (max want (qLimit q - length (rdOut st))) (sig_budget q st)"
  by (auto simp: spent_def sig_budget_def maxSigRound_def)

function sig_rounds :: "(checkpoint \<Rightarrow> bool) \<Rightarrow> string \<Rightarrow> read_request \<Rightarrow> Disk \<Rightarrow> string list \<Rightarrow> nat \<Rightarrow> nat \<Rightarrow> nat \<Rightarrow> read_state \<Rightarrow>
    read_error + read_page" where
  "sig_rounds ctx stream q d sigs lwm head want st =
     (if spent q st then Inr (page_of st)
      else let w = min (max want (qLimit q - length (rdOut st))) (sig_budget q st) in
        (case smallestSigOffsets ctx (rdScanned st) stream sigs (max (rdNext st) lwm) head (w + 1) d of
           None \<Rightarrow> Inl Cancelled
         | Some offs \<Rightarrow>
             (case visit_sigs ctx stream q d (length offs > w) (take w offs) st of
                Inl r \<Rightarrow> r
              | Inr (st1, left) \<Rightarrow>
                  if left then sig_rounds ctx stream q d sigs lwm head (w * 4) st1
                  else Inr (rdOut st1, head))))"
  by pat_completeness auto


termination
proof (relation "measure (\<lambda>(ctx, stream, q, d, sigs, lwm, head, want, st). head - rdNext st)")
  fix ctx stream and q :: read_request and d sigs lwm head want and st :: read_state and w offs b st1 left
  assume sp: "\<not> spent q st" and w: "w = min (max want (qLimit q - length (rdOut st))) (sig_budget q st)"
    and offs: "smallestSigOffsets ctx (rdScanned st) stream sigs (max (rdNext st) lwm) head (w + 1) d = Some offs"
    and v: "visit_sigs ctx stream q d (length offs > w) (take w offs) st = Inr b" "(st1, left) = b" "left"
  have "\<forall>off \<in> set offs. max (rdNext st) lwm \<le> off \<and> off < head"
    using heap_signals_mem offs [unfolded smallestSigOffsets_def] by fastforce
  then have mem: "\<forall>off \<in> set (take w offs). rdNext st \<le> off \<and> off < head" by (auto dest: in_set_takeD)
  have "0 < w" using budget_pos [OF sp] w by simp
  have ne: "take w offs \<noteq> []"
  proof
    assume none: "take w offs = []"
    then have "offs = []" using \<open>0 < w\<close> by simp
    then show False using v by auto
  qed
  then have "rdNext st < head" using mem by (cases "take w offs") force+
  moreover have "rdNext st < rdNext st1"
    using visit_sigs_next [of ctx stream q d "length offs > w" "take w offs" st st1 left] v ne mem by auto
  ultimately show "((ctx, stream, q, d, sigs, lwm, head, w * 4, st1), ctx, stream, q, d, sigs, lwm, head, want, st)
      \<in> measure (\<lambda>(ctx, stream, q, d, sigs, lwm, head, want, st). head - rdNext st)" by simp
qed simp

declare sig_rounds.simps [simp del]

definition ReadSignals :: "(checkpoint \<Rightarrow> bool) \<Rightarrow> string \<Rightarrow> nat \<Rightarrow> string list \<Rightarrow> read_request \<Rightarrow> Store \<Rightarrow> read_error + read_page" where
  "ReadSignals ctx stream from signals q s =
     (let covered = sSigFrom s stream; head = sNext s stream; lwm = sLWM s stream; d = sDisk s;
          sigs = remdups_adj (sort signals);
          through = (\<lambda>st. if rdNext st \<ge> head then Inr (page_of st)
                          else sig_rounds ctx stream q d sigs lwm head (qLimit q - length (rdOut st)) st) in
      if from < covered
      then (case readRange ctx stream from (min covered head) q d of
              Inl e \<Rightarrow> Inl e
            | Inr (st, stopped) \<Rightarrow>
                if stopped \<or> covered \<ge> head then Inr (page_of st) else through (st\<lparr>rdNext := covered\<rparr>))
      else through (read_start from q))"

section \<open>Reading through the target index\<close>

definition target_entries :: "string \<Rightarrow> string \<Rightarrow> nat \<Rightarrow> nat \<Rightarrow> Disk \<Rightarrow> nat list" where
  "target_entries stream target from upTo d = filter (\<lambda>off. (stream, target, off) \<in> dTarget d) [from..<upTo]"

fun visit_targets :: "(checkpoint \<Rightarrow> bool) \<Rightarrow> string \<Rightarrow> read_request \<Rightarrow> nat \<Rightarrow> Disk \<Rightarrow> nat list \<Rightarrow> read_state \<Rightarrow> read_error + read_page" where
  "visit_targets ctx stream q upTo d [] st =
     Inr (if length (rdOut st) \<ge> qLimit q then page_of st else (rdOut st, upTo))"
| "visit_targets ctx stream q upTo d (off # offs) st =
     (if spent q st then Inr (page_of st)
      else let st1 = st\<lparr>rdScanned := rdScanned st + 1, rdNext := off + 1\<rparr> in
        if cancelled ctx (rdScanned st1) then Inl Cancelled
        else (case dRecs d stream off of
                None \<Rightarrow> visit_targets ctx stream q upTo d offs st1
              | Some e \<Rightarrow>
                  let r = storedRecord off e in
                  visit_targets ctx stream q upTo d offs (if qFilter q r then st1\<lparr>rdOut := rdOut st @ [r]\<rparr> else st1)))"

definition for_target :: "string \<Rightarrow> read_request \<Rightarrow> read_request" where
  "for_target target q = q\<lparr>qMaxBytes := 0, qHead := (\<lambda>topic _. recordTarget topic = target)\<rparr>"

text \<open>The request of \<^verbatim>\<open>ReadTarget\<close> has no head filter and no byte budget of its own.\<close>

definition ReadTarget :: "(checkpoint \<Rightarrow> bool) \<Rightarrow> string \<Rightarrow> string \<Rightarrow> nat \<Rightarrow> nat \<Rightarrow> read_request \<Rightarrow> Store \<Rightarrow> read_error + read_page" where
  "ReadTarget ctx stream target from0 upTo0 q0 s =
     (let covered = sTargetFrom s stream; d = sDisk s; upTo = min upTo0 (sNext s stream); from = max from0 (sLWM s stream);
          q = for_target target q0;
          through = (\<lambda>st. visit_targets ctx stream q upTo d (target_entries stream target (rdNext st) upTo d) st) in
      if from \<ge> upTo then Inr ([], max from upTo)
      else if from < covered
      then (case readRange ctx stream from (min covered upTo) q d of
              Inl e \<Rightarrow> Inl e
            | Inr (st, stopped) \<Rightarrow>
                if stopped \<or> covered \<ge> upTo then Inr (page_of st) else through (st\<lparr>rdNext := covered\<rparr>))
      else through (read_start from q))"

section \<open>Seeking a time\<close>

lemma dropWhile_off: "dropWhile (\<lambda>r. fst r < m) rows = (off, e) # rest \<Longrightarrow> m \<le> (off :: nat)"
  by (drule dropWhile_eq_Cons_conv [THEN iffD1]) auto

text \<open>\<^verbatim>\<open>rows\<close> are the records of the iterator; the first at or after \<^verbatim>\<open>mid\<close> is where \<^verbatim>\<open>SeekGE\<close> lands.\<close>

function seek :: "(nat \<times> recEnc) list \<Rightarrow> int \<Rightarrow> nat \<Rightarrow> nat \<Rightarrow> nat" where
  "seek rows ts lo hi =
     (if lo < hi then
        let mid = lo + (hi - lo) div 2 in
        (case dropWhile (\<lambda>r. fst r < mid) rows of
           [] \<Rightarrow> seek rows ts lo mid
         | (off, e) # _ \<Rightarrow> if hTS (headOf e) \<ge> ts then seek rows ts lo mid else seek rows ts (off + 1) hi)
      else lo)"
  by pat_completeness auto

termination
  by (relation "measure (\<lambda>(rows, ts, lo, hi). hi - lo)") (auto dest!: dropWhile_off sym [of "_ # _"])

declare seek.simps [simp del]

definition SeekTS :: "string \<Rightarrow> int \<Rightarrow> Store \<Rightarrow> nat" where
  "SeekTS stream ts s =
     (let lo = (if sLWM s stream = 0 then 1 else sLWM s stream); hi = sNext s stream in
      if hi \<le> lo then hi else seek (scanStream stream lo hi (sDisk s)) ts lo hi)"

text \<open>The callback of \<^verbatim>\<open>EachRecord\<close> folds what it sees into a value of its own; \<^verbatim>\<open>head\<close> is \<^term>\<open>None\<close> where
  it is nil.\<close>

fun each_row :: "(nat \<Rightarrow> string \<Rightarrow> int \<Rightarrow> bool \<times> bool) option \<Rightarrow> ('a \<Rightarrow> StoredRecord \<Rightarrow> 'a \<times> bool) \<Rightarrow> (nat \<times> recEnc) list \<Rightarrow> 'a \<Rightarrow> 'a" where
  "each_row head fn [] a = a"
| "each_row head fn ((off, e) # rows) a =
     (let (decode, go) = (case head of None \<Rightarrow> (True, True) | Some h \<Rightarrow> h off (hTopic (headOf e)) (hTS (headOf e))) in
      if \<not> go then a
      else if \<not> decode then each_row head fn rows a
      else let (a', go_on) = fn a (storedRecord off e) in if go_on then each_row head fn rows a' else a')"

definition EachRecord :: "string \<Rightarrow> nat \<Rightarrow> nat \<Rightarrow> (nat \<Rightarrow> string \<Rightarrow> int \<Rightarrow> bool \<times> bool) option \<Rightarrow>
    ('a \<Rightarrow> StoredRecord \<Rightarrow> 'a \<times> bool) \<Rightarrow> Store \<Rightarrow> 'a \<Rightarrow> 'a" where
  "EachRecord stream from upTo head fn s a =
     (if upTo \<le> from then a else each_row head fn (scanStream stream from upTo (sDisk s)) a)"

section \<open>What a page holds\<close>

definition kept :: "read_request \<Rightarrow> (nat \<times> recEnc) list \<Rightarrow> StoredRecord list" where
  "kept q rows = filter (qFilter q) (map (\<lambda>(off, e). storedRecord off e) rows)"

text \<open>The records between two positions that the request wants.\<close>

definition matching :: "string \<Rightarrow> read_request \<Rightarrow> Disk \<Rightarrow> nat \<Rightarrow> nat \<Rightarrow> StoredRecord list" where
  "matching stream q d a b = kept q (scanStream stream a b d)"

text \<open>The contract of \<^verbatim>\<open>HeadFilter\<close>: it rejects only what the full filter rejects as well.\<close>

definition head_sound :: "read_request \<Rightarrow> bool" where
  "head_sound q \<longleftrightarrow> (\<forall>off e. qFilter q (storedRecord off e) \<longrightarrow> qHead q (xTopic e) (xSignalID e))"

lemma kept_simps [simp]: "kept q [] = []" "kept q (xs @ ys) = kept q xs @ kept q ys"
  "kept q ((off, e) # rows) = (if qFilter q (storedRecord off e) then storedRecord off e # kept q rows else kept q rows)"
  by (simp_all add: kept_def)

lemma head_rejects_sound: "head_sound q \<Longrightarrow> head_rejects q e \<Longrightarrow> \<not> qFilter q (storedRecord off e)"
proof -
  assume q: "head_sound q" "head_rejects q e"
  then obtain t i where "peekHead (marshal_rec e) = Some (t, i)" "\<not> qHead q t i"
    by (auto simp: head_rejects_def split: option.split_asm)
  then show ?thesis using q(1) peekHead_ok(1,2) [of e t i] by (auto simp: head_sound_def)
qed

lemma matching_append: "a \<le> b \<Longrightarrow> b \<le> c \<Longrightarrow> matching st q d a c = matching st q d a b @ matching st q d b c"
  using scanStream_append [of a b c st d] by (simp add: matching_def)

lemma take_page_first: "take_page sz 0 p \<noteq> None"
  by (simp add: take_page_def)

lemma read_rows_ok:
  assumes "head_sound q" "read_rows ctx q rows st = Inr (st', stopped)"
  shows "\<exists>xs ys. rows = xs @ ys \<and> rdOut st' = rdOut st @ kept q xs \<and>
    rdNext st' = (if xs = [] then rdNext st else fst (last xs) + 1) \<and>
    (if stopped then xs \<noteq> [] \<or> spent q st \<or> rdOut st \<noteq> [] else ys = [] \<and> length (rdOut st') < qLimit q)"
  using assms(2)
proof (induction rows arbitrary: st)
  case Nil
  then show ?case by (auto simp: spent_def)
next
  case (Cons row rows)
  obtain off e where row: "row = (off, e)" by (cases row)
  let ?r = "storedRecord off e"
  have step: ?case
    if run: "read_rows ctx q rows st1 = Inr (st', stopped)" and st1: "rdOut st1 = rdOut st @ kept q [row]" "rdNext st1 = off + 1" for st1
  proof -
    obtain xs ys where "rows = xs @ ys" "rdOut st' = rdOut st1 @ kept q xs"
      "rdNext st' = (if xs = [] then rdNext st1 else fst (last xs) + 1)"
      "if stopped then xs \<noteq> [] \<or> spent q st1 \<or> rdOut st1 \<noteq> [] else ys = [] \<and> length (rdOut st') < qLimit q"
      using Cons.IH [OF run] by blast
    then show ?thesis using st1 by (intro exI [of _ "row # xs"] exI [of _ ys]) (auto simp: row)
  qed
  show ?case
  proof (cases "spent q st")
    case True
    then show ?thesis using Cons.prems by (intro exI [of _ "[]"] exI [of _ "row # rows"]) (auto simp: row)
  next
    case False
    show ?thesis
    proof (cases "head_rejects q e \<or> \<not> qFilter q ?r")
      case True
      then have "kept q [row] = []" using head_rejects_sound [OF assms(1)] by (auto simp: row)
      with True show ?thesis
        using Cons.prems False by (intro step [of "st\<lparr>rdScanned := rdScanned st + 1, rdNext := off + 1\<rparr>"]) (auto simp: row Let_def split: if_split_asm)
    next
      case keep: False
      show ?thesis
      proof (cases "take_page (length (marshal_rec e)) (length (rdOut st)) (rdPage st)")
        case None
        then have "rdOut st \<noteq> []" using take_page_first by (metis list.size(3))
        then show ?thesis
          using None Cons.prems False keep by (intro exI [of _ "[]"] exI [of _ "row # rows"]) (auto simp: row Let_def split: if_split_asm)
      next
        case (Some page)
        then show ?thesis using Cons.prems False keep
          by (intro step [of "st\<lparr>rdScanned := rdScanned st + 1, rdNext := off + 1, rdOut := rdOut st @ [?r], rdPage := page\<rparr>"])
            (auto simp: row Let_def split: if_split_asm)
      qed
    qed
  qed
qed

lemma read_rows_never: "\<exists>p. read_rows never q rows st = Inr p"
proof (induction rows arbitrary: st)
  case (Cons row rows)
  then show ?case by (cases row) (auto simp: Let_def cancelled_def never_def split: option.split)
qed auto

lemma readRange_ok:
  assumes "head_sound q" "from \<le> upTo" "readRange ctx stream from upTo q d = Inr (st, stopped)"
  shows "from \<le> rdNext st" "rdNext st \<le> upTo" "rdOut st = matching stream q d from (rdNext st)"
    "\<not> stopped \<Longrightarrow> matching stream q d (rdNext st) upTo = [] \<and> length (rdOut st) < qLimit q"
    "qLimit q \<noteq> 0 \<Longrightarrow> rdNext st = from \<Longrightarrow> matching stream q d from upTo = []"
    "qLimit q \<noteq> 0 \<Longrightarrow> stopped \<Longrightarrow> from < rdNext st"
proof -
  define rows where "rows = scanStream stream from upTo d"
  have start: "rdOut (read_start from q) = []" "rdNext (read_start from q) = from" by (simp_all add: read_start_def)
  obtain xs ys where rows: "rows = xs @ ys" and st': "rdOut st = rdOut (read_start from q) @ kept q xs"
      "rdNext st = (if xs = [] then rdNext (read_start from q) else fst (last xs) + 1)"
    and stop': "if stopped then xs \<noteq> [] \<or> spent q (read_start from q) \<or> rdOut (read_start from q) \<noteq> []
      else ys = [] \<and> length (rdOut st) < qLimit q"
    using read_rows_ok [OF assms(1) assms(3) [unfolded readRange_def rows_def [symmetric]]] by (elim exE conjE)
  have st: "rdOut st = kept q xs" "rdNext st = (if xs = [] then from else fst (last xs) + 1)" using st' start by simp_all
  have stop: "if stopped then xs \<noteq> [] \<or> spent q (read_start from q) else ys = [] \<and> length (rdOut st) < qLimit q"
    using stop' start by (cases stopped) simp_all
  have last: "last xs \<in> set rows" if "xs \<noteq> []" using that by (simp add: rows)
  then have in_range: "from \<le> fst (last xs) \<and> fst (last xs) < upTo" if "xs \<noteq> []" using that by (simp add: rows_def scanned)
  then have range: "from \<le> rdNext st \<and> rdNext st \<le> upTo" using assms(2) st(2) by (cases "xs = []") simp_all
  then show "from \<le> rdNext st" "rdNext st \<le> upTo" by simp_all
  have pre: "scanStream stream from (rdNext st) d = xs"
  proof (cases "xs = []")
    case True
    then show ?thesis using st(2) by (simp add: scanStream_def)
  next
    case False
    then show ?thesis using scanStream_prefix [of stream "from" upTo d xs ys] rows st(2) by (simp add: rows_def)
  qed
  show "rdOut st = matching stream q d from (rdNext st)" unfolding matching_def pre st(1) ..
  have post: "scanStream stream (rdNext st) upTo d = ys"
    using scanStream_append [of "from" "rdNext st" upTo stream d] range pre rows by (simp add: rows_def)
  then show "\<not> stopped \<Longrightarrow> matching stream q d (rdNext st) upTo = [] \<and> length (rdOut st) < qLimit q"
    using stop by (cases stopped) (simp_all add: matching_def)
  have fresh: "\<not> spent q (read_start from q)" if "qLimit q \<noteq> 0" using that by (auto simp: spent_def read_start_def)
  show "matching stream q d from upTo = []" if "qLimit q \<noteq> 0" "rdNext st = from"
  proof -
    have "xs = []" using that(2) in_range st(2) by (cases "xs = []") simp_all
    then have "rows = []" using stop rows fresh [OF that(1)] by (cases stopped) simp_all
    then show ?thesis by (simp add: matching_def rows_def)
  qed
  show "from < rdNext st" if "qLimit q \<noteq> 0" stopped
    using that stop fresh in_range st(2) by (cases "xs = []") simp_all
qed

section \<open>The smallest offsets\<close>

lemma take_insort_above:
  "sorted ys \<Longrightarrow> length ys \<ge> n \<Longrightarrow> \<forall>z \<in> set (take n ys). z < y \<Longrightarrow> take n (insort y ys) = take n (ys :: nat list)"
proof (induction ys arbitrary: n)
  case (Cons z zs)
  then show ?case by (cases n) auto
qed simp

lemma take_insort_below:
  assumes "sorted ys" "length ys \<ge> n" "n \<noteq> 0" "y < last (take n ys)"
  shows "take n (insort y ys) = insort y (butlast (take n ys :: nat list))"
  using assms
proof (induction ys arbitrary: n)
  case (Cons z zs)
  then obtain m where n: "n = Suc m" by (cases n) auto
  show ?case
  proof (cases "m = 0")
    case True
    then show ?thesis using Cons.prems by (simp add: n)
  next
    case False
    then have "take m zs \<noteq> []" using Cons.prems(2) by (auto simp: n)
    then show ?thesis using Cons False
      by (simp add: n take_Cons' butlast_take min_absorb1)
  qed
qed simp

lemma sort_snoc: "sort (xs @ [y]) = insort y (sort xs :: nat list)"
  by (induction xs) (simp_all add: insort_left_comm)

lemma take_sort_above:
  assumes "length xs \<ge> n" "\<forall>y \<in> set ys. \<forall>z \<in> set (take n (sort xs)). z < y"
  shows "take n (sort (xs @ ys)) = take n (sort xs :: nat list)"
  using assms
proof (induction ys rule: rev_induct)
  case (snoc y ys)
  then have "take n (sort (xs @ ys)) = take n (sort xs)" by simp
  then have "take n (insort y (sort (xs @ ys))) = take n (sort (xs @ ys))"
    using snoc.prems by (intro take_insort_above) auto
  with snoc show ?case by (simp add: sort_snoc flip: append_assoc)
qed simp

lemma last_take_sort:
  assumes "n \<noteq> 0" "length xs \<ge> n" "z \<in> set (take n (sort xs))"
  shows "z \<le> last (take n (sort xs :: nat list))"
proof -
  have "sorted (take n (sort xs))" by (simp add: sorted_wrt_take)
  moreover obtain as bs where "take n (sort xs) = as @ z # bs" using assms(3) split_list by fast
  ultimately show ?thesis by (cases bs rule: rev_cases) (auto simp: sorted_append)
qed

text \<open>The walk of one signal keeps the smallest offsets of all it has seen.\<close>

lemma heap_entries_smallest:
  assumes "n \<noteq> 0" "sorted es" "distinct (xs @ es)"
  shows "heap_entries n es (take n (sort xs)) = take n (sort (xs @ es))"
  using assms
proof (induction es arbitrary: xs)
  case (Cons off es)
  have split: "xs @ off # es = (xs @ [off]) @ es" by simp
  have IH: "heap_entries n es (take n (sort (xs @ [off]))) = take n (sort (xs @ off # es))"
    unfolding split using Cons.prems by (intro Cons.IH) auto
  consider "length xs < n" | "length xs \<ge> n" "off \<ge> last (take n (sort xs))" | "length xs \<ge> n" "off < last (take n (sort xs))"
    by linarith
  then show ?case
  proof cases
    case 1
    then have "take n (sort (xs @ [off])) = insort off (take n (sort xs))" by (simp add: sort_snoc)
    then show ?thesis using 1 IH by simp
  next
    case 2
    have "\<forall>y \<in> set (off # es). \<forall>z \<in> set (take n (sort xs)). z < y"
    proof (intro ballI)
      fix y z assume y: "y \<in> set (off # es)" and z: "z \<in> set (take n (sort xs))"
      have "z \<le> off" using last_take_sort [OF Cons.prems(1) 2(1) z] 2(2) by simp
      moreover have "off \<le> y" using y Cons.prems(2) by auto
      moreover have "z \<in> set xs" using in_set_takeD [OF z] by simp
      moreover have "z \<noteq> y" using y calculation(3) Cons.prems(3) by (auto simp: disjoint_iff)
      ultimately show "z < y" by simp
    qed
    then have "take n (sort (xs @ off # es)) = take n (sort xs)" using 2(1) by (intro take_sort_above)
    then show ?thesis using 2 by simp
  next
    case 3
    then have "take n (sort (xs @ [off])) = insort off (butlast (take n (sort xs)))"
      using Cons.prems(1) by (simp add: sort_snoc take_insort_below)
    then show ?thesis using 3 IH by simp
  qed
qed simp

definition all_entries :: "string \<Rightarrow> string list \<Rightarrow> nat \<Rightarrow> nat \<Rightarrow> Disk \<Rightarrow> nat list" where
  "all_entries stream sigs a b d = concat (map (\<lambda>sig. sig_entries stream sig a b d) sigs)"

text \<open>A bound at the largest offset held loses nothing: the offsets it leaves out would not be kept.\<close>

lemma heap_bound:
  assumes "length offs = n" "n \<noteq> 0" "\<forall>z \<in> set offs. z \<le> m" "sorted es"
  shows "heap_entries n (filter (\<lambda>off. off < m) es) offs = heap_entries n es offs"
  using assms
proof (induction es arbitrary: offs)
  case (Cons off es)
  have ne: "offs \<noteq> []" using Cons.prems(1,2) by auto
  show ?case
  proof (cases "off < m")
    case True
    have "heap_entries n (filter (\<lambda>off. off < m) es) (insort off (butlast offs)) = heap_entries n es (insort off (butlast offs))"
      using Cons.prems True ne by (intro Cons.IH) (auto simp: set_insort_key dest: in_set_butlastD)
    then show ?thesis using True Cons.prems(1) by simp
  next
    case False
    then have "filter (\<lambda>off. off < m) (off # es) = []" using Cons.prems(4) by (auto simp: filter_empty_conv)
    moreover have "last offs \<le> off" using False Cons.prems(3) ne by (meson last_in_set le_trans linorder_not_le less_imp_le)
    ultimately show ?thesis using Cons.prems(1) by simp
  qed
qed simp

text \<open>A heap full of the offsets from \<^verbatim>\<open>a\<close> on has no room for a smaller one.\<close>

lemma full_from:
  assumes "distinct xs" "\<forall>x \<in> set xs. a \<le> x" "length xs \<ge> n" "n \<noteq> 0" "last (take n (sort xs)) - a < n" "\<forall>y \<in> set ys. a \<le> y"
    and disj: "set xs \<inter> set ys = {}"
  shows "take n (sort (xs @ ys)) = take n (sort xs :: nat list)"
proof (rule take_sort_above [OF assms(3)], intro ballI)
  let ?t = "take n (sort xs)"
  have t: "set ?t \<subseteq> set xs" using set_take_subset [of n "sort xs"] by simp
  have le: "z \<le> last ?t" if "z \<in> set ?t" for z using last_take_sort [OF assms(4,3) that] .
  have "card (set ?t) = n" using assms(1,3) by (simp add: distinct_card)
  moreover have "set ?t \<subseteq> {a..last ?t}" using t le assms(2) by auto
  moreover have "card {a..last ?t} \<le> n" using assms(5) by simp
  ultimately have full: "set ?t = {a..last ?t}" by (intro card_seteq) (simp_all only: finite_atLeastAtMost)
  fix y z assume y: "y \<in> set ys" and z: "z \<in> set ?t"
  have "y \<notin> set ?t" using t y disj by auto
  then have "last ?t < y" using full assms(6) y by (metis atLeastAtMost_iff not_le)
  then show "z < y" using le [OF z] by simp
qed

lemma heap_signals_smallest:
  assumes "heap_signals ctx k stream a head n d i sigs (take n (sort xs)) = Some offs" "n \<noteq> 0"
    and "distinct (xs @ all_entries stream sigs a head d)" "\<forall>x \<in> set xs. a \<le> x \<and> x < head"
  shows "offs = take n (sort (xs @ all_entries stream sigs a head d))"
  using assms
proof (induction sigs arbitrary: xs i)
  case (Cons sig sigs)
  define es where "es = sig_entries stream sig a head d"
  let ?t = "take n (sort xs)"
  have es: "sorted es" "\<forall>x \<in> set es. a \<le> x \<and> x < head" by (simp_all add: es_def sig_entries_def sorted_wrt_filter)
  have all: "all_entries stream (sig # sigs) a head d = es @ all_entries stream sigs a head d" by (simp add: all_entries_def es_def)
  have a: "\<forall>y \<in> set (all_entries stream (sig # sigs) a head d). a \<le> y" by (auto simp: all_entries_def sig_entries_def)
  define upTo where "upTo = (if length ?t = n then last ?t else head)"
  have dist: "distinct (xs @ es)" using Cons.prems(3) by (auto simp: all)
  show ?case
  proof (cases "length ?t = n \<and> upTo - a < n")
    case True
    then have "offs = ?t" using Cons.prems(1) by (simp add: upTo_def Let_def split: if_split_asm)
    moreover have "take n (sort (xs @ all_entries stream (sig # sigs) a head d)) = ?t"
      using True Cons.prems(2-4) a by (intro full_from [of xs a]) (auto simp: upTo_def)
    ultimately show ?thesis by simp
  next
    case False
    have "heap_entries n (sig_entries stream sig a upTo d) ?t = take n (sort (xs @ es))"
    proof (cases "length ?t = n")
      case True
      then have m: "upTo = last ?t" "n \<le> length xs" by (simp_all add: upTo_def)
      have "?t \<noteq> []" using True Cons.prems(2) by (metis list.size(3))
      then have "last ?t \<in> set xs" using last_in_set [of ?t] in_set_takeD [of "last ?t" n "sort xs"] by simp
      then have "upTo < head" using Cons.prems(4) m(1) by simp
      then have "[a..<upTo] = filter (\<lambda>off. off < upTo) [a..<head]"
        by (induction head) (auto simp: less_Suc_eq filter_empty_conv)
      then have "sig_entries stream sig a upTo d = filter (\<lambda>off. off < upTo) es"
        by (simp add: sig_entries_def es_def conj_commute)
      then show ?thesis
        using heap_bound [of ?t n upTo es] heap_entries_smallest [of n es xs] True Cons.prems(2) es(1) dist last_take_sort [of n xs] m by simp
    next
      case no: False
      then have "upTo = head" by (simp only: upTo_def if_False)
      then show ?thesis using heap_entries_smallest [OF Cons.prems(2) es(1) dist] by (simp add: es_def)
    qed
    then have "heap_signals ctx k stream a head n d (i + 1) sigs (take n (sort (xs @ es))) = Some offs"
      using Cons.prems(1) False by (simp add: upTo_def Let_def split: if_split_asm)
    then have "offs = take n (sort ((xs @ es) @ all_entries stream sigs a head d))"
      using Cons.prems(2-4) es(2) by (intro Cons.IH) (auto simp: all)
    then show ?thesis by (simp add: all)
  qed
qed (simp add: all_entries_def)

section \<open>A read through an index\<close>

text \<open>The offsets of \<^verbatim>\<open>[a, b)\<close> that are filed under one of the signals.\<close>

definition under :: "string \<Rightarrow> string list \<Rightarrow> Disk \<Rightarrow> nat \<Rightarrow> bool" where
  "under stream sigs d off \<longleftrightarrow> (\<exists>sig \<in> set sigs. (stream, sig, off) \<in> dSig d)"

definition filed :: "string \<Rightarrow> string list \<Rightarrow> Disk \<Rightarrow> nat \<Rightarrow> nat \<Rightarrow> nat list" where
  "filed stream sigs d a b = filter (under stream sigs d) [a..<b]"

definition index_functional :: "string \<Rightarrow> Disk \<Rightarrow> bool" where
  "index_functional stream d \<longleftrightarrow> (\<forall>sig sig' off. (stream, sig, off) \<in> dSig d \<and> (stream, sig', off) \<in> dSig d \<longrightarrow> sig = sig')"

lemma distinct_all_entries:
  assumes "index_functional stream d" "distinct sigs"
  shows "distinct (all_entries stream sigs a b d)"
  using assms(2)
proof (induction sigs)
  case (Cons sig sigs)
  have "set (sig_entries stream sig a b d) \<inter> set (all_entries stream sigs a b d) = {}"
    using assms(1) Cons.prems by (auto simp: all_entries_def sig_entries_def index_functional_def)
  with Cons show ?case by (simp add: all_entries_def sig_entries_def)
qed (simp add: all_entries_def)

lemma smallest_filed:
  assumes "index_functional stream d" "distinct sigs" "n \<noteq> 0" "smallestSigOffsets ctx k stream sigs a head n d = Some offs"
  shows "offs = take n (filed stream sigs d a head)"
proof -
  have "sort (all_entries stream sigs a head d) = filed stream sigs d a head"
    using distinct_all_entries [OF assms(1,2), of a head]
    by (intro sorted_distinct_set_unique) (auto simp: filed_def under_def all_entries_def sig_entries_def sorted_wrt_filter)
  moreover have "offs = take n (sort ([] @ all_entries stream sigs a head d))"
    using assms distinct_all_entries [OF assms(1,2), of a head] by (intro heap_signals_smallest [of ctx k stream a head n d 0 sigs "[]"])
      (simp_all add: smallestSigOffsets_def)
  ultimately show ?thesis by simp
qed

lemma smallest_never: "\<exists>offs. smallestSigOffsets never k stream sigs a head n d = Some offs"
proof -
  have "\<exists>offs'. heap_signals never k stream a head n d i sigs offs = Some offs'" for i offs
    by (induction sigs arbitrary: i offs) (simp_all add: never_def Let_def)
  then show ?thesis by (simp add: smallestSigOffsets_def)
qed

text \<open>A visit of index entries stops with the page full, before a record that does not fit, or at the end.\<close>

definition visited :: "read_request \<Rightarrow> string \<Rightarrow> Disk \<Rightarrow> read_state \<Rightarrow> nat list \<Rightarrow> read_state \<Rightarrow> bool" where
  "visited q stream d st xs st' \<longleftrightarrow> rdOut st' = rdOut st @ kept q (records_at stream xs d) \<and>
     rdNext st' = (if xs = [] then rdNext st else last xs + 1)"

lemma records_at_simps [simp]: "records_at stream [] d = []"
  "records_at stream (off # offs) d = (case dRecs d stream off of None \<Rightarrow> records_at stream offs d | Some e \<Rightarrow> (off, e) # records_at stream offs d)"
  by (simp_all add: records_at_def List.map_filter_simps split: option.split)

lemma visited_step:
  assumes "visited q stream d st1 xs st'" "rdOut st1 = rdOut st @ kept q (records_at stream [off] d)" "rdNext st1 = off + 1"
  shows "visited q stream d st (off # xs) st'"
  using assms by (auto simp: visited_def split: option.split)

lemma visit_sigs_page:
  assumes "head_sound q" "visit_sigs ctx stream q d left offs st = Inr (st', left')"
  shows "\<exists>xs ys. offs = xs @ ys \<and> visited q stream d st xs st' \<and> (left' \<longleftrightarrow> left \<or> ys \<noteq> [])"
  using assms(2)
proof (induction offs arbitrary: st)
  case Nil
  then show ?case by (simp add: visited_def)
next
  case (Cons off offs)
  have step: ?case if "visit_sigs ctx stream q d left offs st1 = Inr (st', left')"
    "rdOut st1 = rdOut st @ kept q (records_at stream [off] d)" "rdNext st1 = off + 1" for st1
    using Cons.IH [OF that(1)] visited_step [OF _ that(2,3)] by (metis append_Cons)
  let ?st1 = "st\<lparr>rdScanned := rdScanned st + 1, rdNext := off + 1\<rparr>"
  show ?case
  proof (cases "dRecs d stream off")
    case None
    then show ?thesis using Cons.prems by (intro step [of ?st1]) (simp_all add: Let_def split: if_split_asm)
  next
    case (Some e)
    show ?thesis
    proof (cases "head_rejects q e \<or> \<not> qFilter q (storedRecord off e)")
      case True
      then show ?thesis using Some Cons.prems head_rejects_sound [OF assms(1)] by (intro step [of ?st1]) (auto simp: Let_def split: if_split_asm)
    next
      case keep: False
      then obtain page where page: "take_page (length (marshal_rec e)) (length (rdOut st)) (rdPage st) = Some page"
        using Some Cons.prems by (auto simp: Let_def split: if_split_asm option.split_asm)
      let ?st2 = "?st1\<lparr>rdOut := rdOut st @ [storedRecord off e], rdPage := page\<rparr>"
      show ?thesis
      proof (cases "length (rdOut ?st2) = qLimit q")
        case True
        then have "st' = ?st2" "left' \<longleftrightarrow> left \<or> offs \<noteq> []"
          using Some Cons.prems keep page by (auto simp: Let_def split: if_split_asm)
        then show ?thesis using Some keep by (intro exI [of _ "[off]"] exI [of _ offs]) (simp add: visited_def)
      next
        case False
        then show ?thesis using Some Cons.prems keep page by (intro step [of ?st2]) (auto simp: Let_def split: if_split_asm)
      qed
    qed
  qed
qed

lemma visit_sigs_answer:
  assumes "head_sound q" "visit_sigs ctx stream q d left offs st = Inl (Inr (out, next))"
  shows "\<exists>xs ys st'. offs = xs @ next # ys \<and> visited q stream d st xs st' \<and> out = rdOut st' \<and> out \<noteq> []"
  using assms(2)
proof (induction offs arbitrary: st)
  case (Cons off offs)
  have step: ?case if "visit_sigs ctx stream q d left offs st1 = Inl (Inr (out, next))"
    "rdOut st1 = rdOut st @ kept q (records_at stream [off] d)" "rdNext st1 = off + 1" for st1
    using Cons.IH [OF that(1)] visited_step [OF _ that(2,3)] by (metis append_Cons)
  let ?st1 = "st\<lparr>rdScanned := rdScanned st + 1, rdNext := off + 1\<rparr>"
  show ?case
  proof (cases "dRecs d stream off")
    case None
    then show ?thesis using Cons.prems by (intro step [of ?st1]) (simp_all add: Let_def split: if_split_asm)
  next
    case (Some e)
    show ?thesis
    proof (cases "head_rejects q e \<or> \<not> qFilter q (storedRecord off e)")
      case True
      then show ?thesis using Some Cons.prems head_rejects_sound [OF assms(1)] by (intro step [of ?st1]) (auto simp: Let_def split: if_split_asm)
    next
      case keep: False
      show ?thesis
      proof (cases "take_page (length (marshal_rec e)) (length (rdOut st)) (rdPage st)")
        case None
        then have "rdOut st \<noteq> []" using take_page_first by (metis list.size(3))
        moreover have "out = rdOut st" "next = off" using None Some keep Cons.prems by (auto simp: Let_def split: if_split_asm)
        ultimately show ?thesis by (intro exI [of _ "[]"] exI [of _ offs] exI [of _ st]) (simp add: visited_def)
      next
        case page: (Some page)
        show ?thesis using page Some Cons.prems keep
          by (intro step [of "?st1\<lparr>rdOut := rdOut st @ [storedRecord off e], rdPage := page\<rparr>"]) (auto simp: Let_def split: if_split_asm)
      qed
    qed
  qed
qed simp

lemma visit_sigs_never: "visit_sigs never stream q d left offs st \<noteq> Inl (Inl e)"
  by (induction offs arbitrary: st) (simp_all add: Let_def cancelled_def never_def split: option.split)

lemma filter_upt_split:
  assumes "filter P [a..<b] = xs @ y # ys"
  shows "a \<le> y" "y < b" "filter P [a..<y] = xs" "filter P [y + 1..<b] = ys"
proof -
  have "y \<in> set (filter P [a..<b])" unfolding assms by simp
  then have y: "a \<le> y" "y < b" "P y" by simp_all
  then have "[a..<b] = [a..<y] @ y # [y + 1..<b]"
    using upt_add_eq_append [OF y(1), of "b - y"] upt_conv_Cons [OF y(2)] by simp
  then have eq: "filter P [a..<y] @ y # filter P [y + 1..<b] = xs @ y # ys" using y(3) assms by simp
  moreover have "distinct (xs @ y # ys)" using assms by (metis distinct_filter distinct_upt)
  ultimately show "filter P [a..<y] = xs" "filter P [y + 1..<b] = ys"
    using append_Cons_eq_iff [of y "filter P [a..<y]" "filter P [y + 1..<b]" xs ys] by auto
  show "a \<le> y" "y < b" using y by simp_all
qed

text \<open>From the position \<^verbatim>\<open>a\<close> on, every record the request wants is one the index lists.\<close>

definition all_listed :: "(nat \<Rightarrow> bool) \<Rightarrow> string \<Rightarrow> read_request \<Rightarrow> nat \<Rightarrow> Disk \<Rightarrow> bool" where
  "all_listed P stream q a d \<longleftrightarrow> (\<forall>off e. a \<le> off \<and> dRecs d stream off = Some e \<and> qFilter q (storedRecord off e) \<longrightarrow> P off)"

lemma kept_filter:
  assumes "\<And>off e. off \<in> set offs \<Longrightarrow> dRecs d stream off = Some e \<Longrightarrow> qFilter q (storedRecord off e) \<Longrightarrow> P off"
  shows "kept q (records_at stream (filter P offs) d) = kept q (records_at stream offs d)"
  using assms by (induction offs) (auto split: option.split)

lemma kept_listed:
  assumes "all_listed P stream q a0 d" "a0 \<le> a"
  shows "kept q (records_at stream (filter P [a..<b]) d) = matching stream q d a b"
proof -
  have "kept q (records_at stream (filter P [a..<b]) d) = kept q (records_at stream [a..<b] d)"
    using assms by (intro kept_filter) (auto simp: all_listed_def)
  then show ?thesis by (simp add: matching_def scanStream_def records_at_def)
qed

lemma visited_matching:
  assumes "all_listed P stream q a0 d" "a0 \<le> rdNext st" "filter P [rdNext st..<head] = xs @ zs" "visited q stream d st xs st'" "xs \<noteq> []"
  shows "rdNext st < rdNext st'" "rdNext st' \<le> head" "rdOut st' = rdOut st @ matching stream q d (rdNext st) (rdNext st')"
proof -
  obtain ws y where xs: "xs = ws @ [y]" using assms(5) by (meson rev_exhaust)
  have nxt: "rdNext st' = y + 1" "rdOut st' = rdOut st @ kept q (records_at stream xs d)" using assms(4) by (simp_all add: visited_def xs)
  have F: "filter P [rdNext st..<head] = ws @ y # zs" using assms(3) by (simp add: xs)
  note sp = filter_upt_split [OF F]
  have "y \<in> set (filter P [rdNext st..<head])" unfolding F by simp
  then have "filter P [rdNext st..<y + 1] = xs" using sp(3) by (simp add: xs)
  then show "rdOut st' = rdOut st @ matching stream q d (rdNext st) (rdNext st')"
    using kept_listed [OF assms(1,2), of "y + 1"] nxt by simp
  show "rdNext st < rdNext st'" "rdNext st' \<le> head" using sp(1,2) nxt by simp_all
qed

lemma sig_rounds_ok:
  assumes index: "index_functional stream d" "distinct sigs" and sound: "head_sound q"
    and filed: "all_listed (under stream sigs d) stream q a0 d" and floor: "\<forall>a. filed stream sigs d (max a lwm) head = filed stream sigs d a head"
  shows "sig_rounds ctx stream q d sigs lwm head want st = Inr (out, next) \<Longrightarrow> a0 \<le> rdNext st \<Longrightarrow> rdNext st \<le> head \<Longrightarrow>
    rdNext st \<le> next \<and> next \<le> head \<and> out = rdOut st @ matching stream q d (rdNext st) next \<and>
    (\<not> spent q st \<and> rdOut st = [] \<and> rdNext st < head \<longrightarrow> rdNext st < next)"
proof (induction "head - rdNext st" arbitrary: want st rule: less_induct)
  case less
  show ?case
  proof (cases "spent q st")
    case True
    then have "out = rdOut st" "next = rdNext st"
      using less.prems(1) by (simp_all add: sig_rounds.simps [of ctx stream q d sigs lwm head want st] page_of_def)
    then show ?thesis using True less.prems(3) by (simp add: matching_def scanStream_def)
  next
    case False
    define w where "w = min (max want (qLimit q - length (rdOut st))) (sig_budget q st)"
    define F where "F = filed stream sigs d (rdNext st) head"
    have "0 < w" using budget_pos [OF False] by (simp add: w_def)
    note round = less.prems(1) [unfolded sig_rounds.simps [of ctx stream q d sigs lwm head want st], folded w_def]
    obtain offs where offs: "smallestSigOffsets ctx (rdScanned st) stream sigs (max (rdNext st) lwm) head (w + 1) d = Some offs"
      using round False by (auto simp: Let_def w_def split: option.split_asm)
    have offs': "take w offs = take w F" "length offs > w \<longleftrightarrow> length F > w"
      using smallest_filed [OF index _ offs] floor by (auto simp: F_def min_def)
    show ?thesis
    proof (cases "visit_sigs ctx stream q d (length F > w) (take w F) st")
      case (Inl r)
      then have "visit_sigs ctx stream q d (length F > w) (take w F) st = Inl (Inr (out, next))"
        using round False offs offs' by (simp add: Let_def)
      from visit_sigs_answer [OF sound this] obtain xs ys st'
        where v: "take w F = xs @ next # ys" "visited q stream d st xs st'" "out = rdOut st'" "out \<noteq> []" by blast
      have F: "F = xs @ next # (ys @ drop w F)" using v(1) append_take_drop_id [of w F] by simp
      note sp = filter_upt_split [OF F [unfolded F_def filed_def]]
      have "kept q (records_at stream xs d) = matching stream q d (rdNext st) next"
        using kept_listed [OF filed less.prems(2), of "next"] sp(3) by (simp add: filed_def)
      moreover have "rdNext st < next" if "rdOut st = []"
        using that v(2-4) sp(1,3) by (cases "rdNext st = next") (auto simp: visited_def)
      ultimately show ?thesis using v(2,3) sp(1,2) by (auto simp: visited_def)
    next
      case (Inr p)
      obtain st1 left where p: "p = (st1, left)" by (cases p)
      note visit = Inr [unfolded p]
      from visit_sigs_page [OF sound visit] obtain xs ys where v: "take w F = xs @ ys" "visited q stream d st xs st1" "left \<longleftrightarrow> length F > w \<or> ys \<noteq> []" by blast
      have F: "F = xs @ (ys @ drop w F)" using v(1) append_take_drop_id [of w F] by simp
      show ?thesis
      proof (cases left)
        case True
        have ne: "take w F \<noteq> []" using True v(1,3) \<open>0 < w\<close> by auto
        have "\<forall>off \<in> set F. rdNext st \<le> off" by (simp add: F_def filed_def)
        then have "\<forall>off \<in> set (take w F). rdNext st \<le> off" by (meson in_set_takeD)
        from visit_sigs_next [OF visit ne this] have "xs \<noteq> []" using v(2) by (cases "xs = []") (simp_all add: visited_def)
        note st1 = visited_matching [OF filed less.prems(2) F [unfolded F_def filed_def] v(2) this]
        have "sig_rounds ctx stream q d sigs lwm head (w * 4) st1 = Inr (out, next)"
          using round \<open>\<not> spent q st\<close> offs offs' visit True by (simp add: Let_def)
        then have "rdNext st1 \<le> next \<and> next \<le> head \<and> out = rdOut st1 @ matching stream q d (rdNext st1) next"
          using less.hyps [of st1 "w * 4"] st1(1,2) less.prems(2) by simp
        then show ?thesis using st1 matching_append [of "rdNext st" "rdNext st1" "next" stream q d] by simp
      next
        case False
        then have "F = xs" using F v(3) by simp
        moreover have "out = rdOut st1" "next = head" using round \<open>\<not> spent q st\<close> offs offs' visit False by (simp_all add: Let_def)
        ultimately show ?thesis
          using v(2) kept_listed [OF filed less.prems(2), of head] less.prems(3) by (simp add: visited_def F_def filed_def)
      qed
    qed
  qed
qed

lemma sig_rounds_never: "\<exists>p. sig_rounds never stream q d sigs lwm head want st = Inr p"
proof (induction never stream q d sigs lwm head want st rule: sig_rounds.induct)
  case (1 stream q d sigs lwm head want st)
  define w where "w = min (max want (qLimit q - length (rdOut st))) (sig_budget q st)"
  obtain offs where offs: "smallestSigOffsets never (rdScanned st) stream sigs (max (rdNext st) lwm) head (w + 1) d = Some offs"
    using smallest_never by blast
  note IH = 1 [OF _ w_def offs]
  note eq = sig_rounds.simps [of never stream q d sigs lwm head want st, folded w_def, unfolded Let_def, unfolded offs option.case]
  show ?case
  proof (cases "spent q st")
    case True
    then show ?thesis unfolding eq by simp
  next
    case False
    show ?thesis
    proof (cases "visit_sigs never stream q d (w < length offs) (take w offs) st")
      case (Inl r)
      then obtain p where "r = Inr p" using visit_sigs_never [of stream q d "w < length offs" "take w offs" st] by (cases r) auto
      then show ?thesis using Inl False unfolding eq by simp
    next
      case (Inr p)
      then show ?thesis using IH [OF False Inr] False unfolding eq by (cases p) simp
    qed
  qed
qed

section \<open>Following pages\<close>

text \<open>A client that asks for the next page at the position the last one returned.\<close>

primrec follow :: "(nat \<Rightarrow> 'a list \<times> nat) \<Rightarrow> nat \<Rightarrow> nat \<Rightarrow> 'a list \<times> nat" where
  "follow rd 0 a = ([], a)"
| "follow rd (Suc n) a = (let (out, b) = rd a; (rest, c) = follow rd n b in (out @ rest, c))"

text \<open>What a paged reader promises: a page is what lies between its two positions, and a page that does not move
  on has nothing left before it.\<close>

locale paged_read =
  fixes ok :: "'c \<Rightarrow> bool"
    and rd :: "'c \<Rightarrow> nat \<Rightarrow> 'a list \<times> nat"
    and want :: "'c \<Rightarrow> nat \<Rightarrow> nat \<Rightarrow> 'a list"
    and goal :: "'c \<Rightarrow> nat"
  assumes page: "ok c \<Longrightarrow> a \<le> goal c \<Longrightarrow> rd c a = (out, b) \<Longrightarrow> a \<le> b \<and> b \<le> goal c \<and> out = want c a b"
    and advance: "ok c \<Longrightarrow> a \<le> goal c \<Longrightarrow> snd (rd c a) = a \<Longrightarrow> want c a (goal c) = []"
    and want_append: "a \<le> b \<Longrightarrow> b \<le> e \<Longrightarrow> want c a e = want c a b @ want c b e"
begin

lemma follow_page: "ok c \<Longrightarrow> a \<le> goal c \<Longrightarrow> follow (rd c) n a = (out, b) \<Longrightarrow> a \<le> b \<and> b \<le> goal c \<and> out = want c a b"
proof (induction n arbitrary: a out b)
  case 0
  then show ?case using want_append [of a a a c] by simp
next
  case (Suc n)
  obtain x m where x: "rd c a = (x, m)" by fastforce
  obtain y e where y: "follow (rd c) n m = (y, e)" by fastforce
  have m: "a \<le> m" "m \<le> goal c" "x = want c a m" using page [OF Suc.prems(1,2) x] by simp_all
  then have "m \<le> e" "e \<le> goal c" "y = want c m e" using Suc.IH [OF Suc.prems(1) m(2) y] by simp_all
  moreover have "out = x @ y" "b = e" using Suc.prems(3) x y by simp_all
  ultimately show ?case using m want_append [of a m e c] by simp
qed

lemma follow_complete: "ok c \<Longrightarrow> a \<le> goal c \<Longrightarrow> goal c - a \<le> n \<Longrightarrow> fst (follow (rd c) n a) = want c a (goal c)"
proof (induction n arbitrary: a)
  case 0
  then show ?case using want_append [of a a a c] by simp
next
  case (Suc n)
  obtain x m where x: "rd c a = (x, m)" by fastforce
  have m: "a \<le> m" "m \<le> goal c" "x = want c a m" using page [OF Suc.prems(1,2) x] by simp_all
  show ?case
  proof (cases "m = a")
    case True
    obtain out b where f: "follow (rd c) (Suc n) a = (out, b)" by fastforce
    have "want c a (goal c) = []" using advance [OF Suc.prems(1,2)] x True by simp
    moreover have "a \<le> b" "b \<le> goal c" "out = want c a b" using follow_page [OF Suc.prems(1,2) f] by simp_all
    ultimately show ?thesis using want_append [of a b "goal c" c] unfolding f by simp
  next
    case False
    then have "fst (follow (rd c) n m) = want c m (goal c)" using Suc.IH [of m] Suc.prems m by simp
    then show ?thesis using m x want_append [of a m "goal c" c] by (simp add: case_prod_beta)
  qed
qed

end

text \<open>A page of a request nobody cancels.\<close>

definition the_page :: "nat \<Rightarrow> read_error + read_page \<Rightarrow> read_page" where
  "the_page a r = (case r of Inl _ \<Rightarrow> ([], a) | Inr p \<Rightarrow> p)"

subsection \<open>Pages of a scan\<close>

definition scan_ok :: "string \<times> read_request \<times> Store \<Rightarrow> bool" where
  "scan_ok c = (case c of (stream, q, s) \<Rightarrow> head_sound q \<and> qLimit q \<noteq> 0)"

interpretation scan: paged_read scan_ok
  "\<lambda>(stream, q, s) a. the_page a (ReadRecordsBounded never stream a q s)"
  "\<lambda>(stream, q, s) a b. matching stream q (sDisk s) a b" "\<lambda>(stream, q, s). sNext s stream"
proof (unfold_locales, goal_cases)
  case (1 c a out b)
  obtain stream q s where c: "c = (stream, q, s)" by (cases c)
  obtain st stopped where r: "readRange never stream a (sNext s stream) q (sDisk s) = Inr (st, stopped)"
    using read_rows_never unfolding readRange_def by fastforce
  have "out = rdOut st" "b = rdNext st" using 1(3) by (simp_all add: c the_page_def ReadRecordsBounded_def r page_of_def)
  then show ?case using readRange_ok(1-3) [OF _ _ r] 1(1,2) by (simp add: c scan_ok_def)
next
  case (2 c a)
  obtain stream q s where c: "c = (stream, q, s)" by (cases c)
  obtain st stopped where r: "readRange never stream a (sNext s stream) q (sDisk s) = Inr (st, stopped)"
    using read_rows_never unfolding readRange_def by fastforce
  have "rdNext st = a" using 2(3) by (simp add: c the_page_def ReadRecordsBounded_def r page_of_def)
  then show ?case using readRange_ok(5) [OF _ _ r] 2(1,2) by (simp add: c scan_ok_def)
next
  case (3 a b e c)
  obtain stream q s where c: "c = (stream, q, s)" by (cases c)
  show ?case unfolding c prod.case by (rule matching_append [OF 3])
qed

subsection \<open>Pages through the signal index\<close>

text \<open>The request of a reader of signals in a well-formed store: its filter keeps, of the records the index
  covers, only records stored with one of the signals.\<close>

definition signals_request :: "string \<times> string list \<times> read_request \<times> Store \<Rightarrow> bool" where
  "signals_request c = (case c of (stream, signals, q, s) \<Rightarrow>
     store_ok s \<and> stream \<in> set streams \<and> head_sound q \<and> qLimit q \<noteq> 0 \<and>
     (\<forall>off e. sSigFrom s stream \<le> off \<and> dRecs (sDisk s) stream off = Some e \<and> qFilter q (storedRecord off e) \<longrightarrow>
        xSignalID e \<in> set signals \<and> xSignalID e \<noteq> ''''))"

lemma filter_from: "filter (\<lambda>x. l \<le> x) [a..<b] = [max a l..<b]"
  by (induction b) auto

lemma distinct_remdups_sorted: "sorted xs \<Longrightarrow> distinct (remdups_adj xs)"
proof (induction xs rule: remdups_adj.induct)
  case (3 x y xs)
  then show ?case by (cases "x = y") auto
qed simp_all

lemma signals_index:
  assumes "signals_request (stream, signals, q, s)"
  shows "index_functional stream (sDisk s)" "all_listed (under stream (remdups_adj (sort signals)) (sDisk s)) stream q (sSigFrom s stream) (sDisk s)"
    "filed stream sigs (sDisk s) (max a (sLWM s stream)) b = filed stream sigs (sDisk s) a b"
proof -
  have sig: "signals_ok s" and rec: "records_ok s" using assms by (simp_all add: signals_request_def store_ok_def)
  have entry: "\<exists>e. dRecs (sDisk s) stream off = Some e \<and> xSignalID e = sig" if "(stream, sig, off) \<in> dSig (sDisk s)" for sig off
    using sig that unfolding signals_ok_def by blast
  show "index_functional stream (sDisk s)" unfolding index_functional_def
  proof (intro allI impI)
    fix sig sig' off assume two: "(stream, sig, off) \<in> dSig (sDisk s) \<and> (stream, sig', off) \<in> dSig (sDisk s)"
    show "sig = sig'" using entry [of sig off] entry [of sig' off] two by auto
  qed
  show "all_listed (under stream (remdups_adj (sort signals)) (sDisk s)) stream q (sSigFrom s stream) (sDisk s)"
    unfolding all_listed_def under_def
  proof (intro allI impI)
    fix off e assume a: "sSigFrom s stream \<le> off \<and> dRecs (sDisk s) stream off = Some e \<and> qFilter q (storedRecord off e)"
    then have "xSignalID e \<in> set signals" "xSignalID e \<noteq> ''''" using assms by (auto simp: signals_request_def)
    moreover have "(stream, xSignalID e, off) \<in> dSig (sDisk s)" using sig a calculation(2) unfolding signals_ok_def by blast
    ultimately show "\<exists>sig\<in>set (remdups_adj (sort signals)). (stream, sig, off) \<in> dSig (sDisk s)" by auto
  qed
  have "sLWM s stream \<le> off" if "(stream, sig, off) \<in> dSig (sDisk s)" for sig off
    using entry [OF that] rec unfolding records_ok_def by blast
  then show "filed stream sigs (sDisk s) (max a (sLWM s stream)) b = filed stream sigs (sDisk s) a b"
    unfolding filed_def under_def filter_from [symmetric] filter_filter by (intro filter_cong refl) blast
qed

lemma ReadSignals_page:
  assumes ok: "signals_request (stream, signals, q, s)" and a: "a \<le> sNext s stream"
    and r: "ReadSignals never stream a signals q s = Inr (out, b)"
  shows "a \<le> b \<and> b \<le> sNext s stream \<and> out = matching stream q (sDisk s) a b \<and>
    (b = a \<longrightarrow> matching stream q (sDisk s) a (sNext s stream) = [])"
proof -
  let ?d = "sDisk s" and ?head = "sNext s stream" and ?covered = "sSigFrom s stream" and ?sigs = "remdups_adj (sort signals)"
  have q: "head_sound q" "qLimit q \<noteq> 0" using ok by (simp_all add: signals_request_def)
  note rounds = sig_rounds_ok [OF signals_index(1) [OF ok] _ q(1) signals_index(2) [OF ok], of "sLWM s stream" ?head never]
  have none: "matching stream q ?d x x = []" for x by (simp add: matching_def scanStream_def)
  have dist: "distinct ?sigs" by (simp add: distinct_remdups_sorted)
  have through: "rdNext st \<le> b \<and> b \<le> ?head \<and> out = rdOut st @ matching stream q ?d (rdNext st) b \<and>
      (rdOut st = [] \<and> rdScanned st = 0 \<and> rdNext st < ?head \<longrightarrow> rdNext st < b)"
    if "(if rdNext st \<ge> ?head then Inr (page_of st) else sig_rounds never stream q ?d ?sigs (sLWM s stream) ?head w st) = Inr (out, b)"
      "?covered \<le> rdNext st" "rdNext st \<le> ?head" for st w
  proof (cases "rdNext st \<ge> ?head")
    case True
    then show ?thesis using that none by (simp add: page_of_def)
  next
    case False
    have "\<not> spent q st" if "rdOut st = []" "rdScanned st = 0" using that q(2) by (auto simp: spent_def)
    then show ?thesis
      using rounds [of w st out b] dist signals_index(3) [OF ok] that(1,2) False by auto
  qed
  show ?thesis
  proof (cases "a < ?covered")
    case False
    let ?st = "read_start a q"
    have st: "rdNext ?st = a" "rdOut ?st = []" "rdScanned ?st = 0" by (simp_all add: read_start_def)
    have "(if rdNext ?st \<ge> ?head then Inr (page_of ?st)
        else sig_rounds never stream q ?d ?sigs (sLWM s stream) ?head (qLimit q - length (rdOut ?st)) ?st) = Inr (out, b)"
      using r False unfolding ReadSignals_def Let_def by simp
    from through [OF this] False a have "a \<le> b \<and> b \<le> ?head \<and> out = matching stream q ?d a b \<and> (a < ?head \<longrightarrow> a < b)"
      unfolding st by simp
    then show ?thesis using none a by (cases "a = ?head") simp_all
  next
    case True
    obtain st stopped where st: "readRange never stream a (min ?covered ?head) q ?d = Inr (st, stopped)"
      using read_rows_never unfolding readRange_def by fastforce
    have le: "a \<le> min ?covered ?head" using True a by simp
    note range = readRange_ok [OF q(1) le st]
    show ?thesis
    proof (cases "stopped \<or> ?covered \<ge> ?head")
      case stop: True
      then have "out = rdOut st" "b = rdNext st" using r True st by (simp_all add: ReadSignals_def Let_def page_of_def)
      moreover have "?head \<le> ?covered" if "rdNext st = a" using stop that range(6) q(2) by auto
      ultimately show ?thesis using range(1-3,5) q(2) by (auto simp: min_absorb2)
    next
      case go: False
      let ?st = "st\<lparr>rdNext := ?covered\<rparr>"
      have "(if rdNext ?st \<ge> ?head then Inr (page_of ?st)
          else sig_rounds never stream q ?d ?sigs (sLWM s stream) ?head (qLimit q - length (rdOut ?st)) ?st) = Inr (out, b)"
        using r True st go unfolding ReadSignals_def Let_def by simp
      from through [OF this] go have "?covered \<le> b \<and> b \<le> ?head \<and> out = rdOut st @ matching stream q ?d ?covered b" by simp
      moreover have "rdOut st = matching stream q ?d a ?covered"
        using range(1-4) go matching_append [of a "rdNext st" ?covered stream q ?d] by simp
      ultimately show ?thesis using True matching_append [of a ?covered b stream q ?d] by simp
    qed
  qed
qed

lemma ReadSignals_never: "\<exists>p. ReadSignals never stream a signals q s = Inr p"
proof -
  obtain st stopped where "readRange never stream a (min (sSigFrom s stream) (sNext s stream)) q (sDisk s) = Inr (st, stopped)"
    using read_rows_never unfolding readRange_def by fastforce
  moreover have "\<exists>p. (if X then Inr A else sig_rounds never stream q (sDisk s) sigs l h w st) = Inr p" for X A sigs l h w st
    using sig_rounds_never by (cases X) simp_all
  ultimately show ?thesis unfolding ReadSignals_def Let_def
    by (cases "a < sSigFrom s stream"; cases "stopped \<or> sNext s stream \<le> sSigFrom s stream") (simp_all only: if_True if_False sum.case prod.case, blast+)
qed

interpretation sig: paged_read signals_request
  "\<lambda>(stream, signals, q, s) a. the_page a (ReadSignals never stream a signals q s)"
  "\<lambda>(stream, signals, q, s) a b. matching stream q (sDisk s) a b" "\<lambda>(stream, signals, q, s). sNext s stream"
proof (unfold_locales, goal_cases)
  case (1 c a out b)
  obtain stream signals q s where c: "c = (stream, signals, q, s)" by (cases c)
  obtain p where p: "ReadSignals never stream a signals q s = Inr p" using ReadSignals_never by blast
  have "ReadSignals never stream a signals q s = Inr (out, b)" using 1(3) p by (simp add: c the_page_def)
  then show ?case using ReadSignals_page [of stream signals q s a out b] 1(1,2) by (simp add: c)
next
  case (2 c a)
  obtain stream signals q s where c: "c = (stream, signals, q, s)" by (cases c)
  obtain out b where p: "ReadSignals never stream a signals q s = Inr (out, b)" using ReadSignals_never by fastforce
  have "b = a" using 2(3) p by (simp add: c the_page_def)
  then show ?case using ReadSignals_page [of stream signals q s a out b] 2(1,2) p by (simp add: c)
next
  case (3 a b e c)
  obtain stream signals q s where c: "c = (stream, signals, q, s)" by (cases c)
  show ?case unfolding c prod.case by (rule matching_append [OF 3])
qed

subsection \<open>Pages through the target index\<close>

definition target_request :: "string \<times> string \<times> nat \<times> read_request \<times> Store \<Rightarrow> bool" where
  "target_request c = (case c of (stream, target, upTo, q, s) \<Rightarrow>
     store_ok s \<and> stream \<in> set streams \<and> target \<noteq> '''' \<and> qLimit q \<noteq> 0 \<and>
     (\<forall>off e. qFilter q (storedRecord off e) \<longrightarrow> recordTarget (xTopic e) = target))"

lemma visit_targets_page:
  assumes "visit_targets ctx stream q upTo d offs st = Inr (out, b)"
  shows "\<exists>xs ys st'. offs = xs @ ys \<and> visited q stream d st xs st' \<and> out = rdOut st' \<and>
    (b = rdNext st' \<or> ys = [] \<and> b = upTo) \<and> (\<not> spent q st \<and> xs = [] \<longrightarrow> b = upTo)"
  using assms
proof (induction offs arbitrary: st)
  case Nil
  then show ?case by (intro exI [of _ "[]"] exI [of _ st]) (auto simp: visited_def page_of_def spent_def split: if_split_asm)
next
  case (Cons off offs)
  show ?case
  proof (cases "spent q st")
    case True
    then show ?thesis using Cons.prems by (intro exI [of _ "[]"] exI [of _ "off # offs"] exI [of _ st]) (auto simp: visited_def page_of_def)
  next
    case False
    let ?st1 = "st\<lparr>rdScanned := rdScanned st + 1, rdNext := off + 1\<rparr>"
    define st2 where "st2 = (case dRecs d stream off of None \<Rightarrow> ?st1
      | Some e \<Rightarrow> if qFilter q (storedRecord off e) then ?st1\<lparr>rdOut := rdOut st @ [storedRecord off e]\<rparr> else ?st1)"
    have st2: "rdOut st2 = rdOut st @ kept q (records_at stream [off] d)" "rdNext st2 = off + 1"
      by (simp_all add: st2_def split: option.split)
    have "visit_targets ctx stream q upTo d offs st2 = Inr (out, b)"
      using Cons.prems False by (simp add: st2_def Let_def split: if_split_asm option.split_asm)
    from Cons.IH [OF this] obtain xs ys st' where "offs = xs @ ys" "visited q stream d st2 xs st'" "out = rdOut st'"
      "b = rdNext st' \<or> ys = [] \<and> b = upTo" by blast
    then show ?thesis using visited_step [OF _ st2]
      by (intro exI [of _ "off # xs"] exI [of _ ys] exI [of _ st']) simp
  qed
qed

lemma visit_targets_never: "\<exists>p. visit_targets never stream q upTo d offs st = Inr p"
  by (induction offs arbitrary: st) (simp_all add: Let_def cancelled_def never_def del: split_paired_Ex split: option.split)

definition target_limit :: "string \<Rightarrow> nat \<Rightarrow> Store \<Rightarrow> nat" where
  "target_limit stream upTo s = min upTo (sNext s stream)"

lemma target_index:
  assumes "target_request (stream, target, upTo, q, s)"
  shows "all_listed (\<lambda>off. (stream, target, off) \<in> dTarget (sDisk s)) stream q (sTargetFrom s stream) (sDisk s)"
    "head_sound (for_target target q)" "qLimit q \<noteq> 0"
proof -
  have wants: "recordTarget (xTopic e) = target" if "qFilter q (storedRecord off e)" for off e
    using assms that by (simp add: target_request_def)
  have t: "targets_ok s" "target \<noteq> ''''" "qLimit q \<noteq> 0" using assms by (simp_all add: target_request_def store_ok_def)
  show "all_listed (\<lambda>off. (stream, target, off) \<in> dTarget (sDisk s)) stream q (sTargetFrom s stream) (sDisk s)"
    unfolding all_listed_def
  proof (intro allI impI)
    fix off e assume a: "sTargetFrom s stream \<le> off \<and> dRecs (sDisk s) stream off = Some e \<and> qFilter q (storedRecord off e)"
    then have "recordTarget (xTopic e) = target" using wants by blast
    then show "(stream, target, off) \<in> dTarget (sDisk s)" using a t(1,2) unfolding targets_ok_def by metis
  qed
  show "head_sound (for_target target q)" using wants by (simp add: head_sound_def for_target_def)
  show "qLimit q \<noteq> 0" by fact
qed

text \<open>What is left to visit from a position the index covers.\<close>

lemma target_through:
  assumes all: "all_listed (\<lambda>off. (stream, target, off) \<in> dTarget d) stream q a0 d" "a0 \<le> rdNext st" "rdNext st < upTo"
    and r: "visit_targets never stream q upTo d (target_entries stream target (rdNext st) upTo d) st = Inr (out, b)"
  shows "rdNext st \<le> b" "b \<le> upTo" "out = rdOut st @ matching stream q d (rdNext st) b" "\<not> spent q st \<Longrightarrow> rdNext st < b"
proof -
  obtain xs ys st' where v: "target_entries stream target (rdNext st) upTo d = xs @ ys" "visited q stream d st xs st'" "out = rdOut st'"
      "b = rdNext st' \<or> ys = [] \<and> b = upTo" "\<not> spent q st \<and> xs = [] \<longrightarrow> b = upTo"
    using visit_targets_page [OF r] by blast
  note F = v(1) [unfolded target_entries_def]
  have none: "matching stream q d x x = []" for x by (simp add: matching_def scanStream_def)
  have "rdNext st \<le> b \<and> b \<le> upTo \<and> out = rdOut st @ matching stream q d (rdNext st) b \<and> (\<not> spent q st \<longrightarrow> rdNext st < b)"
  proof (cases "ys = [] \<and> b = upTo")
    case True
    then show ?thesis using kept_listed [OF all(1,2), of upTo] F v(2,3) all(3) by (simp add: visited_def)
  next
    case False
    then have b: "b = rdNext st'" using v(4) by blast
    show ?thesis
    proof (cases "xs = []")
      case True
      then show ?thesis using v(2,3,5) b none all(3) by (auto simp: visited_def)
    next
      case xs: False
      then show ?thesis using visited_matching [OF all(1,2) F v(2) xs] b v(3) by simp
    qed
  qed
  then show "rdNext st \<le> b" "b \<le> upTo" "out = rdOut st @ matching stream q d (rdNext st) b" "\<not> spent q st \<Longrightarrow> rdNext st < b" by simp_all
qed

lemma matching_for_target: "matching stream (for_target t q) d = matching stream q d" "qLimit (for_target t q) = qLimit q"
  "all_listed P stream (for_target t q) a d = all_listed P stream q a d"
  by (simp_all add: fun_eq_iff matching_def kept_def for_target_def all_listed_def)

lemma below_low_water:
  assumes "records_ok s"
  shows "a \<le> sLWM s stream \<Longrightarrow> b \<le> sLWM s stream \<Longrightarrow> matching stream q (sDisk s) a b = []"
    "matching stream q (sDisk s) (max a (sLWM s stream)) b = matching stream q (sDisk s) a b"
proof -
  have none: "dRecs (sDisk s) stream off = None" if "off < sLWM s stream" for off
    using assms that unfolding records_ok_def by (metis leD not_Some_eq)
  have "scanStream stream (max a l) b (sDisk s) = scanStream stream a b (sDisk s)" if "l \<le> sLWM s stream" for l
  proof -
    have "records_at stream (filter (\<lambda>off. l \<le> off) offs) (sDisk s) = records_at stream offs (sDisk s)" for offs
      using none that by (induction offs) (auto split: option.split)
    then show ?thesis by (simp add: scanStream_def records_at_def flip: filter_from)
  qed
  then show "matching stream q (sDisk s) (max a (sLWM s stream)) b = matching stream q (sDisk s) a b" by (simp add: matching_def)
  then show "a \<le> sLWM s stream \<Longrightarrow> b \<le> sLWM s stream \<Longrightarrow> matching stream q (sDisk s) a b = []"
    by (simp add: matching_def scanStream_def max_absorb2)
qed

lemma ReadTarget_page:
  assumes ok: "target_request (stream, target, upTo0, q, s)" and low: "a = max a0 (sLWM s stream)"
    and limit: "upTo = min upTo0 (sNext s stream)" "a < upTo"
    and r: "ReadTarget never stream target a0 upTo0 q s = Inr (out, b)"
  shows "a \<le> b \<and> b \<le> upTo \<and> out = matching stream q (sDisk s) a b \<and> (b = a \<longrightarrow> matching stream q (sDisk s) a upTo = [])"
proof -
  let ?d = "sDisk s" and ?covered = "sTargetFrom s stream" and ?q = "for_target target q"
  note idx = target_index [OF ok]
  note through = target_through [OF idx(1) [folded matching_for_target(3) [of _ stream target q]]]
  have start: "rdNext (read_start a ?q) = a" "rdOut (read_start a ?q) = []" "\<not> spent ?q (read_start a ?q)"
    using idx(3) by (auto simp: read_start_def spent_def matching_for_target(2))
  show ?thesis
  proof (cases "a < ?covered")
    case False
    then have "visit_targets never stream ?q upTo ?d (target_entries stream target (rdNext (read_start a ?q)) upTo ?d) (read_start a ?q) = Inr (out, b)"
      using r limit(2) unfolding ReadTarget_def Let_def low [symmetric] limit(1) [symmetric] by simp
    from through [OF _ _ this] show ?thesis using False limit(2) start by (simp add: matching_for_target)
  next
    case True
    obtain st stopped where st: "readRange never stream a (min ?covered upTo) ?q ?d = Inr (st, stopped)"
      using read_rows_never unfolding readRange_def by fastforce
    have le: "a \<le> min ?covered upTo" using True limit(2) by simp
    note range = readRange_ok [OF idx(2) le st, unfolded matching_for_target]
    show ?thesis
    proof (cases "stopped \<or> ?covered \<ge> upTo")
      case stop: True
      then have "out = rdOut st" "b = rdNext st"
        using r True st limit(2) unfolding ReadTarget_def Let_def low [symmetric] limit(1) [symmetric] by (simp_all add: page_of_def)
      moreover have "upTo \<le> ?covered" if "rdNext st = a" using stop that range(6) idx(3) by auto
      ultimately show ?thesis using range(1-3,5) idx(3) by (auto simp: min_absorb2)
    next
      case go: False
      let ?st = "st\<lparr>rdNext := ?covered\<rparr>"
      have "visit_targets never stream ?q upTo ?d (target_entries stream target (rdNext ?st) upTo ?d) ?st = Inr (out, b)"
        using r True st go limit(2) unfolding ReadTarget_def Let_def low [symmetric] limit(1) [symmetric] by simp
      from through [OF _ _ this] go have "?covered \<le> b" "b \<le> upTo" "out = rdOut st @ matching stream q ?d ?covered b"
        by (simp_all add: matching_for_target)
      moreover have "rdOut st = matching stream q ?d a ?covered"
        using range(1-4) go matching_append [of a "rdNext st" ?covered stream q ?d] by simp
      ultimately show ?thesis using True matching_append [of a ?covered b stream q ?d] by simp
    qed
  qed
qed

lemma ReadTarget_never: "\<exists>p. ReadTarget never stream target a upTo q s = Inr p"
proof -
  obtain st stopped where "readRange never stream (max a (sLWM s stream)) (min (sTargetFrom s stream) (min upTo (sNext s stream)))
      (for_target target q) (sDisk s) = Inr (st, stopped)"
    using read_rows_never unfolding readRange_def by fastforce
  moreover have "\<exists>p. (if X then Inr A else visit_targets never stream (for_target target q) u (sDisk s) offs st) = Inr p" for X A u offs st
    using visit_targets_never by (cases X) simp_all
  moreover have "\<exists>p. visit_targets never stream (for_target target q) u (sDisk s) offs st = Inr p" for u offs st
    by (rule visit_targets_never)
  ultimately show ?thesis unfolding ReadTarget_def Let_def
    by (cases "max a (sLWM s stream) \<ge> min upTo (sNext s stream)"; cases "max a (sLWM s stream) < sTargetFrom s stream")
      (simp_all only: if_True if_False sum.case prod.case, blast+)
qed

lemma ReadTarget_step:
  assumes ok: "target_request (stream, target, upTo0, q, s)" and upTo: "upTo = min upTo0 (sNext s stream)"
    and a: "a \<le> max (sLWM s stream) upTo" and r: "ReadTarget never stream target a upTo0 q s = Inr (out, b)"
  shows "a \<le> b \<and> b \<le> max (sLWM s stream) upTo \<and> out = matching stream q (sDisk s) a (min b upTo) \<and>
    (b = a \<longrightarrow> matching stream q (sDisk s) a upTo = [])"
proof (cases "max a (sLWM s stream) < upTo")
  case True
  have rec: "records_ok s" using ok by (simp add: target_request_def store_ok_def)
  show ?thesis
    using ReadTarget_page [OF ok refl upTo True r] below_low_water(2) [OF rec, of stream q a] True by (auto simp: min_absorb1)
next
  case False
  have rec: "records_ok s" using ok by (simp add: target_request_def store_ok_def)
  have "out = []" "b = max a (sLWM s stream)"
    using r False unfolding ReadTarget_def Let_def upTo [symmetric] by simp_all
  moreover have "matching stream q (sDisk s) a upTo = []"
  proof (cases "a < upTo")
    case True
    then show ?thesis using False below_low_water(1) [OF rec, of a stream upTo q] by simp
  next
    case False
    then show ?thesis by (simp add: matching_def scanStream_def)
  qed
  ultimately show ?thesis using a False by (auto simp: min_absorb2)
qed

interpretation tgt: paged_read target_request
  "\<lambda>(stream, target, upTo, q, s) a. the_page a (ReadTarget never stream target a upTo q s)"
  "\<lambda>(stream, target, upTo, q, s) a b. matching stream q (sDisk s) a (min b (min upTo (sNext s stream)))"
  "\<lambda>(stream, target, upTo, q, s). max (sLWM s stream) (min upTo (sNext s stream))"
proof (unfold_locales, goal_cases)
  case (1 c a out b)
  obtain stream target upTo q s where c: "c = (stream, target, upTo, q, s)" by (cases c)
  obtain p where p: "ReadTarget never stream target a upTo q s = Inr p" using ReadTarget_never by blast
  have "ReadTarget never stream target a upTo q s = Inr (out, b)" using 1(3) p by (simp add: c the_page_def)
  then show ?case using ReadTarget_step [OF _ refl, of stream target upTo q s a out b] 1(1,2) by (simp add: c)
next
  case (2 c a)
  obtain stream target upTo q s where c: "c = (stream, target, upTo, q, s)" by (cases c)
  obtain out b where p: "ReadTarget never stream target a upTo q s = Inr (out, b)" using ReadTarget_never by fastforce
  have "b = a" using 2(3) p by (simp add: c the_page_def)
  then show ?case using ReadTarget_step [OF _ refl, of stream target upTo q s a out b] 2(1,2) p by (simp add: c min_absorb2)
next
  case (3 a b e c)
  obtain stream target upTo q s where c: "c = (stream, target, upTo, q, s)" by (cases c)
  define m where "m = min upTo (sNext s stream)"
  have none: "matching stream q (sDisk s) x y = []" if "y \<le> x" for x y using that by (simp add: matching_def scanStream_def)
  show ?case unfolding c prod.case m_def [symmetric]
    using 3 matching_append [of a b "min e m" stream q "sDisk s"] none [of m b] none [of m a] none [of b b]
    by (cases "b \<le> m"; cases "e \<le> m") (simp_all add: min_absorb1 min_absorb2)
qed

section \<open>What the readers promise\<close>

text \<open>C11: in any well-formed store, wherever in the stream its signal index begins, a client that asks for the
  records of some signals and follows the positions of the pages gets, after finitely many pages, every record its
  filter keeps, once and in offset order, whatever the limits on records (not zero), scanned entries and bytes of a
  page. The filter keeps, of the records the index covers, only records of the signals, and the head filter rejects
  nothing the filter keeps. Every store of the store machine is well formed, and so is one that opened a disk from
  before the index existed, whose index begins at the head the stream had then.\<close>

theorem signal_pages_complete:
  assumes "store_ok s" "stream \<in> set streams" "head_sound q" "qLimit q \<noteq> 0" "a \<le> sNext s stream"
    and "\<forall>off e. sSigFrom s stream \<le> off \<and> dRecs (sDisk s) stream off = Some e \<and> qFilter q (storedRecord off e) \<longrightarrow>
      xSignalID e \<in> set signals \<and> xSignalID e \<noteq> ''''"
  shows "fst (follow (\<lambda>a. the_page a (ReadSignals never stream a signals q s)) (sNext s stream - a) a) =
    matching stream q (sDisk s) a (sNext s stream)"
proof -
  have "signals_request (stream, signals, q, s)" using assms by (simp add: signals_request_def)
  from sig.follow_complete [OF this, of a "sNext s stream - a"] show ?thesis using assms(5) by simp
qed

text \<open>C35: in any well-formed store, wherever in the stream its target index begins, a machine that asks for its own
  commands below a bound and follows the positions of the pages gets, after finitely many pages, every record its
  filter keeps that is stored below the bound, once and in order, however few records (not zero) a page may hold or
  visit. The filter itself keeps only commands of the target - below the index the head of a record does not always
  say whose command it is - and the bound lies between the low-water mark and the head.\<close>

theorem target_pages_complete:
  assumes "store_ok s" "stream \<in> set streams" "target \<noteq> ''''" "qLimit q \<noteq> 0"
    and "\<forall>off e. qFilter q (storedRecord off e) \<longrightarrow> recordTarget (xTopic e) = target"
    and "upTo \<le> sNext s stream" "sLWM s stream \<le> upTo" "a \<le> upTo"
  shows "fst (follow (\<lambda>a. the_page a (ReadTarget never stream target a upTo q s)) (upTo - a) a) = matching stream q (sDisk s) a upTo"
proof -
  have "target_request (stream, target, upTo, q, s)" using assms by (simp add: target_request_def)
  from tgt.follow_complete [OF this, of a "upTo - a"] show ?thesis using assms(6-8) by (simp add: max_absorb2)
qed

subsection \<open>Seeking\<close>

text \<open>A stream appended in time order.\<close>

definition time_ordered :: "(nat \<times> recEnc) list \<Rightarrow> bool" where
  "time_ordered rows \<longleftrightarrow> sorted (map (\<lambda>r. xTS (snd r)) rows)"

definition divides :: "(nat \<times> recEnc) list \<Rightarrow> int \<Rightarrow> nat \<Rightarrow> nat \<Rightarrow> bool" where
  "divides rows ts lo hi \<longleftrightarrow> lo \<le> hi \<and> (\<forall>r \<in> set rows. fst r < lo \<longrightarrow> xTS (snd r) < ts) \<and> (\<forall>r \<in> set rows. hi \<le> fst r \<longrightarrow> ts \<le> xTS (snd r))"

lemma headOf_ts: "hTS (headOf e) = xTS e"
proof -
  have "headOf e = head_of e" using peekRecord_ok by (auto simp: headOf_def split: option.split)
  then show ?thesis by (simp add: head_of_def)
qed

lemma divides_step:
  assumes rows: "sorted_wrt (<) (map fst rows)" "time_ordered rows" and d: "divides rows ts lo hi" and mid: "lo \<le> mid" "mid < hi"
  shows "dropWhile (\<lambda>r. fst r < mid) rows = [] \<Longrightarrow> divides rows ts lo mid"
    "dropWhile (\<lambda>r. fst r < mid) rows = (off, e) # rest \<Longrightarrow> ts \<le> xTS e \<Longrightarrow> divides rows ts lo mid"
    "dropWhile (\<lambda>r. fst r < mid) rows = (off, e) # rest \<Longrightarrow> xTS e < ts \<Longrightarrow> divides rows ts (off + 1) hi"
proof -
  show "divides rows ts lo mid" if "dropWhile (\<lambda>r. fst r < mid) rows = []"
    using that d mid by (auto simp: divides_def dropWhile_eq_Nil_conv)
  assume drop: "dropWhile (\<lambda>r. fst r < mid) rows = (off, e) # rest"
  define pre where "pre = takeWhile (\<lambda>r. fst r < mid) rows"
  have split: "rows = pre @ (off, e) # rest" using takeWhile_dropWhile_id [of "\<lambda>r. fst r < mid" rows] drop by (simp add: pre_def)
  have below: "\<forall>r \<in> set pre. fst r < mid" by (auto simp: pre_def dest: set_takeWhileD)
  have above: "mid \<le> off" using dropWhile_off [OF drop] .
  have ts: "\<forall>r \<in> set pre. xTS (snd r) \<le> xTS e" "\<forall>r \<in> set rest. xTS e \<le> xTS (snd r)"
    using rows(2) by (auto simp: time_ordered_def split sorted_append)
  have offs: "\<forall>r \<in> set rest. off < fst r" using rows(1) by (auto simp: split sorted_wrt_append)
  show "divides rows ts lo mid" if "ts \<le> xTS e"
    using that d mid ts below unfolding divides_def split by (force simp: split)
  show "divides rows ts (off + 1) hi" if "xTS e < ts"
    using that d mid ts below above offs unfolding divides_def split by (force simp: split)
qed

lemma seek_divides:
  "sorted_wrt (<) (map fst rows) \<Longrightarrow> time_ordered rows \<Longrightarrow> divides rows ts lo hi \<Longrightarrow>
   divides rows ts (seek rows ts lo hi) (seek rows ts lo hi) \<and> lo \<le> seek rows ts lo hi \<and> seek rows ts lo hi \<le> hi"
proof (induction rows ts lo hi rule: seek.induct)
  case (1 rows ts lo hi)
  note IH = 1(1-3) and rows = 1(4,5) and d = 1(6)
  define mid where "mid = lo + (hi - lo) div 2"
  show ?case
  proof (cases "lo < hi")
    case False
    then have "lo = hi" using d by (simp add: divides_def)
    moreover have "seek rows ts lo hi = lo" by (subst seek.simps) (simp add: False)
    ultimately show ?thesis using d by simp
  next
    case True
    then have mid: "lo \<le> mid" "mid < hi" by (simp_all add: mid_def)
    note step = divides_step [OF rows d mid]
    show ?thesis
    proof (cases "dropWhile (\<lambda>r. fst r < mid) rows")
      case Nil
      then have "seek rows ts lo hi = seek rows ts lo mid"
        unfolding seek.simps [of rows ts lo hi] Let_def mid_def [symmetric] using True by (simp only: if_True list.case)
      then show ?thesis using IH(1) [OF True mid_def Nil rows step(1) [OF Nil]] mid by simp
    next
      case (Cons r rest)
      obtain off e where r: "r = (off, e)" by (cases r)
      note drop = Cons [unfolded r]
      show ?thesis
      proof (cases "ts \<le> xTS e")
        case late: True
        then have "seek rows ts lo hi = seek rows ts lo mid"
          using True drop by (simp add: seek.simps [of rows ts lo hi] mid_def Let_def headOf_ts)
        then show ?thesis using IH(2) [OF True mid_def Cons r [symmetric] _ rows step(2) [OF drop late]] late mid by (simp add: headOf_ts)
      next
        case early: False
        then have "seek rows ts lo hi = seek rows ts (off + 1) hi"
          using True drop by (simp add: seek.simps [of rows ts lo hi] mid_def Let_def headOf_ts)
        then show ?thesis using IH(3) [OF True mid_def Cons r [symmetric] _ rows step(3) [OF drop]] early mid dropWhile_off [OF drop] by (simp add: headOf_ts)
      qed
    qed
  qed
qed

text \<open>C36: on a stream whose retained records are in time order, \<^verbatim>\<open>SeekTS\<close> splits the stream at the time asked for:
  every retained record before the offset it returns is older, every retained record from it on is not, and the offset lies
  between the low-water mark and the head, gaps of removed offsets included.\<close>

theorem seek_splits_at_time:
  assumes "reachable rt ss s" "stream \<in> set streams" "time_ordered (scanStream stream (sLWM s stream) (sNext s stream) (sDisk s))"
  shows "sLWM s stream \<le> SeekTS stream ts s \<and> SeekTS stream ts s \<le> sNext s stream \<and>
    (\<forall>off e. dRecs (sDisk s) stream off = Some e \<longrightarrow> (xTS e < ts \<longleftrightarrow> off < SeekTS stream ts s))"
proof -
  let ?rows = "scanStream stream (sLWM s stream) (sNext s stream) (sDisk s)"
  have "store_ok s" using reachable_ok [OF assms(1)] by (simp add: machine_ok_def)
  then have ok: "records_ok s" "1 \<le> sLWM s stream" "sLWM s stream \<le> sNext s stream"
    using assms(2) by (simp_all add: store_ok_def counters_ok_def)
  have rec: "sLWM s stream \<le> off \<and> off < sNext s stream" if "dRecs (sDisk s) stream off = Some e" for off e
    using ok(1) that unfolding records_ok_def by blast
  have "divides ?rows ts (sLWM s stream) (sNext s stream)"
    using ok(3) by (fastforce simp: divides_def scanned)
  then have d: "divides ?rows ts (SeekTS stream ts s) (SeekTS stream ts s)" "sLWM s stream \<le> SeekTS stream ts s" "SeekTS stream ts s \<le> sNext s stream"
    using seek_divides [OF scanStream_sorted assms(3)] ok(2,3) by (auto simp: SeekTS_def Let_def)
  have "xTS e < ts \<longleftrightarrow> off < SeekTS stream ts s" if "dRecs (sDisk s) stream off = Some e" for off e
  proof -
    have "(off, e) \<in> set ?rows" using rec [OF that] that by (simp add: scanned)
    then show ?thesis using d(1) unfolding divides_def by fastforce
  qed
  with d(2,3) show ?thesis by blast
qed

section \<open>A stream read page by page\<close>

definition demo_stream :: "string \<Rightarrow> Record list \<Rightarrow> Store" where
  "demo_stream stream recs = snd (appendLocked ''colca'' True stream recs (first_store ''0f''))"

lemma demo_stream_reachable: "reachable ''colca'' [first_store ''0f''] (demo_stream stream recs)"
  unfolding demo_stream_def
  by (rule reachable_step [OF reachable_step [OF reachable_start store_step.snapshot] store_step.append_locked])

lemma demo_stream_fields:
  assumes "stream \<in> set streams" "stream \<noteq> ''metrics''"
  shows "sNext (demo_stream stream recs) stream = 1 + length recs" "sLWM (demo_stream stream recs) stream = 1"
    "sSigFrom (demo_stream stream recs) stream = 1"
    "dRecs (sDisk (demo_stream stream recs)) stream off = (if 1 \<le> off \<and> off < 1 + length recs then Some (encode_record off (recs ! (off - 1))) else None)"
proof -
  have first: "sNext (first_store ''0f'') stream = 1" "sLWM (first_store ''0f'') stream = 1" "sSigFrom (first_store ''0f'') stream = 1"
    "sMaxRecordBytes (first_store ''0f'') = 0" "dRecs (sDisk (first_store ''0f'')) stream off = None"
    using assms(1) by (simp_all add: first_store_def new_store_eq empty_disk_def)
  have "checkAppend ''colca'' stream recs (first_store ''0f'') = (Inr None, first_store ''0f'')"
    using assms(2) by (simp add: checkAppend_def too_large_def first list_ex_iff)
  from appendLocked_cases [OF this, of True]
  have log: "demo_stream stream recs = appended stream recs None (first_store ''0f'')"
    unfolding demo_stream_def by (simp add: first)
  show "sNext (demo_stream stream recs) stream = 1 + length recs" "sLWM (demo_stream stream recs) stream = 1"
    "sSigFrom (demo_stream stream recs) stream = 1"
    "dRecs (sDisk (demo_stream stream recs)) stream off = (if 1 \<le> off \<and> off < 1 + length recs then Some (encode_record off (recs ! (off - 1))) else None)"
    unfolding log by (simp_all add: appended_def Let_def first with_local_only_def setBytes_def setHead_def add_records_dRecs)
qed

definition demo_request :: "(StoredRecord \<Rightarrow> bool) \<Rightarrow> read_request" where
  "demo_request f = \<lparr>qLimit = 1, qMaxScan = 0, qMaxBytes = 100, qHead = (\<lambda>_ _. True), qFilter = f\<rparr>"

text \<open>A stream whose first records were written before the indexes existed, and the others after the upgrade.\<close>

definition demo_upgraded :: "string \<Rightarrow> Record list \<Rightarrow> Record list \<Rightarrow> Store" where
  "demo_upgraded stream old new = snd (appendLocked ''colca'' True stream new
     (the (OpenWithOptions (\<lambda>_. 0) ''0f'' (without_indexes (sDisk (demo_stream stream old))))))"

lemma add_records_recovery: "dKVRecovery (add_records st off recs b) = dKVRecovery b"
  by (induction recs arbitrary: off b) (simp_all add: addRecord_def Let_def project_kv_def setKV_def deleteKV_def split: option.split)

lemma demo_upgraded_fields:
  assumes "stream \<in> set streams" "stream \<noteq> ''metrics''"
  shows "store_ok (demo_upgraded stream old new)"
    "sNext (demo_upgraded stream old new) stream = 1 + length (old @ new)" "sLWM (demo_upgraded stream old new) stream = 1"
    "sSigFrom (demo_upgraded stream old new) stream = 1 + length old" "sTargetFrom (demo_upgraded stream old new) stream = 1 + length old"
    "dRecs (sDisk (demo_upgraded stream old new)) stream off =
       (if 1 \<le> off \<and> off < 1 + length (old @ new) then Some (encode_record off ((old @ new) ! (off - 1))) else None)"
proof -
  let ?s = "demo_stream stream old"
  note fields = demo_stream_fields [OF assms, of old]
  have ok: "store_ok ?s" using reachable_ok [OF demo_stream_reachable] by (simp add: machine_ok_def)
  have "checkAppend ''colca'' stream old (first_store ''0f'') = (Inr None, first_store ''0f'')"
    using assms(2) by (simp add: checkAppend_def too_large_def first_store_def new_store_eq list_ex_iff)
  from appendLocked_cases [OF this, of True] have "?s = appended stream old None (first_store ''0f'')"
    using assms(1) unfolding demo_stream_def by (simp add: first_store_def new_store_eq)
  then have rec: "dKVRecovery (sDisk ?s) = None"
    by (simp add: appended_def Let_def with_local_only_def setBytes_def setHead_def add_records_recovery
        first_store_def new_store_eq empty_disk_def del: add_records_Cons)
  obtain s' y where up: "OpenWithOptions (\<lambda>_. 0) ''0f'' (without_indexes (sDisk ?s)) = Some s'"
    "sNext s' = sNext ?s" "sLWM s' = sLWM ?s" "sSigFrom s' = sNext ?s" "sTargetFrom s' = sNext ?s" "sMaxRecordBytes s' = 0"
    "dRecs (sDisk s') = dRecs (sDisk ?s)"
    using open_upgraded [OF ok rec, of "\<lambda>_. 0" "''0f''"] by auto
  have run: "(store_step ''colca'')\<^sup>*\<^sup>* ([], s') ([], demo_upgraded stream old new)"
    unfolding demo_upgraded_def up(1) option.sel by (rule r_into_rtranclp, rule store_step.append_locked)
  show "store_ok (demo_upgraded stream old new)" using run_ok [OF upgrade_ok [OF ok rec up(1)] run] .
  have "checkAppend ''colca'' stream new s' = (Inr None, s')"
    using assms(2) up(6) by (simp add: checkAppend_def too_large_def list_ex_iff)
  from appendLocked_cases [OF this, of True] have log: "demo_upgraded stream old new = appended stream new None s'"
    unfolding demo_upgraded_def up(1) option.sel using fields(1) up(2) by simp
  show "sNext (demo_upgraded stream old new) stream = 1 + length (old @ new)" "sLWM (demo_upgraded stream old new) stream = 1"
    "sSigFrom (demo_upgraded stream old new) stream = 1 + length old" "sTargetFrom (demo_upgraded stream old new) stream = 1 + length old"
    unfolding log by (simp_all add: appended_def Let_def with_local_only_def up fields)
  show "dRecs (sDisk (demo_upgraded stream old new)) stream off =
      (if 1 \<le> off \<and> off < 1 + length (old @ new) then Some (encode_record off ((old @ new) ! (off - 1))) else None)"
    unfolding log by (auto simp: appended_def Let_def with_local_only_def setBytes_def setHead_def add_records_dRecs up fields nth_append)
qed

text \<open>The first record lies below the coverage of the index, the second above.\<close>

theorem signal_pages_complete_witness:
  "let s = demo_upgraded ''entities'' [demo_metric] [demo_metric]; q = demo_request (\<lambda>r. oSignalID r = ''S1'') in
   store_ok s \<and> head_sound q \<and> sSigFrom s ''entities'' = 2 \<and>
   fst (follow (\<lambda>a. the_page a (ReadSignals never ''entities'' a [''S1''] q s)) 2 1) =
     [storedRecord 1 (encode_record 1 demo_metric), storedRecord 2 (encode_record 2 demo_metric)]"
proof -
  define s where "s = demo_upgraded ''entities'' [demo_metric] [demo_metric]"
  define q where "q = demo_request (\<lambda>r. oSignalID r = ''S1'')"
  have st: "''entities'' \<in> set streams" "''entities'' \<noteq> ''metrics''" by (simp_all add: streams_def)
  note fields = demo_upgraded_fields [OF st, of "[demo_metric]" "[demo_metric]", folded s_def]
  have q: "head_sound q" "qLimit q \<noteq> 0" by (simp_all add: q_def demo_request_def head_sound_def)
  have "fst (follow (\<lambda>a. the_page a (ReadSignals never ''entities'' a [''S1''] q s)) (sNext s ''entities'' - 1) 1) =
      matching ''entities'' q (sDisk s) 1 (sNext s ''entities'')"
    by (rule signal_pages_complete [OF fields(1) st(1) q])
      (simp_all add: fields(2) q_def demo_request_def storedRecord_def)
  moreover have "matching ''entities'' q (sDisk s) 1 3 = [storedRecord 1 (encode_record 1 demo_metric), storedRecord 2 (encode_record 2 demo_metric)]"
    by (simp add: matching_def kept_def scanStream_def upt_rec List.map_filter_simps fields(6) q_def demo_request_def storedRecord_def demo_metric_signal
        numeral_2_eq_2)
  ultimately show ?thesis
    using q(1) fields(1,2,4) unfolding Let_def s_def [symmetric] q_def [symmetric]
    by (simp add: numeral_2_eq_2 numeral_3_eq_3)
qed

definition demo_command :: "int \<Rightarrow> string \<Rightarrow> Record" where
  "demo_command ts target = zero_record\<lparr>rTopic := ''colca/v1/_CmdParam/'' @ target @ ''/speed'', rTS := ts, rPayload := Some ''{}''\<rparr>"

lemma demo_targets: "recordTarget (rTopic (demo_command ts ''M1'')) = ''M1''" "recordTarget (rTopic (demo_command ts ''M2'')) = ''M2''"
  by (simp_all add: demo_command_def zero_record_def, code_simp, code_simp)

theorem target_pages_complete_witness:
  "let s = demo_upgraded ''commands'' [demo_command 5 ''M1'', demo_command 6 ''M2''] [demo_command 7 ''M1''];
       q = demo_request (\<lambda>r. recordTarget (oTopic r) = ''M1'') in
   store_ok s \<and> sTargetFrom s ''commands'' = 3 \<and>
   fst (follow (\<lambda>a. the_page a (ReadTarget never ''commands'' ''M1'' a 4 q s)) 3 1) =
     [storedRecord 1 (encode_record 1 (demo_command 5 ''M1'')), storedRecord 3 (encode_record 3 (demo_command 7 ''M1''))]"
proof -
  define s where "s = demo_upgraded ''commands'' [demo_command 5 ''M1'', demo_command 6 ''M2''] [demo_command 7 ''M1'']"
  define q where "q = demo_request (\<lambda>r. recordTarget (oTopic r) = ''M1'')"
  have st: "''commands'' \<in> set streams" "''commands'' \<noteq> ''metrics''" by (simp_all add: streams_def)
  note fields = demo_upgraded_fields [OF st, of "[demo_command 5 ''M1'', demo_command 6 ''M2'']" "[demo_command 7 ''M1'']", folded s_def]
  have "fst (follow (\<lambda>a. the_page a (ReadTarget never ''commands'' ''M1'' a 4 q s)) (4 - 1) 1) = matching ''commands'' q (sDisk s) 1 4"
    by (rule target_pages_complete [OF fields(1) st(1)])
      (simp_all add: fields(2,3) q_def demo_request_def storedRecord_def)
  moreover have "matching ''commands'' q (sDisk s) 1 4 =
      [storedRecord 1 (encode_record 1 (demo_command 5 ''M1'')), storedRecord 3 (encode_record 3 (demo_command 7 ''M1''))]"
    by (simp add: matching_def kept_def scanStream_def upt_rec List.map_filter_simps fields(6) q_def demo_request_def storedRecord_def
        demo_targets numeral_3_eq_3)
  ultimately show ?thesis
    using fields(1,5) unfolding Let_def s_def [symmetric] q_def [symmetric] by simp
qed

theorem seek_splits_at_time_witness:
  "let s = demo_stream ''commands'' [demo_command 5 ''M1'', demo_command 6 ''M2'', demo_command 7 ''M1''] in
   reachable ''colca'' [first_store ''0f''] s \<and> SeekTS ''commands'' 6 s = 2"
proof -
  define recs where "recs = [demo_command 5 ''M1'', demo_command 6 ''M2'', demo_command 7 ''M1'']"
  define s where "s = demo_stream ''commands'' recs"
  have st: "''commands'' \<in> set streams" "''commands'' \<noteq> ''metrics''" by (simp_all add: streams_def)
  note fields = demo_stream_fields [OF st, of recs, folded s_def]
  have ts: "time_ordered (scanStream ''commands'' (sLWM s ''commands'') (sNext s ''commands'') (sDisk s))"
    by (simp add: time_ordered_def scanStream_def upt_rec List.map_filter_simps fields recs_def demo_command_def)
  have "dRecs (sDisk s) ''commands'' 1 = Some (encode_record 1 (demo_command 5 ''M1''))"
    "dRecs (sDisk s) ''commands'' 2 = Some (encode_record 2 (demo_command 6 ''M2''))"
    by (simp_all add: fields recs_def)
  moreover have "xTS (encode_record n (demo_command t x)) = t" for n t x by (simp add: demo_command_def)
  moreover have "\<forall>off e. dRecs (sDisk s) ''commands'' off = Some e \<longrightarrow> (xTS e < 6 \<longleftrightarrow> off < SeekTS ''commands'' 6 s)"
    using seek_splits_at_time [OF demo_stream_reachable [of "''commands''" recs, folded s_def] st(1) ts, of 6] by blast
  ultimately have "5 < (6 :: int) \<longleftrightarrow> 1 < SeekTS ''commands'' 6 s" "6 < (6 :: int) \<longleftrightarrow> 2 < SeekTS ''commands'' 6 s" by metis+
  then show ?thesis
    using demo_stream_reachable [of "''commands''" recs] unfolding Let_def recs_def [symmetric] s_def [symmetric] by simp
qed

end
