(* ===== verification/Http_Limit.thy ===== *)
theory Http_Limit
  imports Complex_Main Colca_Prelude Uns_Authz
begin

text \<open>
  The request limiter of the HTTP doors (\<^verbatim>\<open>internal/httplimit\<close>): token buckets and counts of open
  requests per caller and per route class, in a caller map that is itself bounded; the policies and
  caller keys of the two doors that use it (\<^verbatim>\<open>internal/httpapi/limits.go\<close>,
  \<^verbatim>\<open>internal/repl/limits.go\<close>), and the byte budget of the replication door. Times and durations are
  nanoseconds as integers, an unset time is \<^term>\<open>None\<close> (the clock never reads the zero time); the
  \<^verbatim>\<open>float64\<close> token counts are rationals, so their rounding is not modelled. Go visits a map in any
  order; the order one scan happens to take is the argument \<^verbatim>\<open>ks\<close>.
\<close>

section \<open>The limiter\<close>

record Policy =
  pRate :: rat
  pBurst :: int
  pPerCaller :: int
  pGlobal :: int

record bucket =
  bTokens :: rat
  bLast :: int
  bLastSeen :: int
  bActive :: int

record Limiter =
  lBuckets :: "(string, bucket) table"
  lGlobal :: "string \<Rightarrow> int"
  lMaxCallers :: int
  lIdleTTL :: int
  lLastSweep :: "int option"

datatype Reason = ReasonRate | ReasonCallerConcurrency | ReasonGlobalConcurrency | ReasonCallers

record Refusal =
  fReason :: Reason
  fRetryAfter :: int
  fLimit :: int

definition second :: int where
  "second = 1000000000"

definition newWithClock :: "int \<Rightarrow> int \<Rightarrow> Limiter" where
  "newWithClock maxCallers idleTTL = \<lparr>lBuckets = [], lGlobal = (\<lambda>_. 0), lMaxCallers = maxCallers,
     lIdleTTL = idleTTL, lLastSweep = None\<rparr>"

definition New :: Limiter where
  "New = newWithClock 16384 (600 * second)"

definition limit_key :: "string \<Rightarrow> string \<Rightarrow> string" where
  "limit_key class caller = class @ CHR 0x00 # caller"

definition refill :: "int \<Rightarrow> Policy \<Rightarrow> bucket \<Rightarrow> bucket" where
  "refill now policy b =
     (if pRate policy \<le> 0 \<or> pBurst policy \<le> 0 then b\<lparr>bLast := now\<rparr>
      else let elapsed = now - bLast b in
        if elapsed > 0
        then b\<lparr>bTokens := min (of_int (pBurst policy)) (bTokens b + of_int elapsed / of_int second * pRate policy), bLast := now\<rparr>
        else b)"

definition sweep :: "int \<Rightarrow> Limiter \<Rightarrow> Limiter" where
  "sweep now l =
     (case lLastSweep l of
        Some t \<Rightarrow> if now - t < 60 * second then l
          else l\<lparr>lBuckets := filter (\<lambda>(key, b). \<not> (bActive b = 0 \<and> now - bLastSeen b > lIdleTTL l)) (lBuckets l), lLastSweep := Some now\<rparr>
      | None \<Rightarrow> l\<lparr>lBuckets := filter (\<lambda>(key, b). \<not> (bActive b = 0 \<and> now - bLastSeen b > lIdleTTL l)) (lBuckets l), lLastSweep := Some now\<rparr>)"

text \<open>One round of the scan of \<^verbatim>\<open>evictOldestIdle\<close>: the oldest idle caller so far and its time.\<close>

definition older_idle :: "(string, bucket) table \<Rightarrow> string \<Rightarrow> string \<times> int option \<Rightarrow> string \<times> int option" where
  "older_idle buckets key best =
     (case map_of buckets key of
        None \<Rightarrow> best
      | Some b \<Rightarrow>
          if bActive b \<noteq> 0 \<or> (case snd best of None \<Rightarrow> False | Some oldest \<Rightarrow> \<not> bLastSeen b < oldest) then best
          else (key, Some (bLastSeen b)))"

definition evictOldestIdle :: "string list \<Rightarrow> Limiter \<Rightarrow> Limiter" where
  "evictOldestIdle ks l =
     (let oldestKey = fst (fold (older_idle (lBuckets l)) ks ('''', None)) in
      if oldestKey \<noteq> '''' then l\<lparr>lBuckets := tdel oldestKey (lBuckets l)\<rparr> else l)"

text \<open>The part of \<^verbatim>\<open>Acquire\<close> that finds or makes the caller's bucket; \<^term>\<open>None\<close> is the refusal for
  too many callers.\<close>

definition caller_bucket :: "int \<Rightarrow> string list \<Rightarrow> string \<Rightarrow> Policy \<Rightarrow> Limiter \<Rightarrow> bucket option \<times> Limiter" where
  "caller_bucket now ks key policy l =
     (case map_of (lBuckets l) key of
        Some b \<Rightarrow> (Some b, l)
      | None \<Rightarrow>
          let l = (if int (length (lBuckets l)) \<ge> lMaxCallers l then evictOldestIdle ks l else l) in
          if int (length (lBuckets l)) \<ge> lMaxCallers l then (None, l)
          else (Some \<lparr>bTokens = of_int (pBurst policy), bLast = now, bLastSeen = now, bActive = 0\<rparr>, l))"

definition rate_refusal :: "Policy \<Rightarrow> bucket \<Rightarrow> Refusal" where
  "rate_refusal policy b =
     (let missing = 1 - bTokens b;
          delay = \<lceil>missing / pRate policy * of_int second\<rceil>;
          delay = (if delay < 1000000 then 1000000 else delay)
      in \<lparr>fReason = ReasonRate, fRetryAfter = delay, fLimit = pBurst policy\<rparr>)"

definition put_bucket :: "string \<Rightarrow> bucket \<Rightarrow> Limiter \<Rightarrow> Limiter" where
  "put_bucket key b l = l\<lparr>lBuckets := tput key b (lBuckets l)\<rparr>"

text \<open>\<^verbatim>\<open>Acquire\<close>: \<^term>\<open>None\<close> admits the request. The bucket is a pointer in the code, so what
  happens to it before a refusal stays.\<close>

definition Acquire :: "int \<Rightarrow> string list \<Rightarrow> string \<Rightarrow> string \<Rightarrow> Policy \<Rightarrow> Limiter \<Rightarrow> Refusal option \<times> Limiter" where
  "Acquire now ks class caller policy l =
     (let key = limit_key class caller in
      case caller_bucket now ks key policy (sweep now l) of
        (None, l) \<Rightarrow> (Some \<lparr>fReason = ReasonCallers, fRetryAfter = 0, fLimit = lMaxCallers l\<rparr>, l)
      | (Some b, l) \<Rightarrow>
          let b = refill now policy (b\<lparr>bLastSeen := now\<rparr>) in
          if pPerCaller policy > 0 \<and> bActive b \<ge> pPerCaller policy
          then (Some \<lparr>fReason = ReasonCallerConcurrency, fRetryAfter = 0, fLimit = pPerCaller policy\<rparr>, put_bucket key b l)
          else if pGlobal policy > 0 \<and> lGlobal l class \<ge> pGlobal policy
          then (Some \<lparr>fReason = ReasonGlobalConcurrency, fRetryAfter = 0, fLimit = pGlobal policy\<rparr>, put_bucket key b l)
          else if pRate policy > 0 \<and> pBurst policy > 0 \<and> bTokens b < 1
          then (Some (rate_refusal policy b), put_bucket key b l)
          else let b = (if pRate policy > 0 \<and> pBurst policy > 0 then b\<lparr>bTokens := bTokens b - 1\<rparr> else b);
                   b = b\<lparr>bActive := bActive b + 1\<rparr>
               in (None, (put_bucket key b l)\<lparr>lGlobal := (lGlobal l)(class := lGlobal l class + 1)\<rparr>))"

text \<open>The function \<^verbatim>\<open>Acquire\<close> returns to an admitted request; it acts once.\<close>

definition Acquire_release :: "int \<Rightarrow> string \<Rightarrow> string \<Rightarrow> Limiter \<Rightarrow> Limiter" where
  "Acquire_release now class caller l =
     (let key = limit_key class caller;
          l = (case map_of (lBuckets l) key of
                 Some current \<Rightarrow>
                   if bActive current > 0 then put_bucket key (current\<lparr>bActive := bActive current - 1, bLastSeen := now\<rparr>) l else l
               | None \<Rightarrow> l)
      in if lGlobal l class > 0 then l\<lparr>lGlobal := (lGlobal l)(class := lGlobal l class - 1)\<rparr> else l)"

section \<open>The doors\<close>

text \<open>Policies of the HTTP door and of the replication door.\<close>

definition limit_policy :: "rat \<Rightarrow> int \<Rightarrow> int \<Rightarrow> int \<Rightarrow> Policy" where
  "limit_policy rate burst perCaller global = \<lparr>pRate = rate, pBurst = burst, pPerCaller = perCaller, pGlobal = global\<rparr>"

definition http_policies :: "(string \<times> Policy) list" where
  "http_policies =
     [(''health'', limit_policy 20 40 8 256), (''metrics'', limit_policy 10 30 4 4), (''auth'', limit_policy 100 200 64 512),
      (''cheap'', limit_policy 100 200 32 256), (''write'', limit_policy 100 250 32 128), (''fetch'', limit_policy 25 50 16 128),
      (''scan'', limit_policy 5 10 4 32), (''watch'', limit_policy 2 8 8 256), (''admin'', limit_policy 10 50 4 16),
      (''transfer'', limit_policy 10 20 4 32)]"

definition replAuthPolicy :: Policy where "replAuthPolicy = limit_policy 100 200 64 512"
definition replNodePolicy :: Policy where "replNodePolicy = limit_policy 100 200 8 0"
definition replicationPolicy :: Policy where "replicationPolicy = limit_policy 100 200 2 1024"
definition replDownlinkPolicy :: Policy where "replDownlinkPolicy = limit_policy 100 200 2 8192"
definition replTransferPolicy :: Policy where "replTransferPolicy = limit_policy 10 20 2 32"

text \<open>The names of identity kinds on the wire.\<close>

fun kind_name :: "Kind \<Rightarrow> string" where
  "kind_name KindExternal = ''external''"
| "kind_name KindNode = ''node''"
| "kind_name KindLocal = ''local''"
| "kind_name KindHuman = ''human''"
| "kind_name (KindOther k) = k"

text \<open>A caller of the HTTP door: the subject of a verified token, a registry entry, or the admin token.\<close>

record caller =
  cAdmin :: bool
  cEntry :: "Entry option"
  cHuman :: "string option"

definition callerLimitKey :: "caller \<Rightarrow> string" where
  "callerLimitKey c =
     (case cHuman c of Some sub \<Rightarrow> ''human:'' @ sub
      | None \<Rightarrow> (case cEntry c of Some e \<Rightarrow> kind_name (eKind e) @ '':'' @ eULID e | None \<Rightarrow> ''admin''))"

definition callerLabel :: "caller \<Rightarrow> string" where
  "callerLabel c =
     (case cHuman c of Some sub \<Rightarrow> ''human''
      | None \<Rightarrow> (case cEntry c of
            Some e \<Rightarrow> kind_name (eKind e) @ '':'' @ (if eName e = '''' then eULID e else eName e)
          | None \<Rightarrow> ''admin''))"

definition contractLabel :: "string list \<Rightarrow> string" where
  "contractLabel contracts = (case contracts of [] \<Rightarrow> ''all'' | [c] \<Rightarrow> c | _ \<Rightarrow> ''multiple'')"

text \<open>\<^verbatim>\<open>admission\<close> of the replication door: the entry the registry holds for the key of the caller's
  certificate, if any, and the source address.\<close>

definition admission :: "Entry option \<Rightarrow> string \<Rightarrow> string \<times> string \<times> Policy" where
  "admission entry source =
     (case entry of
        Some e \<Rightarrow> if MayUseDoor entry DoorRepl then (''node'', eULID e, replNodePolicy) else (''auth'', source, replAuthPolicy)
      | None \<Rightarrow> (''auth'', source, replAuthPolicy))"

text \<open>The answer to a refused request: status, \<^verbatim>\<open>Retry-After\<close> in seconds, reason, class and limit.\<close>

definition retry_seconds :: "int \<Rightarrow> int" where
  "retry_seconds delay = (let s = \<lceil>of_int delay / (of_int second :: rat)\<rceil> in if s < 1 then 1 else s)"

definition writeRefusal :: "string \<Rightarrow> Refusal \<Rightarrow> nat \<times> int option \<times> Reason \<times> string \<times> int" where
  "writeRefusal class refusal =
     (429, (if fReason refusal = ReasonRate then Some (retry_seconds (fRetryAfter refusal)) else None),
      fReason refusal, class, fLimit refusal)"

text \<open>A caller that waits the seconds of the header has waited the delay.\<close>

lemma retry_seconds_enough: "delay \<le> retry_seconds delay * second"
proof -
  have "of_int delay / (of_int second :: rat) \<le> of_int (retry_seconds delay)"
    using le_of_int_ceiling [of "of_int delay / (of_int second :: rat)"] unfolding retry_seconds_def Let_def
    by (auto simp: ceiling_less_iff)
  then have "(of_int delay :: rat) \<le> of_int (retry_seconds delay * second)"
    by (simp add: field_simps second_def)
  then show ?thesis by linarith
qed

text \<open>The byte budget of the replication door; \<^verbatim>\<open>memlimit\<close> is what
  \<^verbatim>\<open>debug.SetMemoryLimit(-1)\<close> answers. A reservation is one successful compare-and-swap: it takes
  effect on the value it was decided on.\<close>

record byteBudget =
  uLimit :: int
  uUsed :: int

definition replicationBudgetBytes :: "int \<Rightarrow> int \<Rightarrow> int" where
  "replicationBudgetBytes memlimit maxBody =
     max (if memlimit > 0 \<and> memlimit < 2 ^ 63 - 1 then memlimit div 32 else 64 * 2 ^ 20) maxBody"

definition reserve :: "int \<Rightarrow> int \<Rightarrow> byteBudget \<Rightarrow> bool \<times> byteBudget" where
  "reserve n held b =
     (if (uUsed b > 0 \<or> held > 0) \<and> uUsed b + held + n > uLimit b then (False, b)
      else (True, b\<lparr>uUsed := uUsed b + n\<rparr>))"

definition release :: "int \<Rightarrow> byteBudget \<Rightarrow> byteBudget" where
  "release n b = b\<lparr>uUsed := uUsed b - n\<rparr>"

text \<open>No request is refused for good: an idle budget admits any size. Beyond that the budget holds.\<close>

lemma reserve_bound:
  assumes "reserve n held b = (True, b')" "0 \<le> uUsed b" "0 \<le> held"
  shows "uUsed b' + held \<le> uLimit b \<or> uUsed b' = n \<and> held = 0"
  using assms by (auto simp: reserve_def split: if_splits)

lemma reserve_idle: "reserve n 0 \<lparr>uLimit = most, uUsed = 0\<rparr> = (True, \<lparr>uLimit = most, uUsed = n\<rparr>)"
  by (simp add: reserve_def)

lemma reserve_release: "reserve n held b = (True, b') \<Longrightarrow> release n b' = b"
  by (auto simp: reserve_def release_def split: if_splits)

section \<open>What a door holds open\<close>

text \<open>A door in operation: the limiter, the requests it has admitted and not yet released, and for each
  caller key how many requests were admitted since its bucket was made, and when that was.\<close>

record DoorState =
  dLimiter :: Limiter
  dHeld :: "(string \<times> string) list"
  dSince :: "string \<Rightarrow> int"
  dAdmitted :: "string \<Rightarrow> nat"

definition admitted :: "int \<Rightarrow> string \<Rightarrow> string \<Rightarrow> Refusal option \<Rightarrow> Limiter \<Rightarrow> DoorState \<Rightarrow> DoorState" where
  "admitted now class caller r l' d =
     (let key = limit_key class caller;
          known = map_of (lBuckets (sweep now (dLimiter d))) key \<noteq> None;
          n = (if known then dAdmitted d key else 0)
      in \<lparr>dLimiter = l',
          dHeld = (if r = None then (class, caller) # dHeld d else dHeld d),
          dSince = (if known then dSince d else (dSince d)(key := now)),
          dAdmitted = (dAdmitted d)(key := (if r = None then n + 1 else n))\<rparr>)"

inductive door :: "(string \<Rightarrow> Policy) \<Rightarrow> int \<Rightarrow> int \<Rightarrow> DoorState \<Rightarrow> bool" for policy maxCallers idleTTL where
  opened: "door policy maxCallers idleTTL
     \<lparr>dLimiter = newWithClock maxCallers idleTTL, dHeld = [], dSince = (\<lambda>_. 0), dAdmitted = (\<lambda>_. 0)\<rparr>"
| asked: "door policy maxCallers idleTTL d \<Longrightarrow> CHR 0x00 \<notin> set class \<Longrightarrow>
     Acquire now ks class caller (policy class) (dLimiter d) = (r, l') \<Longrightarrow>
     door policy maxCallers idleTTL (admitted now class caller r l' d)"
| released: "door policy maxCallers idleTTL d \<Longrightarrow> (class, caller) \<in> set (dHeld d) \<Longrightarrow>
     door policy maxCallers idleTTL
       (d\<lparr>dLimiter := Acquire_release now class caller (dLimiter d), dHeld := remove1 (class, caller) (dHeld d)\<rparr>)"

text \<open>The open requests the limiter has on record for a key.\<close>

definition open_of :: "Limiter \<Rightarrow> string \<Rightarrow> int" where
  "open_of l key = (case map_of (lBuckets l) key of Some b \<Rightarrow> bActive b | None \<Rightarrow> 0)"

lemma limit_key_inj [simp]:
  assumes "CHR 0x00 \<notin> set c" "CHR 0x00 \<notin> set c'"
  shows "limit_key c a = limit_key c' a' \<longleftrightarrow> c = c' \<and> a = a'"
  using assms unfolding limit_key_def
proof (induction c arbitrary: c')
  case Nil then show ?case by (cases c') auto
next
  case (Cons x c) then show ?case by (cases c') auto
qed

lemma limit_key_not_Nil [simp]: "limit_key c a \<noteq> []" "[] \<noteq> limit_key c a"
  by (simp_all add: limit_key_def)

text \<open>Dropping idle callers: what a sweep and an eviction do to the limiter.\<close>

definition drops_idle :: "Limiter \<Rightarrow> Limiter \<Rightarrow> bool" where
  "drops_idle l l' \<longleftrightarrow> (\<forall>k. map_of (lBuckets l') k = map_of (lBuckets l) k \<or>
       map_of (lBuckets l') k = None \<and> open_of l k = 0) \<and>
     (table_ok (lBuckets l) \<longrightarrow> table_ok (lBuckets l')) \<and> length (lBuckets l') \<le> length (lBuckets l) \<and>
     lGlobal l' = lGlobal l \<and> lMaxCallers l' = lMaxCallers l \<and> lIdleTTL l' = lIdleTTL l"

lemma drops_idle_at:
  "drops_idle l l' \<Longrightarrow> map_of (lBuckets l') k = map_of (lBuckets l) k \<or> map_of (lBuckets l') k = None \<and> open_of l k = 0"
  by (simp add: drops_idle_def)

lemma drops_idle_open: "drops_idle l l' \<Longrightarrow> open_of l' = open_of l"
proof
  fix k
  assume "drops_idle l l'"
  from drops_idle_at [OF this, of k] show "open_of l' k = open_of l k" by (auto simp: open_of_def)
qed

lemma drops_idle_refl [simp]: "drops_idle l l"
  by (simp add: drops_idle_def)

lemma drops_idle_trans: "drops_idle l l' \<Longrightarrow> drops_idle l' l'' \<Longrightarrow> drops_idle l l''"
  using drops_idle_open [of l l'] unfolding drops_idle_def by (elim conjE) (intro conjI, metis, simp_all)

lemma sweep_drops:
  assumes "table_ok (lBuckets l)"
  shows "drops_idle l (sweep now l)"
proof -
  define l1 where "l1 = l\<lparr>lBuckets := filter (\<lambda>(key, b). \<not> (bActive b = 0 \<and> now - bLastSeen b > lIdleTTL l)) (lBuckets l), lLastSweep := Some now\<rparr>"
  have "drops_idle l l1"
    using assms table_ok_filter [OF assms]
    by (auto simp: drops_idle_def l1_def open_of_def map_of_filter_distinct [OF table_ok_distinct] split: option.splits)
  then show ?thesis by (auto simp: sweep_def l1_def split: option.splits)
qed

text \<open>The scan of an eviction ends at an idle caller, if there is one among the keys it visits.\<close>

lemma older_idle_fold:
  assumes "fst best = '''' \<and> snd best = None \<or> (\<exists>b. map_of bs (fst best) = Some b \<and> bActive b = 0 \<and> snd best \<noteq> None)"
  shows "let r = fold (older_idle bs) ks best in
    (fst r = '''' \<and> snd r = None \<and> snd best = None \<and> (\<forall>k\<in>set ks. \<forall>b. map_of bs k = Some b \<longrightarrow> bActive b \<noteq> 0)) \<or>
    (\<exists>b. map_of bs (fst r) = Some b \<and> bActive b = 0 \<and> snd r \<noteq> None)"
  using assms
proof (induction ks arbitrary: best)
  case (Cons k ks)
  have "fst (older_idle bs k best) = '''' \<and> snd (older_idle bs k best) = None \<and> snd best = None \<and>
      (\<forall>b. map_of bs k = Some b \<longrightarrow> bActive b \<noteq> 0) \<or>
    (\<exists>b. map_of bs (fst (older_idle bs k best)) = Some b \<and> bActive b = 0 \<and> snd (older_idle bs k best) \<noteq> None)"
    using Cons.prems by (auto simp: older_idle_def split: option.splits)
  then show ?case using Cons.IH [of "older_idle bs k best"] unfolding Let_def by auto
qed auto

lemma evict_drops: "drops_idle l (evictOldestIdle ks l)"
proof -
  define r where "r = fold (older_idle (lBuckets l)) ks ('''', None)"
  have idle: "fst r = '''' \<or> open_of l (fst r) = 0"
    using older_idle_fold [of "('''', None)" "lBuckets l" ks] by (auto simp: Let_def r_def open_of_def)
  have "length (tdel k t) \<le> length t" for k and t :: "(string, bucket) table"
    by (simp add: tdel_def)
  then show ?thesis
    using idle by (auto simp: evictOldestIdle_def Let_def r_def [symmetric] drops_idle_def)
qed

lemma evict_makes_room:
  assumes "set (map fst (lBuckets l)) \<subseteq> set ks" "length (lBuckets (evictOldestIdle ks l)) = length (lBuckets l)"
    and "'''' \<notin> set (map fst (lBuckets l))" "map_of (lBuckets l) k = Some b"
  shows "bActive b \<noteq> 0"
proof -
  define r where "r = fold (older_idle (lBuckets l)) ks ('''', None)"
  have less: "length (tdel (fst r) (lBuckets l)) < length (lBuckets l)" if "map_of (lBuckets l) (fst r) = Some c" for c
    using map_of_SomeD [OF that] by (force simp: tdel_def intro!: length_filter_less)
  have "fst r \<noteq> ''''" if "map_of (lBuckets l) (fst r) = Some c" for c
    using map_of_SomeD [OF that] assms(3) by (force simp: image_iff)
  then have "\<forall>k\<in>set ks. \<forall>b. map_of (lBuckets l) k = Some b \<longrightarrow> bActive b \<noteq> 0"
    using older_idle_fold [of "('''', None)" "lBuckets l" ks] less assms(2)
    by (fastforce simp: Let_def r_def [symmetric] evictOldestIdle_def)
  moreover have "k \<in> set ks" using assms(1) map_of_SomeD [OF assms(4)] by force
  ultimately show ?thesis using assms(4) by blast
qed

section \<open>The steps of a door\<close>

definition fresh_bucket :: "int \<Rightarrow> Policy \<Rightarrow> bucket" where
  "fresh_bucket now policy = \<lparr>bTokens = of_int (pBurst policy), bLast = now, bLastSeen = now, bActive = 0\<rparr>"

lemma caller_bucket_cases:
  assumes "caller_bucket now ks key policy l = (ob, l')"
  obtains (known) b where "ob = Some b" "l' = l" "map_of (lBuckets l) key = Some b"
  | (made) "ob = Some (fresh_bucket now policy)" "drops_idle l l'" "map_of (lBuckets l) key = None"
      "int (length (lBuckets l')) < lMaxCallers l'"
  | (full) "ob = None" "l' = evictOldestIdle ks l" "map_of (lBuckets l) key = None"
      "int (length (lBuckets l')) \<ge> lMaxCallers l'" "int (length (lBuckets l)) \<ge> lMaxCallers l"
proof (cases "map_of (lBuckets l) key")
  case (Some b)
  then show ?thesis using assms known [OF _ _ Some] by (simp add: caller_bucket_def)
next
  case None
  define l1 where "l1 = (if int (length (lBuckets l)) \<ge> lMaxCallers l then evictOldestIdle ks l else l)"
  have "drops_idle l l1" using evict_drops by (simp add: l1_def)
  moreover have "(ob, l') = (if int (length (lBuckets l1)) \<ge> lMaxCallers l1 then (None, l1) else (Some (fresh_bucket now policy), l1))"
    using assms None unfolding caller_bucket_def None option.case Let_def l1_def [symmetric] fresh_bucket_def [symmetric] by simp
  moreover have "lMaxCallers l1 = lMaxCallers l" using \<open>drops_idle l l1\<close> by (simp add: drops_idle_def)
  ultimately show ?thesis
    using made full None by (cases "int (length (lBuckets l1)) \<ge> lMaxCallers l1") (auto simp: l1_def split: if_splits)
qed

definition spend :: "Policy \<Rightarrow> bucket \<Rightarrow> bucket" where
  "spend policy b = (let b = (if pRate policy > 0 \<and> pBurst policy > 0 then b\<lparr>bTokens := bTokens b - 1\<rparr> else b)
     in b\<lparr>bActive := bActive b + 1\<rparr>)"

text \<open>The ways \<^verbatim>\<open>Acquire\<close> ends: no bucket to be had, a refusal with the bucket refilled, an admission.\<close>

lemma Acquire_cases:
  assumes "Acquire now ks class caller policy l = (r, l')" "table_ok (lBuckets l)"
  obtains (full) f l1 where "r = Some f" "fReason f = ReasonCallers" "l' = evictOldestIdle ks l1" "l1 = sweep now l"
      "map_of (lBuckets l1) (limit_key class caller) = None"
      "int (length (lBuckets l')) \<ge> lMaxCallers l'" "int (length (lBuckets l1)) \<ge> lMaxCallers l1"
  | (bucket) l1 b0 b where "drops_idle l l1"
      "map_of (lBuckets (sweep now l)) (limit_key class caller) = Some b0 \<and> l1 = sweep now l \<or>
       map_of (lBuckets (sweep now l)) (limit_key class caller) = None \<and> b0 = fresh_bucket now policy \<and>
         map_of (lBuckets l1) (limit_key class caller) = None \<and> int (length (lBuckets l1)) < lMaxCallers l1"
      "b = refill now policy (b0\<lparr>bLastSeen := now\<rparr>)"
      "r = None \<and> (pPerCaller policy > 0 \<longrightarrow> bActive b < pPerCaller policy) \<and>
         (pGlobal policy > 0 \<longrightarrow> lGlobal l1 class < pGlobal policy) \<and>
         (pRate policy > 0 \<and> pBurst policy > 0 \<longrightarrow> 1 \<le> bTokens b) \<and>
         l' = (put_bucket (limit_key class caller) (spend policy b) l1)\<lparr>lGlobal := (lGlobal l1)(class := lGlobal l1 class + 1)\<rparr> \<or>
       (\<exists>f. r = Some f \<and> l' = put_bucket (limit_key class caller) b l1 \<and>
         (fReason f = ReasonCallerConcurrency \<and> 0 < pPerCaller policy \<and> pPerCaller policy \<le> bActive b \<or>
          fReason f = ReasonGlobalConcurrency \<and> 0 < pGlobal policy \<and> pGlobal policy \<le> lGlobal l1 class \<or>
          f = rate_refusal policy b \<and> 0 < pRate policy \<and> 0 < pBurst policy \<and> bTokens b < 1))"
proof -
  obtain ob l1 where cb: "caller_bucket now ks (limit_key class caller) policy (sweep now l) = (ob, l1)" by fastforce
  note sw = sweep_drops [OF assms(2), of now]
  have ends: "r = None \<and> (pPerCaller policy > 0 \<longrightarrow> bActive b < pPerCaller policy) \<and>
         (pGlobal policy > 0 \<longrightarrow> lGlobal l1 class < pGlobal policy) \<and>
         (pRate policy > 0 \<and> pBurst policy > 0 \<longrightarrow> 1 \<le> bTokens b) \<and>
         l' = (put_bucket (limit_key class caller) (spend policy b) l1)\<lparr>lGlobal := (lGlobal l1)(class := lGlobal l1 class + 1)\<rparr> \<or>
       (\<exists>f. r = Some f \<and> l' = put_bucket (limit_key class caller) b l1 \<and>
         (fReason f = ReasonCallerConcurrency \<and> 0 < pPerCaller policy \<and> pPerCaller policy \<le> bActive b \<or>
          fReason f = ReasonGlobalConcurrency \<and> 0 < pGlobal policy \<and> pGlobal policy \<le> lGlobal l1 class \<or>
          f = rate_refusal policy b \<and> 0 < pRate policy \<and> 0 < pBurst policy \<and> bTokens b < 1))"
    if "ob = Some b0" "b = refill now policy (b0\<lparr>bLastSeen := now\<rparr>)" for b0 b
    using assms(1) cb that(1) unfolding that(2) [symmetric] Acquire_def spend_def Let_def
    by (simp add: that(2) [symmetric] split: if_splits) auto
  from cb show ?thesis
  proof (cases rule: caller_bucket_cases)
    case (known b)
    then show ?thesis using bucket [OF _ _ refl ends [OF known(1) refl]] sw by simp
  next
    case made
    have "map_of (lBuckets l1) (limit_key class caller) = None"
      using drops_idle_at [OF made(2)] made(3) by metis
    then show ?thesis using bucket [OF drops_idle_trans [OF sw made(2)] _ refl ends [OF made(1) refl]] made by simp
  next
    case full
    have "r = Some \<lparr>fReason = ReasonCallers, fRetryAfter = 0, fLimit = lMaxCallers l1\<rparr>" "l' = l1"
      using assms(1) cb full(1) by (auto simp: Acquire_def Let_def)
    then show ?thesis using that(1) [of _ "sweep now l"] full by simp
  qed
qed

section \<open>Token buckets\<close>

text \<open>The account of a bucket made at \<^verbatim>\<open>since\<close> that admitted \<^verbatim>\<open>n\<close> requests: what was admitted and what is
  left is covered by the burst and the rate.\<close>

definition rate_ok :: "Policy \<Rightarrow> int \<Rightarrow> nat \<Rightarrow> bucket \<Rightarrow> bool" where
  "rate_ok p since n b \<longleftrightarrow> (0 < pRate p \<and> 0 < pBurst p \<longrightarrow>
     0 \<le> bTokens b \<and> bTokens b \<le> of_int (pBurst p) \<and> since \<le> bLast b \<and>
     bTokens b + of_nat n \<le> of_int (pBurst p) + of_int (bLast b - since) / of_int second * pRate p)"

lemma rate_ok_other [simp]:
  "rate_ok p since n (b\<lparr>bLastSeen := x\<rparr>) = rate_ok p since n b" "rate_ok p since n (b\<lparr>bActive := y\<rparr>) = rate_ok p since n b"
  by (simp_all add: rate_ok_def)

lemma rate_ok_fresh: "rate_ok p now 0 (fresh_bucket now p)"
  by (simp add: rate_ok_def fresh_bucket_def)

lemma rate_ok_refill:
  assumes "rate_ok p since n b"
  shows "rate_ok p since n (refill now p b)"
proof (cases "0 < pRate p \<and> 0 < pBurst p \<and> now - bLast b > 0")
  case True
  define e where "e = of_int (now - bLast b) / of_int second * pRate p"
  have "0 \<le> e" using True by (simp add: e_def second_def)
  moreover have "of_int (now - since) / of_int second * pRate p = of_int (bLast b - since) / of_int second * pRate p + e"
    unfolding e_def by (simp add: ring_distribs diff_divide_distrib)
  ultimately show ?thesis
    using assms True unfolding rate_ok_def refill_def Let_def e_def [symmetric] by auto
next
  case False
  then show ?thesis using assms by (auto simp: rate_ok_def refill_def Let_def)
qed

lemma rate_ok_spend:
  "rate_ok p since n b \<Longrightarrow> (0 < pRate p \<and> 0 < pBurst p \<longrightarrow> 1 \<le> bTokens b) \<Longrightarrow> rate_ok p since (n + 1) (spend p b)"
  by (auto simp: rate_ok_def spend_def Let_def)

lemma refill_active [simp]: "bActive (refill now p b) = bActive b"
  by (simp add: refill_def Let_def)

lemma spend_active [simp]: "bActive (spend p b) = bActive b + 1"
  by (simp add: spend_def Let_def)

text \<open>A caller refused for its rate that waits out the delay it was told, and asks nothing meanwhile, finds
  a token in its bucket.\<close>

lemma retry_after_enough:
  assumes "0 < pRate p" "0 < pBurst p" "bLast b \<le> now" "0 \<le> bTokens b"
    and "fRetryAfter (rate_refusal p b) \<le> later - now"
  shows "1 \<le> bTokens (refill later p (b\<lparr>bLastSeen := x\<rparr>))"
proof -
  define d where "d = \<lceil>(1 - bTokens b) / pRate p * of_int second\<rceil>"
  have "d \<le> fRetryAfter (rate_refusal p b)" "1000000 \<le> fRetryAfter (rate_refusal p b)"
    by (simp_all add: rate_refusal_def Let_def d_def)
  then have wait: "d \<le> later - bLast b" "0 < later - bLast b" using assms(3,5) by linarith+
  have "(1 - bTokens b) / pRate p * of_int second \<le> of_int (later - bLast b)"
    using wait(1) by (simp only: d_def ceiling_le_iff)
  then have "1 - bTokens b \<le> of_int (later - bLast b) / of_int second * pRate p"
    using assms(1) by (simp add: field_simps second_def)
  moreover have "1 \<le> (of_int (pBurst p) :: rat)" using assms(2) by simp
  ultimately show ?thesis using assms(1,2) wait(2) by (simp add: refill_def Let_def)
qed

section \<open>The invariant of a door\<close>

definition held_key :: "(string \<times> string) list \<Rightarrow> string \<Rightarrow> nat" where
  "held_key held key = length (filter (\<lambda>h. limit_key (fst h) (snd h) = key) held)"

definition held_class :: "(string \<times> string) list \<Rightarrow> string \<Rightarrow> nat" where
  "held_class held class = length (filter (\<lambda>h. fst h = class) held)"

definition door_ok :: "(string \<Rightarrow> Policy) \<Rightarrow> int \<Rightarrow> DoorState \<Rightarrow> bool" where
  "door_ok policy m d \<longleftrightarrow> table_ok (lBuckets (dLimiter d)) \<and> '''' \<notin> set (map fst (lBuckets (dLimiter d))) \<and>
     lMaxCallers (dLimiter d) = m \<and> int (length (lBuckets (dLimiter d))) \<le> max 0 m \<and>
     open_of (dLimiter d) = int \<circ> held_key (dHeld d) \<and> lGlobal (dLimiter d) = int \<circ> held_class (dHeld d)"

definition in_bounds :: "(string \<Rightarrow> Policy) \<Rightarrow> DoorState \<Rightarrow> bool" where
  "in_bounds policy d \<longleftrightarrow> (\<forall>class caller. CHR 0x00 \<notin> set class \<longrightarrow>
     (0 < pPerCaller (policy class) \<longrightarrow> int (held_key (dHeld d) (limit_key class caller)) \<le> pPerCaller (policy class)) \<and>
     (0 < pGlobal (policy class) \<longrightarrow> int (held_class (dHeld d) class) \<le> pGlobal (policy class)) \<and>
     (\<forall>b. map_of (lBuckets (dLimiter d)) (limit_key class caller) = Some b \<longrightarrow>
        rate_ok (policy class) (dSince d (limit_key class caller)) (dAdmitted d (limit_key class caller)) b))"

lemma held_Cons [simp]:
  "held_key (h # held) k = held_key held k + (if limit_key (fst h) (snd h) = k then 1 else 0)"
  "held_class (h # held) c = held_class held c + (if fst h = c then 1 else 0)"
  "held_key [] k = 0" "held_class [] c = 0"
  by (simp_all add: held_key_def held_class_def)

lemma held_remove1:
  "h \<in> set held \<Longrightarrow> held_key held k = held_key (remove1 h held) k + (if limit_key (fst h) (snd h) = k then 1 else 0)"
  "h \<in> set held \<Longrightarrow> held_class held c = held_class (remove1 h held) c + (if fst h = c then 1 else 0)"
  by (induction held) auto

lemma limiter_put [simp]:
  "lBuckets (put_bucket key b l) = tput key b (lBuckets l)" "lGlobal (put_bucket key b l) = lGlobal l"
  "lMaxCallers (put_bucket key b l) = lMaxCallers l"
  by (simp_all add: put_bucket_def)

lemma open_of_put [simp]: "open_of (put_bucket key b l) = (open_of l)(key := bActive b)"
  by (auto simp: open_of_def fun_eq_iff)

lemma open_of_lGlobal [simp]: "open_of (l\<lparr>lGlobal := g\<rparr>) = open_of l"
  by (simp add: open_of_def fun_eq_iff)

lemma drops_idle_keys: "drops_idle l l' \<Longrightarrow> k \<in> set (map fst (lBuckets l')) \<Longrightarrow> k \<in> set (map fst (lBuckets l))"
  using drops_idle_at [of l l' k] by (metis list.set_map map_of_eq_None_iff)

lemma drops_idle_fields:
  assumes "drops_idle l l'"
  shows "table_ok (lBuckets l) \<Longrightarrow> table_ok (lBuckets l')" "length (lBuckets l') \<le> length (lBuckets l)"
    "lGlobal l' = lGlobal l" "lMaxCallers l' = lMaxCallers l"
  using assms by (simp_all add: drops_idle_def)

text \<open>The size of the caller map after \<^verbatim>\<open>Acquire\<close>, and what it admits.\<close>

lemma Acquire_keeps:
  assumes "door_ok policy m d" "Acquire now ks class caller p (dLimiter d) = (r, l')"
  shows "door_ok policy m (admitted now class caller r l' d)"
  using assms(2) door_ok_def [THEN iffD1, OF assms(1), THEN conjunct1]
proof (cases rule: Acquire_cases)
  case (full f l1)
  then have dr: "drops_idle (dLimiter d) l'"
    using drops_idle_trans [OF sweep_drops evict_drops] assms(1) by (simp add: door_ok_def)
  then show ?thesis
    using assms(1) full(1) drops_idle_open [OF dr] drops_idle_fields [OF dr] drops_idle_keys [OF dr]
    by (auto simp: door_ok_def admitted_def Let_def)
next
  case (bucket l1 b0 b)
  have ok: "table_ok (lBuckets l1)" "lMaxCallers l1 = m" "int (length (lBuckets l1)) \<le> max 0 m"
    "'''' \<notin> set (map fst (lBuckets l1))" "open_of l1 = int \<circ> held_key (dHeld d)" "lGlobal l1 = int \<circ> held_class (dHeld d)"
    using assms(1) drops_idle_open [OF bucket(1)] drops_idle_fields [OF bucket(1)] drops_idle_keys [OF bucket(1), of "''''"]
    by (auto simp: door_ok_def)
  have active: "bActive b = open_of l1 (limit_key class caller)"
    using bucket(2,3) by (auto simp: open_of_def fresh_bucket_def)
  have len: "int (length (tput (limit_key class caller) x (lBuckets l1))) \<le> max 0 m" for x
    using bucket(2) ok(1-3) length_tput [OF ok(1), of "limit_key class caller" x] by auto
  have keys: "'''' \<notin> set (map fst (tput (limit_key class caller) x (lBuckets l1)))" for x
    using ok(4) by simp
  from bucket(4) show ?thesis
  proof (elim disjE conjE exE, goal_cases)
    case 1
    then show ?thesis using ok len keys active by (auto simp: door_ok_def admitted_def Let_def fun_eq_iff)
  qed (use ok len keys active in \<open>auto simp: door_ok_def admitted_def Let_def fun_eq_iff\<close>)
qed

lemma Acquire_in_bounds:
  assumes "door_ok policy m d" "in_bounds policy d" "CHR 0x00 \<notin> set class"
    and acq: "Acquire now ks class caller (policy class) (dLimiter d) = (r, l')"
  shows "in_bounds policy (admitted now class caller r l' d)"
  using acq door_ok_def [THEN iffD1, OF assms(1), THEN conjunct1]
proof (cases rule: Acquire_cases)
  case (full f l1)
  have dr: "drops_idle (dLimiter d) l'" "drops_idle l1 l'"
    using full drops_idle_trans [OF sweep_drops evict_drops] evict_drops assms(1) by (simp_all add: door_ok_def)
  have "map_of (lBuckets l') (limit_key class caller) = None" using drops_idle_at [OF dr(2)] full(5) by metis
  moreover have "map_of (lBuckets l') k = Some b \<Longrightarrow> map_of (lBuckets (dLimiter d)) k = Some b" for k b
    using drops_idle_at [OF dr(1), of k] by auto
  ultimately have bs: "map_of (lBuckets l') k = Some b \<Longrightarrow> map_of (lBuckets (dLimiter d)) k = Some b \<and> k \<noteq> limit_key class caller" for k b
    by auto
  show ?thesis
    unfolding in_bounds_def
  proof (intro allI impI conjI, goal_cases)
    case (3 c a x)
    then have "map_of (lBuckets l') (limit_key c a) = Some x" by (simp add: admitted_def Let_def)
    then show ?case using bs 3(1) assms(2) by (simp add: in_bounds_def admitted_def Let_def)
  qed (use assms(2) full(1) in \<open>simp_all add: in_bounds_def admitted_def Let_def\<close>)
next
  case (bucket l1 b0 b)
  define key where "key = limit_key class caller"
  define known where "known \<longleftrightarrow> map_of (lBuckets (sweep now (dLimiter d))) key \<noteq> None"
  define since where "since = (if known then dSince d key else now)"
  define n where "n = (if known then dAdmitted d key else 0)"
  have sw: "drops_idle (dLimiter d) (sweep now (dLimiter d))" using sweep_drops assms(1) by (simp add: door_ok_def)
  have others: "map_of (lBuckets l1) k = Some c \<Longrightarrow> map_of (lBuckets (dLimiter d)) k = Some c" for k c
    using drops_idle_at [OF bucket(1), of k] by auto
  have "rate_ok (policy class) since n b0"
  proof (cases known)
    case True
    then have "map_of (lBuckets (dLimiter d)) key = Some b0"
      using bucket(2) drops_idle_at [OF sw, of key] by (auto simp: known_def key_def)
    then show ?thesis using True assms(2,3) by (simp add: in_bounds_def since_def n_def key_def)
  next
    case False
    then show ?thesis using bucket(2) rate_ok_fresh by (simp add: known_def key_def since_def n_def)
  qed
  then have b: "rate_ok (policy class) since n b" using bucket(3) rate_ok_refill by simp
  have opened: "bActive b = int (held_key (dHeld d) key)" "lGlobal l1 class = int (held_class (dHeld d) class)"
  proof -
    have "bActive b = open_of l1 key" using bucket(2,3) by (auto simp: open_of_def fresh_bucket_def key_def)
    then show "bActive b = int (held_key (dHeld d) key)" using drops_idle_open [OF bucket(1)] assms(1) by (simp add: door_ok_def)
    show "lGlobal l1 class = int (held_class (dHeld d) class)" using drops_idle_fields [OF bucket(1)] assms(1) by (simp add: door_ok_def)
  qed
  have ad: "admitted now class caller r l' d = \<lparr>dLimiter = l', dHeld = (if r = None then (class, caller) # dHeld d else dHeld d),
      dSince = (dSince d)(key := since), dAdmitted = (dAdmitted d)(key := (if r = None then n + 1 else n))\<rparr>"
    by (cases "map_of (lBuckets (sweep now (dLimiter d))) key")
      (simp_all add: admitted_def Let_def key_def [symmetric] known_def since_def n_def)
  obtain b' where b': "lBuckets l' = tput key b' (lBuckets l1)" "rate_ok (policy class) since (if r = None then n + 1 else n) b'"
  proof (cases r)
    case None
    then show ?thesis using that [of "spend (policy class) b"] bucket(4) rate_ok_spend [OF b] by (simp add: key_def)
  next
    case (Some f)
    then show ?thesis using that [of b] bucket(4) b by (auto simp: key_def)
  qed
  have spare: "r = None \<Longrightarrow> (0 < pPerCaller (policy class) \<longrightarrow> int (held_key (dHeld d) key) < pPerCaller (policy class)) \<and>
      (0 < pGlobal (policy class) \<longrightarrow> int (held_class (dHeld d) class) < pGlobal (policy class))"
    using bucket(4) opened by auto
  show ?thesis
    unfolding in_bounds_def ad
  proof (intro allI impI conjI, goal_cases)
    case (1 c a)
    then show ?case using assms(2,3) spare by (auto simp: in_bounds_def key_def)
  next
    case (2 c a)
    then show ?case using assms(2) spare by (auto simp: in_bounds_def)
  next
    case (3 c a x)
    then show ?case using assms(2,3) b' others by (auto simp: in_bounds_def key_def split: if_splits)
  qed
qed

lemma release_keeps:
  fixes now :: int
  assumes "door_ok policy m d" "in_bounds policy d" "(class, caller) \<in> set (dHeld d)"
  defines "d' \<equiv> d\<lparr>dLimiter := Acquire_release now class caller (dLimiter d), dHeld := remove1 (class, caller) (dHeld d)\<rparr>"
  shows "door_ok policy m d'" "in_bounds policy d'"
proof -
  define key where "key = limit_key class caller"
  note rm = held_remove1 [OF assms(3)]
  have pos: "0 < open_of (dLimiter d) key" "0 < lGlobal (dLimiter d) class"
    using assms(1) rm(1) [of key] rm(2) [of "class"] by (simp_all add: door_ok_def key_def)
  then obtain b where b: "map_of (lBuckets (dLimiter d)) key = Some b" "0 < bActive b" "open_of (dLimiter d) key = bActive b"
    by (auto simp: open_of_def split: option.splits)
  define b' where "b' = b\<lparr>bActive := bActive b - 1, bLastSeen := now\<rparr>"
  have l': "Acquire_release now class caller (dLimiter d) =
      (put_bucket key b' (dLimiter d))\<lparr>lGlobal := (lGlobal (dLimiter d))(class := lGlobal (dLimiter d) class - 1)\<rparr>"
    using b pos by (simp add: Acquire_release_def Let_def key_def [symmetric] b'_def)
  have "length (tput key b' (lBuckets (dLimiter d))) = length (lBuckets (dLimiter d))"
    using length_tput [of "lBuckets (dLimiter d)"] b(1) assms(1) by (simp add: door_ok_def)
  then show "door_ok policy m d'"
    using assms(1) rm b(3) unfolding d'_def l'
    by (auto simp: door_ok_def fun_eq_iff key_def b'_def)
  show "in_bounds policy d'"
    unfolding in_bounds_def
  proof (intro allI impI conjI, goal_cases)
    case (1 c a)
    then have "int (held_key (dHeld d) (limit_key c a)) \<le> pPerCaller (policy c)" using assms(2) by (simp add: in_bounds_def)
    then show ?case using rm(1) [of "limit_key c a"] by (simp add: d'_def)
  next
    case (2 c a)
    then have "int (held_class (dHeld d) c) \<le> pGlobal (policy c)" using assms(2) by (simp add: in_bounds_def)
    then show ?case using rm(2) [of c] by (simp add: d'_def)
  next
    case (3 c a x)
    have "rate_ok (policy c) since n b' = rate_ok (policy c) since n b" for since n
      by (simp add: b'_def rate_ok_def)
    then show ?case using 3 assms(2) b(1) by (auto simp: in_bounds_def d'_def l' split: if_splits)
  qed
qed

lemma door_invariant: "door policy m ttl d \<Longrightarrow> door_ok policy m d \<and> in_bounds policy d"
proof (induction rule: door.induct)
  case opened
  show ?case by (simp add: door_ok_def in_bounds_def newWithClock_def open_of_def fun_eq_iff)
next
  case (asked d "class" now ks caller r l')
  then show ?case using Acquire_keeps Acquire_in_bounds by blast
next
  case (released d "class" caller now)
  then show ?case using release_keeps by blast
qed

definition refusal_due :: "(string \<Rightarrow> Policy) \<Rightarrow> string \<Rightarrow> string \<Rightarrow> string list \<Rightarrow> Refusal \<Rightarrow> Limiter \<Rightarrow> DoorState \<Rightarrow> bool" where
  "refusal_due policy class caller ks f l' d \<longleftrightarrow>
      (fReason f = ReasonCallerConcurrency \<longrightarrow> pPerCaller (policy class) \<le> int (count_list (dHeld d) (class, caller))) \<and>
      (fReason f = ReasonGlobalConcurrency \<longrightarrow> pGlobal (policy class) \<le> int (held_class (dHeld d) class)) \<and>
      (fReason f = ReasonCallers \<and> set (map fst (lBuckets (dLimiter d))) \<subseteq> set ks \<longrightarrow>
         list_all (\<lambda>(k, b). bActive b \<noteq> 0) (lBuckets l'))"

lemma door_classes: "door policy m ttl d \<Longrightarrow> list_all (\<lambda>h. CHR 0x00 \<notin> set (fst h)) (dHeld d)"
  by (induction rule: door.induct) (auto simp: admitted_def Let_def list_all_iff dest: notin_set_remove1)

lemma held_key_count:
  "list_all (\<lambda>h. CHR 0x00 \<notin> set (fst h)) held \<Longrightarrow> CHR 0x00 \<notin> set class \<Longrightarrow>
     held_key held (limit_key class caller) = count_list held (class, caller)"
  by (induction held) auto

lemma evict_room: "int (length (lBuckets (evictOldestIdle ks l))) \<ge> m \<Longrightarrow> int (length (lBuckets l)) \<le> max 0 m \<Longrightarrow>
    length (lBuckets (evictOldestIdle ks l)) = length (lBuckets l) \<or> lBuckets l = []"
  using drops_idle_fields(2) [OF evict_drops, of ks l] by (cases "m \<ge> 0") auto

lemma Acquire_refusal_due:
  assumes "door_ok policy m d" "list_all (\<lambda>h. CHR 0x00 \<notin> set (fst h)) (dHeld d)" "CHR 0x00 \<notin> set class"
    and acq: "Acquire now ks class caller (policy class) (dLimiter d) = (Some f, l')"
  shows "refusal_due policy class caller ks f l' d"
  using acq door_ok_def [THEN iffD1, OF assms(1), THEN conjunct1]
proof (cases rule: Acquire_cases)
  case (full f' l1)
  have sw: "drops_idle (dLimiter d) l1" using full(4) sweep_drops assms(1) by (simp add: door_ok_def)
  have "bActive b \<noteq> 0" if all: "set (map fst (lBuckets (dLimiter d))) \<subseteq> set ks" and b: "(k, b) \<in> set (lBuckets l')" for k b
  proof -
    have l1: "table_ok (lBuckets l1)" "'''' \<notin> set (map fst (lBuckets l1))" "int (length (lBuckets l1)) \<le> max 0 m" "lMaxCallers l1 = m"
      using assms(1) drops_idle_fields [OF sw] drops_idle_keys [OF sw, of "''''"] by (auto simp: door_ok_def)
    have "table_ok (lBuckets l')" using l1(1) full(3) drops_idle_fields(1) [OF evict_drops] by simp
    then have "map_of (lBuckets l') k = Some b" using map_of_is_SomeI [OF table_ok_distinct b] by simp
    then have mb: "map_of (lBuckets l1) k = Some b" using drops_idle_at [OF evict_drops [of l1 ks], of k] full(3) by auto
    have "lMaxCallers l' = m" using full(3) l1(4) drops_idle_fields(4) [OF evict_drops] by simp
    then have "length (lBuckets l') = length (lBuckets l1)"
      using evict_room [of m ks l1] full(3,6) l1(3) mb by auto
    moreover have "set (map fst (lBuckets l1)) \<subseteq> set ks" using all drops_idle_keys [OF sw] by blast
    ultimately show ?thesis using evict_makes_room [of l1 ks k b] l1(2) mb full(3) by simp
  qed
  then show ?thesis using full(1,2) by (auto simp: refusal_due_def list_all_iff)
next
  case (bucket l1 b0 b)
  have "bActive b = open_of l1 (limit_key class caller)"
    using bucket(2,3) by (auto simp: open_of_def fresh_bucket_def)
  then have "bActive b = int (count_list (dHeld d) (class, caller))" "lGlobal l1 class = int (held_class (dHeld d) class)"
    using drops_idle_open [OF bucket(1)] drops_idle_fields(3) [OF bucket(1)] assms(1) held_key_count [OF assms(2,3)]
    by (simp_all add: door_ok_def)
  then show ?thesis using bucket(4) by (auto simp: refusal_due_def rate_refusal_def Let_def)
qed

text \<open>C37: The limiter bounds what it says it bounds, in any run of requests and releases on a door whose
  route classes each have one policy. The requests a caller has open never exceed its policy's bound, nor
  do those of all callers of a class; the caller map never exceeds its limit; the requests admitted to a
  caller since its bucket was made never exceed the burst plus the rate times the time its bucket has
  seen. And a refusal is never spurious: one for concurrency is answered only while the caller, or the
  class, really has that many requests open, one for too many callers only if every caller in the map has
  one open.\<close>

theorem limiter_bounds:
  assumes "door policy m ttl d" "CHR 0x00 \<notin> set class"
  shows "(0 < pPerCaller (policy class) \<longrightarrow> int (count_list (dHeld d) (class, caller)) \<le> pPerCaller (policy class)) \<and>
    (0 < pGlobal (policy class) \<longrightarrow> int (held_class (dHeld d) class) \<le> pGlobal (policy class)) \<and>
    int (length (lBuckets (dLimiter d))) \<le> max 0 m \<and>
    (\<forall>b. map_of (lBuckets (dLimiter d)) (limit_key class caller) = Some b \<and> 0 < pRate (policy class) \<and> 0 < pBurst (policy class) \<longrightarrow>
      of_nat (dAdmitted d (limit_key class caller)) \<le> of_int (pBurst (policy class)) +
        of_int (bLast b - dSince d (limit_key class caller)) / of_int second * pRate (policy class)) \<and>
    (\<forall>now ks f l'. Acquire now ks class caller (policy class) (dLimiter d) = (Some f, l') \<longrightarrow> refusal_due policy class caller ks f l' d)"
proof -
  have ok: "door_ok policy m d" "in_bounds policy d" "list_all (\<lambda>h. CHR 0x00 \<notin> set (fst h)) (dHeld d)"
    using door_invariant [OF assms(1)] door_classes [OF assms(1)] by simp_all
  then have "held_key (dHeld d) (limit_key class caller) = count_list (dHeld d) (class, caller)"
    using held_key_count assms(2) by blast
  moreover have "rate_ok (policy class) (dSince d (limit_key class caller)) (dAdmitted d (limit_key class caller)) b"
    if "map_of (lBuckets (dLimiter d)) (limit_key class caller) = Some b" for b
    using ok(2) assms(2) that by (simp add: in_bounds_def)
  then have "of_nat (dAdmitted d (limit_key class caller)) \<le> of_int (pBurst (policy class)) +
        of_int (bLast b - dSince d (limit_key class caller)) / of_int second * pRate (policy class)"
    if "map_of (lBuckets (dLimiter d)) (limit_key class caller) = Some b" "0 < pRate (policy class)" "0 < pBurst (policy class)" for b
    using that unfolding rate_ok_def by fastforce
  ultimately show ?thesis
    using ok(1,2) assms(2) Acquire_refusal_due [OF ok(1,3) assms(2)]
    by (intro conjI) (simp_all add: in_bounds_def door_ok_def, metis)
qed

definition demo_ask :: "int \<Rightarrow> DoorState \<Rightarrow> DoorState" where
  "demo_ask now d = (case Acquire now [] ''transfer'' ''C1'' replTransferPolicy (dLimiter d) of
     (r, l') \<Rightarrow> admitted now ''transfer'' ''C1'' r l' d)"

definition demo_door :: DoorState where
  "demo_door = demo_ask 9 (demo_ask 5 \<lparr>dLimiter = newWithClock 16384 600, dHeld = [], dSince = (\<lambda>_. 0), dAdmitted = (\<lambda>_. 0)\<rparr>)"

lemma demo_ask_door:
  "door (\<lambda>_. replTransferPolicy) m ttl d \<Longrightarrow> door (\<lambda>_. replTransferPolicy) m ttl (demo_ask now d)"
  by (auto simp: demo_ask_def split: prod.splits intro!: asked)

lemmas limiter_eval = limit_policy_def demo_door_def demo_ask_def Acquire_def caller_bucket_def sweep_def refill_def put_bucket_def
  admitted_def newWithClock_def replTransferPolicy_def limit_key_def second_def rate_refusal_def held_class_def

theorem limiter_bounds_witness:
  "door (\<lambda>_. replTransferPolicy) 16384 600 demo_door \<and> CHR 0x00 \<notin> set ''transfer'' \<and>
   count_list (dHeld demo_door) (''transfer'', ''C1'') = 2 \<and>
   int (count_list (dHeld demo_door) (''transfer'', ''C1'')) \<le> pPerCaller replTransferPolicy \<and>
   map_option fReason (fst (Acquire 10 [] ''transfer'' ''C1'' replTransferPolicy (dLimiter demo_door))) = Some ReasonCallerConcurrency \<and>
   int (held_class (dHeld demo_door) ''transfer'') \<le> 32"
proof -
  have d: "door (\<lambda>_. replTransferPolicy) 16384 600 demo_door"
    unfolding demo_door_def by (intro demo_ask_door opened)
  have c: "CHR 0x00 \<notin> set ''transfer''" by simp
  show ?thesis
    using limiter_bounds [OF d c, of "''C1''"] d c
    by (simp add: limiter_eval Let_def)
qed

end
