(* ===== verification/Engine_Ledger.thy ===== *)
theory Engine_Ledger
  imports Store_Types Uns_Topic
begin

text \<open>
  The command ledger of the engine (\<^verbatim>\<open>internal/engine/ledger.go\<close>): what keeps a resent command from
  running twice, who an ack belongs to, and how the doors use it. Entries are a table by correlation id, the
  expiry queue a list; a time is a number of nanoseconds, and the clock of an operation is the argument
  \<^verbatim>\<open>now\<close>. What an operation hands to the broker is the list of messages it delivers.
\<close>

section \<open>The ledger\<close>

definition ledgerWindow :: int where "ledgerWindow = 600 * 1000000000"
definition ledgerLimit :: nat where "ledgerLimit = 16384"
definition refusalLimit :: nat where "refusalLimit = 16"

record refusal =
  rfActor :: string
  rfAck :: bytes

record ledgerEntry =
  leActor :: string
  leAt :: int
  leAckTopic :: string
  leAck :: slice
  leRefused :: "refusal list"

record commandLedger =
  lEntries :: "(string, ledgerEntry) table"
  lOrder :: "(string \<times> int) list"

definition newCommandLedger :: commandLedger where
  "newCommandLedger = \<lparr>lEntries = [], lOrder = []\<rparr>"

text \<open>\<^verbatim>\<open>correlationID\<close>: a payload that does not decode has none.\<close>

definition correlationID :: "bytes \<Rightarrow> string" where
  "correlationID payload =
     (case unmarshal_doc payload of
        None \<Rightarrow> ''''
      | Some doc \<Rightarrow> (case field as_string '''' ''correlation_id'' doc of None \<Rightarrow> '''' | Some i \<Rightarrow> i))"

datatype ledgerVerdict = ledgerNew | ledgerRepeat | ledgerForeignUse

fun expire_keys :: "int \<Rightarrow> (string, ledgerEntry) table \<Rightarrow> (string \<times> int) list \<Rightarrow> (string, ledgerEntry) table \<times> (string \<times> int) list" where
  "expire_keys now entries [] = (entries, [])"
| "expire_keys now entries ((i, at) # order) =
     (if now - at < ledgerWindow \<and> length entries < ledgerLimit then (entries, (i, at) # order)
      else expire_keys now
             (case map_of entries i of
                Some held \<Rightarrow> if leAt held = at then tdel i entries else entries
              | None \<Rightarrow> entries) order)"

definition expire :: "int \<Rightarrow> commandLedger \<Rightarrow> commandLedger" where
  "expire now l =
     (let (entries, order) = expire_keys now (lEntries l) (lOrder l) in \<lparr>lEntries = entries, lOrder = order\<rparr>)"

definition admit :: "int \<Rightarrow> string \<Rightarrow> string \<Rightarrow> commandLedger \<Rightarrow> (ledgerVerdict \<times> string \<times> slice) \<times> commandLedger" where
  "admit now i actor l =
     (let l = expire now l in
      case map_of (lEntries l) i of
        Some held \<Rightarrow>
          if leActor held \<noteq> actor then ((ledgerForeignUse, '''', None), l)
          else ((ledgerRepeat, leAckTopic held, leAck held), l)
      | None \<Rightarrow>
          ((ledgerNew, '''', None),
           \<lparr>lEntries = tput i \<lparr>leActor = actor, leAt = now, leAckTopic = '''', leAck = None, leRefused = []\<rparr> (lEntries l),
            lOrder = lOrder l @ [(i, now)]\<rparr>))"

definition forget :: "string \<Rightarrow> commandLedger \<Rightarrow> commandLedger" where
  "forget i l = l\<lparr>lEntries := tdel i (lEntries l)\<rparr>"

section \<open>Acks without their result\<close>

text \<open>The members of a valid object with the text of their values, as \<^verbatim>\<open>json.RawMessage\<close> keeps it.\<close>

function raw_members :: "string \<Rightarrow> (string \<times> string) list" where
  "raw_members s =
     (case skip_space s of
        [] \<Rightarrow> []
      | q # r \<Rightarrow>
          (case json_string r of
             None \<Rightarrow> []
           | Some (k, r1) \<Rightarrow>
               (case skip_space r1 of
                  [] \<Rightarrow> []
                | c # r2 \<Rightarrow>
                    (case json_value 9999 r2 of
                       None \<Rightarrow> []
                     | Some (v, r3) \<Rightarrow>
                         (k, take (length (skip_space r2) - length r3) (skip_space r2)) #
                         (case skip_space r3 of
                            [] \<Rightarrow> []
                          | c' # r4 \<Rightarrow> if c' = CHR '','' \<and> length r4 < length s then raw_members r4 else [])))))"
  by pat_completeness auto
termination
  by (relation "measure length") auto

declare raw_members.simps [simp del]

text \<open>What \<^verbatim>\<open>json.Marshal\<close> does to such text: blanks outside strings go, and the characters HTML or
  JavaScript would read otherwise are escaped. The flag says whether the text is inside a string.\<close>

fun compact_raw :: "bool \<Rightarrow> string \<Rightarrow> string" where
  "compact_raw quoted [] = []"
| "compact_raw quoted (c # cs) =
     (if c = CHR ''<'' then backslash # ''u003c'' @ compact_raw quoted cs
      else if c = CHR ''>'' then backslash # ''u003e'' @ compact_raw quoted cs
      else if c = CHR ''&'' then backslash # ''u0026'' @ compact_raw quoted cs
      else if \<not> quoted \<and> json_space c then compact_raw quoted cs
      else if c = quote_char then c # compact_raw (\<not> quoted) cs
      else case cs of
        d # ds \<Rightarrow>
          if quoted \<and> c = backslash then c # d # compact_raw quoted ds
          else (case ds of
            e # es \<Rightarrow>
              if byte c = 226 \<and> byte d = 128 \<and> (byte e = 168 \<or> byte e = 169)
              then backslash # ''u202'' @ (if byte e = 168 then ''8'' else ''9'') @ compact_raw quoted es
              else c # compact_raw quoted cs
          | [] \<Rightarrow> c # compact_raw quoted cs)
      | [] \<Rightarrow> c # compact_raw quoted cs)"

text \<open>\<^verbatim>\<open>json.Unmarshal\<close> into a map keeps the last value of a key.\<close>

definition raw_fields :: "bytes \<Rightarrow> (string, string) table" where
  "raw_fields payload = fold (\<lambda>(k, v). tput k v) (raw_members (drop 1 (skip_space payload))) []"

definition withoutResult :: "bytes \<Rightarrow> bytes" where
  "withoutResult payload =
     (if \<not> contains_str payload (quote_char # ''result'' @ [quote_char]) then payload
      else case unmarshal_doc payload of
        None \<Rightarrow> payload
      | Some _ \<Rightarrow>
          let fields = raw_fields payload in
          if map_of fields ''result'' = None then payload
          else json_object (map (\<lambda>(k, v). (k, Some (compact_raw False v))) (tdel ''result'' fields)))"

text \<open>\<^verbatim>\<open>append([]byte(nil), payload...)\<close> of no bytes is nil.\<close>

definition acked :: "string \<Rightarrow> string \<Rightarrow> bytes \<Rightarrow> commandLedger \<Rightarrow> commandLedger" where
  "acked i topic payload l =
     (let payload = withoutResult payload in
      case map_of (lEntries l) i of
        Some held \<Rightarrow>
          if leAck held = None
          then l\<lparr>lEntries := tput i (held\<lparr>leAckTopic := topic, leAck := (if payload = [] then None else Some payload)\<rparr>) (lEntries l)\<rparr>
          else l
      | None \<Rightarrow> l)"

section \<open>Who an ack goes to\<close>

definition refuse :: "string \<Rightarrow> string \<Rightarrow> bytes \<Rightarrow> commandLedger \<Rightarrow> commandLedger" where
  "refuse i actor ack l =
     (case map_of (lEntries l) i of
        Some held \<Rightarrow>
          let refused = (if length (leRefused held) \<ge> refusalLimit then drop 1 (leRefused held) else leRefused held) in
          l\<lparr>lEntries := tput i (held\<lparr>leRefused := refused @ [\<lparr>rfActor = actor, rfAck = ack\<rparr>]\<rparr>) (lEntries l)\<rparr>
      | None \<Rightarrow> l)"

text \<open>The first refusal with these bytes, and the others.\<close>

fun take_refusal :: "bytes \<Rightarrow> refusal list \<Rightarrow> (string \<times> refusal list) option" where
  "take_refusal payload [] = None"
| "take_refusal payload (r # rs) =
     (if rfAck r = payload then Some (rfActor r, rs)
      else map_option (\<lambda>(a, rest). (a, r # rest)) (take_refusal payload rs))"

definition recipient :: "string \<Rightarrow> bytes \<Rightarrow> commandLedger \<Rightarrow> string \<times> commandLedger" where
  "recipient i payload l =
     (case map_of (lEntries l) i of
        None \<Rightarrow> ('''', l)
      | Some held \<Rightarrow>
          (case take_refusal payload (leRefused held) of
             Some (actor, rest) \<Rightarrow> (actor, l\<lparr>lEntries := tput i (held\<lparr>leRefused := rest\<rparr>) (lEntries l)\<rparr>)
           | None \<Rightarrow> (leActor held, l)))"

definition lookup :: "string \<Rightarrow> commandLedger \<Rightarrow> string \<times> string \<times> slice" where
  "lookup i l =
     (case map_of (lEntries l) i of
        Some held \<Rightarrow> (leActor held, leAckTopic held, leAck held)
      | None \<Rightarrow> ('''', '''', None))"

section \<open>The doors\<close>

text \<open>A message for the broker: topic and payload. \<^verbatim>\<open>wired\<close> says whether the engine has a broker.\<close>

type_synonym delivery = "string \<times> bytes"

text \<open>The refusal's text: a \<^verbatim>\<open>CommandOutcome\<close> with code 422.\<close>

definition foreign_use_ack :: "string \<Rightarrow> bytes" where
  "foreign_use_ack i = json_object
     [(''correlation_id'', Some (json_quote i)), (''result_code'', Some (json_int 422)),
      (''message'', Some (json_quote ''correlation id already used by another sender's command''))]"

definition refuseForeignUse :: "string \<Rightarrow> bool \<Rightarrow> Parsed \<Rightarrow> string \<Rightarrow> string \<Rightarrow> commandLedger \<Rightarrow> delivery list \<times> commandLedger" where
  "refuseForeignUse rt wired p i actor l =
     (if \<not> wired then ([], l)
      else let ack = foreign_use_ack i in
        ([(Prefix rt @ ''_Ack/'' @ pNodeID p @ ''/'' @ pPath p, ack)], refuse i actor ack l))"

datatype admit_error = ForeignCorrelation string

text \<open>\<^verbatim>\<open>admitCommand\<close>: the id to forget if the command is not accepted after all and whether the command is
  a repeat, or the refusal; with what it delivers.\<close>

definition admitCommand :: "string \<Rightarrow> bool \<Rightarrow> int \<Rightarrow> Parsed \<Rightarrow> bytes \<Rightarrow> string \<Rightarrow> commandLedger \<Rightarrow>
    (admit_error + string \<times> bool) \<times> delivery list \<times> commandLedger" where
  "admitCommand rt wired now p payload actor l =
     (let i = correlationID payload in
      if i = '''' then (Inr ('''', False), [], l)
      else case admit now i actor l of
        ((ledgerForeignUse, _, _), l) \<Rightarrow> (Inl (ForeignCorrelation i), refuseForeignUse rt wired p i actor l)
      | ((ledgerRepeat, ackTopic, ack), l) \<Rightarrow>
          (Inr ('''', True), (case ack of Some a \<Rightarrow> if wired then [(ackTopic, a)] else [] | None \<Rightarrow> []), l)
      | ((ledgerNew, _, _), l) \<Rightarrow> (Inr (i, False), [], l))"

text \<open>The routing class of a contract by the active authority: the loaded bundle, or the built-in classes.\<close>

definition builtinOnly :: "string \<Rightarrow> bool" where
  "builtinOnly contract \<longleftrightarrow> contract = ''_StreamGap'' \<or> contract = ''_EnrolledIdentity''"

definition Engine_ClassOf :: "(string \<rightharpoonup> Class) option \<Rightarrow> string \<Rightarrow> Class" where
  "Engine_ClassOf contracts contract =
     (case contracts of
        None \<Rightarrow> ClassOf contract
      | Some t \<Rightarrow> if builtinOnly contract then ClassOf contract
                 else (case t contract of Some c \<Rightarrow> c | None \<Rightarrow> ClassNone))"

definition AckRecipient :: "(string \<rightharpoonup> Class) option \<Rightarrow> string \<Rightarrow> bytes \<Rightarrow> commandLedger \<Rightarrow> (string \<times> bool) \<times> commandLedger" where
  "AckRecipient contracts topic payload l =
     (case Parse topic of
        Inl _ \<Rightarrow> (('''', False), l)
      | Inr p \<Rightarrow>
          if \<not> IsAck (Engine_ClassOf contracts (pContract p)) then (('''', False), l)
          else let i = correlationID payload in
            if i = '''' then (('''', True), l)
            else let (actor, l) = recipient i payload l in ((actor, True), l))"

section \<open>What the ledger keeps\<close>

text \<open>Every entry still has its key in the queue, so expiry reaches it; one key for each entry.\<close>

definition queued :: "(string, ledgerEntry) table \<Rightarrow> (string \<times> int) list \<Rightarrow> bool" where
  "queued entries order \<longleftrightarrow> table_ok entries \<and> (\<forall>i e. map_of entries i = Some e \<longrightarrow> (i, leAt e) \<in> set order)"

definition ledger_ok :: "commandLedger \<Rightarrow> bool" where
  "ledger_ok l \<longleftrightarrow> queued (lEntries l) (lOrder l) \<and> length (lEntries l) \<le> ledgerLimit"

definition drop_key :: "string \<times> int \<Rightarrow> (string, ledgerEntry) table \<Rightarrow> (string, ledgerEntry) table" where
  "drop_key k entries = (case map_of entries (fst k) of
      Some held \<Rightarrow> if leAt held = snd k then tdel (fst k) entries else entries | None \<Rightarrow> entries)"

lemma expire_keys_Cons:
  "expire_keys now entries (k # order) =
     (if now - snd k < ledgerWindow \<and> length entries < ledgerLimit then (entries, k # order)
      else expire_keys now (drop_key k entries) order)"
  unfolding drop_key_def by (cases k) (simp only: expire_keys.simps fst_conv snd_conv)

lemma queued_drop: "queued entries (k # order) \<Longrightarrow> queued (drop_key k entries) order"
proof (cases "\<exists>held. map_of entries (fst k) = Some held \<and> leAt held = snd k")
  case True
  assume "queued entries (k # order)"
  then show ?thesis using True by (cases k) (fastforce simp: queued_def drop_key_def split: if_splits)
next
  case False
  assume "queued entries (k # order)"
  then have "queued entries order" using False by (cases k) (fastforce simp: queued_def)
  then show ?thesis using False by (auto simp: drop_key_def split: option.splits)
qed

lemma drop_key_length: "length (drop_key k entries) \<le> length entries"
  by (auto simp: drop_key_def tdel_def split: option.splits)

lemma queued_entries: "queued entries order \<Longrightarrow> length entries \<le> card (fst ` set order)"
proof -
  assume q: "queued entries order"
  have "fst ` set entries \<subseteq> fst ` set order"
    using q by (force simp: queued_def dest: map_of_is_SomeI [OF table_ok_distinct])
  moreover have "length entries = card (fst ` set entries)"
    using q table_ok_distinct [of entries] distinct_card [of "map fst entries"] by (simp add: queued_def)
  ultimately show ?thesis by (simp add: card_mono)
qed

text \<open>After an expiry there is room for one more entry.\<close>

lemma expire_keys_ok:
  "queued entries order \<Longrightarrow> length entries \<le> ledgerLimit \<Longrightarrow> expire_keys now entries order = (entries', order') \<Longrightarrow>
     queued entries' order' \<and> length entries' < ledgerLimit"
proof (induction order arbitrary: entries)
  case Nil
  then show ?case using queued_entries [OF Nil(1)] by (simp add: ledgerLimit_def)
next
  case (Cons k order)
  show ?case
  proof (cases "now - snd k < ledgerWindow \<and> length entries < ledgerLimit")
    case True
    then show ?thesis using Cons.prems by (simp add: expire_keys_Cons)
  next
    case False
    then have "expire_keys now (drop_key k entries) order = (entries', order')"
      using Cons.prems(3) unfolding expire_keys_Cons if_not_P [OF False] by simp
    then show ?thesis
      using Cons.IH [OF queued_drop [OF Cons.prems(1)]] Cons.prems(2) drop_key_length [of k entries] by simp
  qed
qed

lemma expire_ok: "ledger_ok l \<Longrightarrow> ledger_ok (expire now l) \<and> length (lEntries (expire now l)) < ledgerLimit"
  using expire_keys_ok [of "lEntries l" "lOrder l" now]
  by (cases "expire_keys now (lEntries l) (lOrder l)") (auto simp: ledger_ok_def expire_def)

section \<open>Runs of the ledger\<close>

datatype ledger_op = Admit string string | Forget string | Acked string string bytes
  | Refuse string string bytes | Recipient string bytes

fun ledger_do :: "int \<times> ledger_op \<Rightarrow> commandLedger \<Rightarrow> commandLedger" where
  "ledger_do (now, Admit i actor) l = snd (admit now i actor l)"
| "ledger_do (now, Forget i) l = forget i l"
| "ledger_do (now, Acked i topic payload) l = acked i topic payload l"
| "ledger_do (now, Refuse i actor ack) l = refuse i actor ack l"
| "ledger_do (now, Recipient i payload) l = snd (recipient i payload l)"

definition ledger_run :: "(int \<times> ledger_op) list \<Rightarrow> commandLedger \<Rightarrow> commandLedger" where
  "ledger_run ops l = fold ledger_do ops l"

text \<open>The ack a repeat of command \<^verbatim>\<open>i\<close> gets after these operations: the first one with content.\<close>

fun first_ack :: "string \<Rightarrow> string \<times> slice \<Rightarrow> (int \<times> ledger_op) list \<Rightarrow> string \<times> slice" where
  "first_ack i ack [] = ack"
| "first_ack i ack ((_, Acked j topic payload) # ops) =
     first_ack i (if j = i \<and> snd ack = None
       then (topic, if withoutResult payload = [] then None else Some (withoutResult payload)) else ack) ops"
| "first_ack i ack (_ # ops) = first_ack i ack ops"

fun admits :: "(int \<times> ledger_op) list \<Rightarrow> string list" where
  "admits [] = []"
| "admits ((_, Admit j _) # ops) = j # admits ops"
| "admits (_ # ops) = admits ops"

text \<open>An operation on one entry, which keeps who sent the command and when.\<close>


lemma touched_ok:
  assumes "ledger_ok l" "map_of (lEntries l) i = Some held" "leAt held' = leAt held"
  shows "ledger_ok (l\<lparr>lEntries := tput i held' (lEntries l)\<rparr>)"
  using assms by (auto simp: ledger_ok_def queued_def length_tput)

lemma ledger_do_ok: "ledger_ok l \<Longrightarrow> ledger_ok (ledger_do op l)"
proof (cases "(op, l)" rule: ledger_do.cases)
  case (1 now i actor l')
  assume ok: "ledger_ok l"
  define l1 where "l1 = expire now l"
  note x = expire_ok [OF ok, of now, folded l1_def]
  define e where "e = \<lparr>leActor = actor, leAt = now, leAckTopic = '''', leAck = None, leRefused = []\<rparr>"
  have "length (tput i e (lEntries l1)) \<le> Suc (length (lEntries l1))"
    using x length_tput [of "lEntries l1" i e] by (simp add: ledger_ok_def queued_def)
  then have "ledger_ok \<lparr>lEntries = tput i e (lEntries l1), lOrder = lOrder l1 @ [(i, now)]\<rparr>"
    using x by (auto simp: ledger_ok_def queued_def e_def)
  then show ?thesis
    using 1 x by (auto simp: admit_def Let_def l1_def e_def split: option.splits)
next
  case (2 now i l')
  assume ok: "ledger_ok l"
  then have "length (tdel i (lEntries l)) \<le> ledgerLimit"
    using le_trans [OF length_filter_le] unfolding tdel_def ledger_ok_def by blast
  then show ?thesis using 2 ok by (auto simp: forget_def ledger_ok_def queued_def split: if_splits)
next
  case (3 now i topic payload l')
  assume "ledger_ok l"
  then show ?thesis using 3 touched_ok [of l i] by (auto simp: acked_def Let_def split: option.splits)
next
  case (4 now i actor ack l')
  assume "ledger_ok l"
  then show ?thesis using 4 touched_ok [of l i] by (auto simp: refuse_def Let_def split: option.splits)
next
  case (5 now i payload l')
  assume "ledger_ok l"
  then show ?thesis using 5 touched_ok [of l i] by (auto simp: recipient_def split: option.splits)
qed

lemma ledger_run_ok: "ledger_ok l \<Longrightarrow> ledger_ok (ledger_run ops l)"
  by (induction ops arbitrary: l) (auto simp: ledger_run_def ledger_do_ok)

lemma newCommandLedger_ok: "ledger_ok newCommandLedger"
  by (simp add: ledger_ok_def queued_def newCommandLedger_def)

section \<open>A command runs at most once\<close>

text \<open>The ledger holds command \<^verbatim>\<open>i\<close> of \<^verbatim>\<open>actor\<close> admitted at \<^verbatim>\<open>t\<close>, with at most the ids \<^verbatim>\<open>ids\<close> behind it in
  the queue.\<close>

definition holding :: "string \<Rightarrow> string \<Rightarrow> int \<Rightarrow> string set \<Rightarrow> string \<times> slice \<Rightarrow> commandLedger \<Rightarrow> bool" where
  "holding i actor t ids ack l \<longleftrightarrow> ledger_ok l \<and>
     (\<exists>xs ys. lOrder l = xs @ (i, t) # ys \<and> (i, t) \<notin> set xs \<and> fst ` set ys \<subseteq> ids) \<and>
     (\<exists>e. map_of (lEntries l) i = Some e \<and> leActor e = actor \<and> leAt e = t \<and> (leAckTopic e, leAck e) = ack)"

text \<open>Expiry stops at the command's key while it is young and few ids are behind it.\<close>

lemma expire_keys_holds:
  assumes "queued entries (xs @ (i, t) # ys)" "(i, t) \<notin> set xs" "map_of entries i = Some e" "leAt e = t"
    and "now - t < ledgerWindow" "card (insert i (fst ` set ys)) < ledgerLimit"
    and "expire_keys now entries (xs @ (i, t) # ys) = (entries', order')"
  shows "map_of entries' i = Some e \<and> (\<exists>xs'. order' = xs' @ (i, t) # ys \<and> (i, t) \<notin> set xs')"
  using assms(1-3,7)
proof (induction xs arbitrary: entries)
  case Nil
  have "length entries < ledgerLimit" using queued_entries [OF Nil(1)] assms(6) by simp
  then show ?case using Nil assms(5) by (auto simp: expire_keys_Cons)
next
  case (Cons k xs)
  show ?case
  proof (cases "now - snd k < ledgerWindow \<and> length entries < ledgerLimit")
    case True
    then have "entries' = entries \<and> order' = (k # xs) @ (i, t) # ys"
      using Cons.prems(4) unfolding append_Cons expire_keys_Cons if_P [OF True] by simp
    then show ?thesis using Cons.prems(2,3) by blast
  next
    case False
    have rest: "expire_keys now (drop_key k entries) (xs @ (i, t) # ys) = (entries', order')"
      using Cons.prems(4) unfolding append_Cons expire_keys_Cons if_not_P [OF False] by simp
    have "k \<noteq> (i, t)" using Cons.prems(2) by auto
    then have "map_of (drop_key k entries) i = Some e"
      using Cons.prems(3) assms(4) by (cases k) (auto simp: drop_key_def split: option.splits)
    then show ?thesis using Cons.IH [OF queued_drop _ _ rest] Cons.prems(1,2) by simp
  qed
qed

lemma expire_holding:
  assumes "holding i actor t ids ack l" "now - t < ledgerWindow" "finite ids" "card (insert i ids) < ledgerLimit"
  shows "holding i actor t ids ack (expire now l)"
proof -
  obtain xs ys e where l: "lOrder l = xs @ (i, t) # ys" "(i, t) \<notin> set xs" "fst ` set ys \<subseteq> ids"
    and e: "map_of (lEntries l) i = Some e" "leActor e = actor" "leAt e = t" "(leAckTopic e, leAck e) = ack"
    using assms(1) unfolding holding_def by blast
  have ok: "ledger_ok l" using assms(1) by (simp add: holding_def)
  have "card (insert i (fst ` set ys)) \<le> card (insert i ids)" using l(3) assms(3) by (intro card_mono) auto
  then have few: "card (insert i (fst ` set ys)) < ledgerLimit" using assms(4) by simp
  obtain entries' order' where x: "expire_keys now (lEntries l) (lOrder l) = (entries', order')" by fastforce
  have "map_of entries' i = Some e \<and> (\<exists>xs'. order' = xs' @ (i, t) # ys \<and> (i, t) \<notin> set xs')"
    using expire_keys_holds [OF _ l(2) e(1,3) assms(2) few, of entries' order'] ok x l(1)
    by (simp add: ledger_ok_def)
  then show ?thesis
    using e l(3) x expire_ok [OF ok, of now] unfolding holding_def by (auto simp: expire_def)
qed

lemma held_verdict:
  assumes "holding i actor t ids ack l" "now - t < ledgerWindow" "finite ids" "card (insert i ids) < ledgerLimit"
  shows "admit now i actor' l =
    ((if actor' = actor then (ledgerRepeat, ack) else (ledgerForeignUse, '''', None)), expire now l)"
  using expire_holding [OF assms] by (auto simp: holding_def admit_def Let_def)

lemma holding_touched:
  assumes "holding i actor t ids ack l" "map_of (lEntries l) j = Some held" "leAt held' = leAt held" "leActor held' = leActor held"
  shows "holding i actor t ids (if j = i then (leAckTopic held', leAck held') else ack) (l\<lparr>lEntries := tput j held' (lEntries l)\<rparr>)"
  using assms touched_ok [OF _ assms(2,3)] by (auto simp: holding_def)

lemma holding_refused:
  assumes "holding i actor t ids ack l" "map_of (lEntries l) j = Some held"
  shows "holding i actor t ids ack (l\<lparr>lEntries := tput j (held\<lparr>leRefused := x\<rparr>) (lEntries l)\<rparr>)"
proof -
  have "j = i \<Longrightarrow> (leAckTopic held, leAck held) = ack" using assms by (auto simp: holding_def)
  then show ?thesis using holding_touched [OF assms, of "held\<lparr>leRefused := x\<rparr>"] by (cases "j = i") simp_all
qed

lemma ledger_do_holding:
  assumes "holding i actor t (set js) ack l" "fst op - t < ledgerWindow" "card (insert i (set (js @ admits [op]))) < ledgerLimit"
    and "snd op \<noteq> Forget i"
  shows "holding i actor t (set (js @ admits [op])) (first_ack i ack [op]) (ledger_do op l)"
proof (cases "(op, l)" rule: ledger_do.cases)
  case (1 now j actor' l')
  have few: "card (insert i (set js)) < ledgerLimit"
    using assms(3) le_less_trans [OF card_mono [of "insert i (set (js @ admits [op]))" "insert i (set js)"]] by auto
  have now: "now - t < ledgerWindow" using 1 assms(2) by simp
  note x = expire_holding [OF assms(1) now _ few, simplified]
  show ?thesis
  proof (cases "map_of (lEntries (expire now l)) j")
    case None
    then have "j \<noteq> i" using x by (auto simp: holding_def)
    obtain xs ys where o: "lOrder (expire now l) = xs @ (i, t) # ys" "(i, t) \<notin> set xs" "fst ` set ys \<subseteq> set js"
      using x unfolding holding_def by blast
    have "lOrder (ledger_do op l) = xs @ (i, t) # ys @ [(j, now)] \<and> fst ` set (ys @ [(j, now)]) \<subseteq> set (js @ admits [op])"
      using 1 None o(1,3) by (auto simp: admit_def Let_def)
    moreover have "ledger_ok (ledger_do op l)" using ledger_do_ok assms(1) by (simp add: holding_def)
    moreover have "map_of (lEntries (ledger_do op l)) i = map_of (lEntries (expire now l)) i" "first_ack i ack [op] = ack"
      using 1 None \<open>j \<noteq> i\<close> by (simp_all add: admit_def Let_def)
    ultimately show ?thesis using x o(2) unfolding holding_def by metis
  next
    case (Some held)
    then show ?thesis using x 1 unfolding holding_def by (auto simp: admit_def Let_def)
  qed
next
  case (2 now j l')
  have "ledger_ok (ledger_do op l)" using ledger_do_ok assms(1) by (simp add: holding_def)
  then show ?thesis using 2 assms(1,4) by (auto simp: holding_def forget_def)
next
  case (3 now j topic payload l')
  show ?thesis
  proof (cases "map_of (lEntries l) j")
    case None
    then show ?thesis using 3 assms(1) by (auto simp: acked_def Let_def holding_def)
  next
    case (Some held)
    define held' where "held' = held\<lparr>leAckTopic := topic, leAck := (if withoutResult payload = [] then None else Some (withoutResult payload))\<rparr>"
    have mine: "j = i \<Longrightarrow> (leAckTopic held, leAck held) = ack" using assms(1) Some by (auto simp: holding_def)
    have "holding i actor t (set js) (if j = i then (leAckTopic held', leAck held') else ack) (l\<lparr>lEntries := tput j held' (lEntries l)\<rparr>)"
      using holding_touched [OF assms(1) Some, of held'] by (simp add: held'_def)
    moreover have "ledger_do op l = (if leAck held = None then l\<lparr>lEntries := tput j held' (lEntries l)\<rparr> else l)"
      using 3 Some by (simp add: acked_def Let_def held'_def)
    moreover have "first_ack i ack [op] = (if j = i \<and> leAck held = None then (leAckTopic held', leAck held') else ack)"
      using 3 mine by (auto simp: held'_def)
    moreover have "set (js @ admits [op]) = set js" using 3 by simp
    ultimately show ?thesis using assms(1) by (cases "leAck held") (auto split: if_splits)
  qed
next
  case (4 now j actor' ack' l')
  show ?thesis
  proof (cases "map_of (lEntries l) j")
    case (Some held)
    then show ?thesis using 4 holding_refused [OF assms(1) Some] by (simp add: refuse_def Let_def)
  qed (use 4 assms(1) in \<open>simp add: refuse_def\<close>)
next
  case (5 now j payload l')
  show ?thesis
  proof (cases "map_of (lEntries l) j")
    case (Some held)
    then show ?thesis using 5 assms(1) holding_refused [OF assms(1) Some] by (auto simp: recipient_def split: option.splits)
  qed (use 5 assms(1) in \<open>simp add: recipient_def\<close>)
qed

lemma admits_append [simp]: "admits (ops @ ops') = admits ops @ admits ops'"
  by (induction ops rule: admits.induct) auto

lemma first_ack_append [simp]: "first_ack i ack (ops @ ops') = first_ack i (first_ack i ack ops) ops'"
  by (induction i ack ops rule: first_ack.induct) auto

lemma ledger_run_holding:
  assumes "holding i actor t (set js) ack l" "list_all (\<lambda>op. fst op - t < ledgerWindow \<and> snd op \<noteq> Forget i) ops"
    and "card (insert i (set (js @ admits ops))) < ledgerLimit"
  shows "holding i actor t (set (js @ admits ops)) (first_ack i ack ops) (ledger_run ops l)"
  using assms(2,3)
proof (induction ops rule: rev_induct)
  case Nil
  then show ?case using assms(1) by (simp add: ledger_run_def)
next
  case (snoc op ops)
  have "card (insert i (set (js @ admits ops))) \<le> card (insert i (set (js @ admits (ops @ [op]))))"
    by (intro card_mono) auto
  then have "holding i actor t (set (js @ admits ops)) (first_ack i ack ops) (ledger_run ops l)"
    using snoc by simp
  from ledger_do_holding [OF this, of op] show ?case using snoc.prems by (simp add: ledger_run_def)
qed

text \<open>C38: A command runs at most once. Once the ledger has admitted a correlation id as new, and its command
  was not forgotten because its acceptance failed, no later admission of the id within the window is new,
  whatever else the doors did in between, as long as fewer than 16383 other commands were offered: the same
  sender's repeat is answered with exactly the first ack the command got (without its result document),
  none while it is still running, and another sender is refused.\<close>

theorem command_at_most_once:
  fixes actor' :: string
  assumes "l = ledger_run before newCommandLedger" "(i, t) \<notin> set (lOrder l)"
    and "fst (fst (admit t i actor l)) = ledgerNew"
    and "list_all (\<lambda>op. fst op - t < ledgerWindow \<and> snd op \<noteq> Forget i) between"
    and "card (insert i (set (admits between))) < ledgerLimit" "t' - t < ledgerWindow"
  shows "fst (admit t' i actor' (ledger_run between (snd (admit t i actor l)))) =
    (if actor' = actor then (ledgerRepeat, first_ack i ('''', None) between) else (ledgerForeignUse, '''', None))"
proof -
  have ok: "ledger_ok l" using assms(1) ledger_run_ok newCommandLedger_ok by blast
  define l1 where "l1 = expire t l"
  have kept: "set (lOrder l1) \<subseteq> set (lOrder l)"
  proof -
    have "set (snd (expire_keys t es order)) \<subseteq> set order" for es order
      by (induction t es order rule: expire_keys.induct) (auto split: option.splits)
    from this [of "lEntries l" "lOrder l"] show ?thesis by (simp add: l1_def expire_def split_beta)
  qed
  have none: "map_of (lEntries l1) i = None"
    using assms(3) by (auto simp: admit_def Let_def l1_def split: option.splits if_splits)
  have "ledger_ok (snd (admit t i actor l))" using ledger_do_ok [OF ok, of "(t, Admit i actor)"] by simp
  then have "holding i actor t (set []) ('''', None) (snd (admit t i actor l))"
    using none kept assms(2) by (auto simp: holding_def admit_def Let_def l1_def)
  from ledger_run_holding [OF this assms(4)] have "holding i actor t (set (admits between)) (first_ack i ('''', None) between)
      (ledger_run between (snd (admit t i actor l)))" using assms(5) by simp
  from held_verdict [OF this assms(6) _ assms(5)] show ?thesis by simp
qed

theorem command_at_most_once_witness:
  "(''c1'', 10) \<notin> set (lOrder (ledger_run [(5, Admit ''c0'' ''bob'')] newCommandLedger)) \<and>
   fst (fst (admit 10 ''c1'' ''ann'' (ledger_run [(5, Admit ''c0'' ''bob'')] newCommandLedger))) = ledgerNew \<and>
   fst (admit 500 ''c1'' ''ann'' (ledger_run [(20, Admit ''c2'' ''bob''), (30, Acked ''c1'' ''a/b'' ''{}''), (40, Acked ''c1'' ''a/b'' ''[]'')]
     (snd (admit 10 ''c1'' ''ann'' (ledger_run [(5, Admit ''c0'' ''bob'')] newCommandLedger))))) =
   (ledgerRepeat, ''a/b'', Some ''{}'')"
proof -
  define l where "l = ledger_run [(5, Admit ''c0'' ''bob'')] newCommandLedger"
  have l: "l = \<lparr>lEntries = [(''c0'', \<lparr>leActor = ''bob'', leAt = 5, leAckTopic = '''', leAck = None, leRefused = []\<rparr>)],
      lOrder = [(''c0'', 5)]\<rparr>"
    by (simp add: l_def ledger_run_def newCommandLedger_def admit_def Let_def expire_def)
  have a: "(''c1'', 10) \<notin> set (lOrder l)" "fst (fst (admit 10 ''c1'' ''ann'' l)) = ledgerNew"
    by (simp_all add: l admit_def Let_def expire_def ledgerWindow_def ledgerLimit_def)
  define ops where "ops = [(20, Admit ''c2'' ''bob''), (30, Acked ''c1'' ''a/b'' ''{}''), (40 :: int, Acked ''c1'' ''a/b'' ''[]'')]"
  have b: "list_all (\<lambda>op. fst op - 10 < ledgerWindow \<and> snd op \<noteq> Forget ''c1'') ops" "card (insert ''c1'' (set (admits ops))) < ledgerLimit"
    "(500 :: int) - 10 < ledgerWindow"
    by (simp_all add: ops_def ledgerWindow_def ledgerLimit_def)
  have ack: "first_ack ''c1'' ('''', None) ops = (''a/b'', Some ''{}'')"
    by (simp add: ops_def withoutResult_def quote_char_def prefix_def)
  show ?thesis
    using command_at_most_once [OF l_def a b, of "''ann''"] a ack by (simp add: ops_def l_def)
qed

section \<open>At the doors\<close>

text \<open>While the ledger holds a command, a door runs no other command under its id: a repeat by its sender
  redelivers its ack, anyone else gets the refusal, and both leave the command's entry and its ack as they
  were.\<close>

lemma admitCommand_held:
  assumes "holding i actor t ids ack l" "now - t < ledgerWindow" "finite ids" "card (insert i ids) < ledgerLimit"
    and "correlationID payload = i" "i \<noteq> ''''"
  shows "case admitCommand rt wired now p payload actor' l of (answer, sent, l') \<Rightarrow>
    answer = (if actor' = actor then Inr ('''', True) else Inl (ForeignCorrelation i)) \<and>
    sent = (if \<not> wired then [] else if actor' = actor then (case snd ack of None \<Rightarrow> [] | Some a \<Rightarrow> [(fst ack, a)])
            else [(Prefix rt @ ''_Ack/'' @ pNodeID p @ ''/'' @ pPath p, foreign_use_ack i)]) \<and>
    holding i actor t ids ack l'"
proof -
  have x: "holding i actor t ids ack (expire now l)" using expire_holding [OF assms(1-4)] .
  have r: "holding i actor t ids ack (refuse i a m (expire now l))" for a m
    using x holding_refused [OF x] by (auto simp: refuse_def Let_def split: option.splits)
  show ?thesis
    using held_verdict [OF assms(1-4), of actor'] assms(5,6) x r
    by (cases ack) (auto simp: admitCommand_def Let_def refuseForeignUse_def split: option.splits)
qed

text \<open>The refusal reaches the sender it is owed to, once: the next message with the same bytes is the
  command's own.\<close>

lemma refusal_delivered:
  assumes "map_of (lEntries l) i = Some held" "leRefused held = []"
  shows "fst (recipient i ack (refuse i actor ack l)) = actor \<and>
    fst (recipient i ack (snd (recipient i ack (refuse i actor ack l)))) = leActor held"
  using assms by (simp add: recipient_def refuse_def refusalLimit_def)

lemma withoutResult_example:
  "withoutResult (''{'' @ json_quote ''result'' @ '': [1, 2], '' @ json_quote ''code'' @ '' : 200}'') =
     ''{'' @ json_quote ''code'' @ '':200}''"
  by code_simp

end
