(* ===== verification/Spec2Isabelle.thy ===== *)
theory Spec2Isabelle
  imports Uns_Authz Uns_Command Uns_Signal Store_Append Store_Cursor Store_Read Http_Limit Engine_Ledger
begin

text \<open>
  A verification development for colca, a node of a hierarchy of industrial edge nodes. A node keeps
  typed records in durable streams (\<^verbatim>\<open>src/internal/store\<close>), names them by topics of one namespace
  (\<^verbatim>\<open>src/plugins/uns\<close>), decides who may do what with them (\<^verbatim>\<open>authz.go\<close>), replicates them to a
  parent node and receives definitions and commands from it (\<^verbatim>\<open>src/internal/repl\<close>), and prunes them
  by retention policies (\<^verbatim>\<open>src/internal/retention\<close>).

  \<^bold>\<open>How the code is modelled.\<close> A Go string is a \<^typ>\<open>string\<close>, its list of bytes. The topic root, a
  process-wide setting, is the argument \<^verbatim>\<open>rt\<close>. An error is a value of a datatype in a sum or option;
  a nil pointer that the code tests for is \<^const>\<open>None\<close>. JSON is parsed by an executable parser
  (\<^verbatim>\<open>Colca_Json\<close>). A store is a record: the disk with one field per key family, and what the process
  keeps in memory. A Pebble batch is the disk it would leave; an operation takes whether the synced apply
  succeeds (\<^verbatim>\<open>ok\<close>) and the clock (\<^verbatim>\<open>now\<close>) as arguments. What runs under one mutex is one step.
  Offsets and counters are natural numbers: a stream would have to hold 2 to the 64 records to wrap.

  \<^bold>\<open>Theories.\<close>
  \<^item> \<^verbatim>\<open>Colca_Prelude\<close>: lists, splitting, byte order, ordered tables. \<^verbatim>\<open>Colca_Json\<close>: the JSON of
    \<^verbatim>\<open>encoding/json\<close> as the code uses it, with Go's field matching and number conversion.
  \<^item> \<^verbatim>\<open>Uns_Topic\<close>, \<^verbatim>\<open>Uns_Filter\<close>: \<^verbatim>\<open>uns.go\<close>, \<^verbatim>\<open>root.go\<close>, \<^verbatim>\<open>retired.go\<close>,
    \<^verbatim>\<open>topicfilter.go\<close>. Parsing, contract classes, streams, mounting; filters match as MQTT says.
  \<^item> \<^verbatim>\<open>Uns_Scope\<close>: \<^verbatim>\<open>elements.go\<close>, \<^verbatim>\<open>ancestry.go\<close>, \<^verbatim>\<open>groups.go\<close>. The element index under any
    order of observations, and what groups grant.
  \<^item> \<^verbatim>\<open>Uns_Authz\<close>: \<^verbatim>\<open>authz.go\<close>. Entries, grants, zones, every action of \<^verbatim>\<open>Authorize\<close>; a
    subscription never shows more than a read, verbs are separate, grants print and parse.
  \<^item> \<^verbatim>\<open>Uns_Command\<close>, \<^verbatim>\<open>Uns_Signal\<close>: \<^verbatim>\<open>redelivery.go\<close>, \<^verbatim>\<open>replication_policy.go\<close>, command
    deadlines and targets of \<^verbatim>\<open>uns.go\<close>.
  \<^item> \<^verbatim>\<open>Store_Types\<close>, \<^verbatim>\<open>Store_Core\<close>: the records, their encoding and size, the disk, appends and
    their group commit (\<^verbatim>\<open>store.go\<close>, \<^verbatim>\<open>appendgroup.go\<close>, \<^verbatim>\<open>groupcommit.go\<close>, \<^verbatim>\<open>kvindex.go\<close>).
  \<^item> \<^verbatim>\<open>Store_Open\<close>: opening a store, the trust in its indexes, and the recovery of the contract index,
    which ends with an exact index however often it is cut off.
  \<^item> \<^verbatim>\<open>Store_Append\<close>: group commit refines one commit per request.
  \<^item> \<^verbatim>\<open>Store_Cursor\<close>: cursors, acks in group commit, set-aside records, incarnations.
  \<^item> \<^verbatim>\<open>Store_Repl\<close>: \<^verbatim>\<open>replgroup.go\<close> and the high-water marks of \<^verbatim>\<open>store.go\<close>. Replication
    stores every record of a child exactly once as long as the child leaves no gap, and what a failed group
    commit answers, which can make a child leave one.
  \<^item> \<^verbatim>\<open>Store_Prune\<close>: retention in \<^verbatim>\<open>store.go\<close>. A prune respects cursors, the journal partitions
    what was removed and gap reports are exact, a size budget is met and not overshot.
  \<^item> \<^verbatim>\<open>Store_Remove\<close>: \<^verbatim>\<open>compact.go\<close>, \<^verbatim>\<open>evict.go\<close>, \<^verbatim>\<open>signalprune.go\<close>, \<^verbatim>\<open>move.go\<close>. Removal
    inside a stream: no reader's view changes, the value in force stays, a move to a free position keeps its
    value; a move to an occupied one drops it, as the code means to.
  \<^item> \<^verbatim>\<open>Store_Inv\<close>, \<^verbatim>\<open>Store_Moves\<close>, \<^verbatim>\<open>Store_Machine\<close>: the invariant of a store, the few moves every
    operation is made of, and the machine whose steps are the operations of all the theories above, scans
    that run without the mutex and restarts included. Every reachable store is well formed and opens again
    as it was.
  \<^item> \<^verbatim>\<open>Store_Upgrade\<close>: opening a disk that was written before the signal and target indexes existed. The
    indexes then begin at the head of each stream, and the store is well formed, as is every store it becomes.
  \<^item> \<^verbatim>\<open>Store_Peek\<close>: \<^verbatim>\<open>recpeek.go\<close>. The head of a record read off its bytes is the head of the
    decoded record.
  \<^item> \<^verbatim>\<open>Store_Read\<close>: \<^verbatim>\<open>readRange\<close> and its callers, \<^verbatim>\<open>readpage.go\<close>, \<^verbatim>\<open>ReadSignals\<close> of
    \<^verbatim>\<open>sigindex.go\<close>, \<^verbatim>\<open>ReadTarget\<close> of \<^verbatim>\<open>targetindex.go\<close>, \<^verbatim>\<open>seekts.go\<close>. What a paged reader
    promises is the locale \<^verbatim>\<open>paged_read\<close>, interpreted for the scan and both indexes: following pages ends and
    gives every wanted record once, wherever in the stream an index begins; a seek splits a stream in time order.
  \<^item> \<^verbatim>\<open>Http_Limit\<close>: \<^verbatim>\<open>src/internal/httplimit\<close> and the limits of the HTTP doors. Token buckets, their sweep and
    eviction, policies, caller keys, and the byte budget of the replication door.
  \<^item> \<^verbatim>\<open>Engine_Ledger\<close>: the command ledger of \<^verbatim>\<open>src/internal/engine\<close>. Admission of correlation ids, expiry,
    acks kept for repeats, and who gets an ack.

  \<^bold>\<open>Choices a reader should know.\<close>
  \<^item> The machine starts from an empty disk, so on its stores both indexes cover whole streams. The pages of
    index reads are therefore proved for every well-formed store, of which \<^verbatim>\<open>Store_Upgrade\<close> gives ones whose
    indexes begin inside a stream.
  \<^item> A step of \<^verbatim>\<open>EvictRecords\<close> assumes that no other single record was removed since its scan: the code checks
    only the low-water mark, and the node runs it from the goroutine of all such removals. \<^verbatim>\<open>PruneSignals\<close> is one
    step although the code commits in several batches; the recheck of the cursors and the commit of
    \<^verbatim>\<open>PruneScanned\<close> are one step, because every writer of a cursor holds the mutex of cursors.
  \<^item> Opening fails in the model where the code finds a damaged index or marker. A corrupt counter or journal row,
    which the code also refuses, cannot be written in the typed disk. The errors of marshalling a record and of
    adding a key to a batch in memory are left out: neither occurs on the records of the model.
  \<^item> Decoding a record gives back the fields that were encoded, so a topic with invalid UTF-8, which
    \<^verbatim>\<open>encoding/json\<close> would replace, is taken to be valid. Field names of JSON match by ASCII case folding, and
    a null leaves a field at its zero value.
  \<^item> The refill of a token bucket is computed in rational numbers where the code uses floating point.

  \<^bold>\<open>Not modelled.\<close> The HTTP, MQTT and SQL doors, node assembly, clocks, blob files, metrics and the main programs
  are I/O around the parts above. The loops that connect the parts - the publish pipeline of the engine, the uplink
  and downlink clients, the ticker of the retention, the sync of the registry - and the payload checks and command
  executors, which rewrite JSON documents with libraries, are not modelled either; the operations they call on the
  store, the authorization and the ledger are. Pebble is the disk record: its files, cache and compactions are behind
  its documented behaviour that a synced batch is applied whole or not at all.
\<close>

end
